(* ===== verification/Prelude.thy ===== *)
theory Prelude
  imports Main "HOL-Library.Word" "HOL-Library.Monad_Syntax"
begin

text \<open>
  The vocabulary shared by the component theories.

  \<^item> Bytes, sizes and offsets.  A byte is an \<open>8 word\<close>.  Offsets and sizes of the I/O path
    (\<open>uint64_t\<close> and \<open>size_t\<close> in the code) are natural numbers; where the code adds two of them
    and the sum may exceed the width, the reduction modulo \<open>2 ^ 64\<close> is written out
    (\<open>u64_add\<close>).  Quantities whose wrap-around is the point are \<open>word\<close>s (theory Utility).
  \<^item> Contracts.  \<open>Expects(c)\<close> and \<open>Ensures(c)\<close> of the Guidelines Support Library terminate the
    process when \<open>c\<close> is false.  An operation with contracts returns an \<open>option\<close>: \<open>None\<close> is that
    termination, and \<open>expects\<close> is the guard, chained by the option monad.
  \<^item> Spans.  \<open>subspan\<close> is \<open>std::span::subspan(off, n)\<close> read as a list of bytes, and \<open>copy_at\<close>
    is copying a range into \<open>to.subspan(off, n)\<close>, the only way the code writes buffers.
\<close>

named_theorems span_simps \<open>lengths and elements of spans and copies\<close>

type_synonym byte = "8 word"

abbreviation (input) u64_limit :: nat where
  "u64_limit \<equiv> 2 ^ 64"

definition u64_add :: "nat \<Rightarrow> nat \<Rightarrow> nat" where
  "u64_add a b = (a + b) mod u64_limit"

lemma u64_add_exact [simp]: "a + b < u64_limit \<Longrightarrow> u64_add a b = a + b"
  by (simp add: u64_add_def)

subsection \<open>Error numbers\<close>

text \<open>The values of \<open><cerrno>\<close> on Linux that the sources name; 0 is success.\<close>

definition EIO :: int where "EIO = 5"
definition EINVAL :: int where "EINVAL = 22"
definition ENOTSUP :: int where "ENOTSUP = 95"
definition ENOTCONN :: int where "ENOTCONN = 107"

lemma errno_nonzero [simp]: "EIO \<noteq> 0" "EINVAL \<noteq> 0" "ENOTSUP \<noteq> 0" "ENOTCONN \<noteq> 0"
  by (simp_all add: EIO_def EINVAL_def ENOTSUP_def ENOTCONN_def)

subsection \<open>Contracts\<close>

definition expects :: "bool \<Rightarrow> unit option" where
  "expects c = (if c then Some () else None)"

lemma expects_True [simp]: "expects True = Some ()"
  and expects_False [simp]: "expects False = None"
  by (simp_all add: expects_def)

lemma expects_bind_Some [simp]:
  "(expects c \<bind> (\<lambda>_. f)) = Some r \<longleftrightarrow> c \<and> f = Some r"
  by (simp add: expects_def)

lemma expects_bind_if: "(expects c \<bind> (\<lambda>_. f)) = (if c then f else None)"
  by (simp add: expects_def)

subsection \<open>Spans\<close>

definition subspan :: "'a list \<Rightarrow> nat \<Rightarrow> nat \<Rightarrow> 'a list" where
  "subspan xs off n = take n (drop off xs)"

definition copy_at :: "'a list \<Rightarrow> nat \<Rightarrow> 'a list \<Rightarrow> 'a list" where
  "copy_at xs off ys = take off xs @ ys @ drop (off + length ys) xs"

lemma length_subspan [span_simps]:
  "length (subspan xs off n) = min n (length xs - off)"
  by (simp add: subspan_def)

lemma length_subspan_in [simp]:
  "off + n \<le> length xs \<Longrightarrow> length (subspan xs off n) = n"
  by (simp add: subspan_def)

lemma nth_subspan [span_simps]:
  "i < n \<Longrightarrow> off + i < length xs \<Longrightarrow> subspan xs off n ! i = xs ! (off + i)"
  by (simp add: subspan_def)

lemma subspan_zero [simp]: "subspan xs off 0 = []"
  by (simp add: subspan_def)

lemma subspan_all [simp]: "subspan xs 0 (length xs) = xs"
  by (simp add: subspan_def)

lemma subspan_whole: "n = length xs \<Longrightarrow> subspan xs 0 n = xs"
  by simp

lemma subspan_append:
  "subspan xs off (m + n) = subspan xs off m @ subspan xs (off + m) n"
  by (simp add: subspan_def take_add add.commute)

lemma subspan_subspan:
  "i + m \<le> n \<Longrightarrow> subspan (subspan xs off n) i m = subspan xs (off + i) m"
  by (simp add: subspan_def drop_take add.commute min_def)

lemma length_copy_at [simp]:
  "off + length ys \<le> length xs \<Longrightarrow> length (copy_at xs off ys) = length xs"
  by (simp add: copy_at_def)

lemma nth_copy_at [span_simps]:
  assumes "off + length ys \<le> length xs" and "i < length xs"
  shows "copy_at xs off ys ! i = (if off \<le> i \<and> i < off + length ys then ys ! (i - off) else xs ! i)"
  using assms by (auto simp: copy_at_def nth_append min_def)

lemma nth_copy_at_out:
  assumes "off + length ys \<le> length xs" "i < length xs" "\<not> (off \<le> i \<and> i < off + length ys)"
  shows "copy_at xs off ys ! i = xs ! i"
  using assms by (subst nth_copy_at) auto

lemma copy_at_Nil [simp]: "copy_at xs off [] = xs"
  by (simp add: copy_at_def)

lemma copy_at_whole [simp]: "length ys = length xs \<Longrightarrow> copy_at xs 0 ys = ys"
  by (simp add: copy_at_def)

lemma copy_at_append:
  assumes "off + length (ys @ zs) \<le> length xs"
  shows "copy_at (copy_at xs off ys) (off + length ys) zs = copy_at xs off (ys @ zs)"
  using assms by (intro nth_equalityI) (auto simp: span_simps nth_append)

lemma copy_at_append_next:
  assumes "off + length (ys @ zs) \<le> length xs" and "zs = [] \<or> off' = off + length ys"
  shows "copy_at (copy_at xs off ys) off' zs = copy_at xs off (ys @ zs)"
  using assms copy_at_append [OF assms(1)] by auto

lemma subspan_append_next:
  assumes "m = 0 \<or> off' = off + n"
  shows "subspan xs off n @ subspan xs off' m = subspan xs off (n + m)"
  using assms by (auto simp: subspan_append)

lemma subspan_copy_at_same [simp]:
  assumes "off + length ys \<le> length xs" and "n = length ys"
  shows "subspan (copy_at xs off ys) off n = ys"
  using assms by (intro nth_equalityI) (auto simp: span_simps)

lemma subspan_copy_at_before:
  assumes "off + length ys \<le> length xs" and "i + n \<le> off"
  shows "subspan (copy_at xs off ys) i n = subspan xs i n"
  using assms by (intro nth_equalityI) (auto simp: span_simps)

lemma subspan_copy_at_after:
  assumes "off + length ys \<le> length xs" and "off + length ys \<le> i"
  shows "subspan (copy_at xs off ys) i n = subspan xs i n"
  using assms by (intro nth_equalityI) (auto simp: span_simps)

lemma subspan_copy_at_inside:
  assumes "i + length ys \<le> n" and "off + n \<le> length xs"
  shows "subspan (copy_at xs (off + i) ys) off n = copy_at (subspan xs off n) i ys"
proof (rule nth_equalityI)
  have l: "off + i + length ys \<le> length xs" "i + length ys \<le> length (subspan xs off n)" using assms by simp_all
  show "length (subspan (copy_at xs (off + i) ys) off n) = length (copy_at (subspan xs off n) i ys)"
    using assms l by simp
  fix j assume "j < length (subspan (copy_at xs (off + i) ys) off n)"
  then have j: "j < n" using assms l by simp
  have "off + j - (off + i) = j - i" by simp
  then show "subspan (copy_at xs (off + i) ys) off n ! j = copy_at (subspan xs off n) i ys ! j"
    using j assms l by (simp add: nth_subspan nth_copy_at)
qed

lemma copy_at_subspan_id [simp]:
  "off + n \<le> length xs \<Longrightarrow> copy_at xs off (subspan xs off n) = xs"
  by (intro nth_equalityI) (auto simp: span_simps)

lemma copy_at_commute:
  assumes "off + length ys \<le> length xs" and "off' + length zs \<le> length xs"
    and "off + length ys \<le> off' \<or> off' + length zs \<le> off"
  shows "copy_at (copy_at xs off ys) off' zs = copy_at (copy_at xs off' zs) off ys"
  using assms by (intro nth_equalityI) (auto simp: span_simps)

lemma copy_at_copy_at_same:
  assumes "off + length ys \<le> length xs" and "length zs = length ys"
  shows "copy_at (copy_at xs off ys) off zs = copy_at xs off zs"
  using assms by (intro nth_equalityI) (auto simp: span_simps)

subsection \<open>Completion errors\<close>

text \<open>
  A finished subquery hands its error to its parent: \<open>if (rq.err()) parent_rq->set_err(rq.err())\<close>.
  A later error replaces an earlier one; success never clears one.
\<close>

definition merge_err :: "int \<Rightarrow> int \<Rightarrow> int" where
  "merge_err parent child = (if child \<noteq> 0 then child else parent)"

lemma merge_err_zero [simp]: "merge_err p 0 = p" "merge_err 0 c = c"
  by (simp_all add: merge_err_def)

lemma merge_err_eq_zero [simp]: "merge_err p c = 0 \<longleftrightarrow> p = 0 \<and> c = 0"
  by (simp add: merge_err_def)

subsection \<open>Chunks\<close>

text \<open>
  Requests are cut at multiples of a strip, stripe or cache item; \<open>strips_round_up\<close> is
  \<open>div_round_up\<close> of \<open>utils/utility.hpp\<close> on values that do not wrap around (theory Utility has the
  machine version).
\<close>

definition strips_round_up :: "nat \<Rightarrow> nat \<Rightarrow> nat" where
  "strips_round_up x S = (x + S - 1) div S"

lemma strips_round_up_bounds:
  assumes "0 < S"
  shows "x \<le> strips_round_up x S * S" "strips_round_up x S * S < x + S"
proof -
  have "x + S - 1 = (x + S - 1) div S * S + (x + S - 1) mod S" by simp
  moreover have "(x + S - 1) mod S < S" using assms by simp
  ultimately show "x \<le> strips_round_up x S * S" "strips_round_up x S * S < x + S"
    unfolding strips_round_up_def using assms by linarith+
qed

lemma strips_round_up_mult:
  assumes "0 < S"
  shows "strips_round_up (m * S) S = m"
proof -
  have "m * S + S - 1 = (S - 1) + m * S" using assms by linarith
  moreover have "((S - 1) + m * S) div S = m" using assms by (subst div_mult_self1) simp_all
  ultimately show ?thesis by (simp only: strips_round_up_def)
qed

lemma next_chunk:
  fixes D :: nat
  assumes "so < D" "chunk = min (D - so) rest" "rest' = rest - chunk"
  shows "rest' = 0 \<or> Suc k * D = k * D + so + chunk"
  using assms by auto

lemma chunk_progress:
  fixes D :: nat
  assumes "so < D" "rb < n"
  shows "n - (rb + min (D - so) (n - rb)) < n - rb"
  using assms by (auto simp: min_def)

end
