(* ===== verification/Utility.thy ===== *)
theory Utility
  imports Prelude
begin

unbundle bit_operations_syntax

text \<open>
  The arithmetic helpers of \<open>utils/utility.hpp\<close>, the sector conversions of \<open>ublk/sector.hpp\<close>
  and the literals of \<open>utils/size_units.hpp\<close>, on machine words of any width (the C++ templates range over the unsigned
  integral types).  \<open>None\<close> is a violated \<open>Expects\<close>.  The lemmas say when the wrap-around of the
  C++ expressions is harmless, and what they compute then.
\<close>

subsection \<open>utils/utility.hpp\<close>

definition is_power_of_2 :: "'a::len word \<Rightarrow> bool" where
  "is_power_of_2 x = list_ex (\<lambda>n. x = push_bit n 1) [0..<LENGTH('a)]"

definition div_round_up :: "'a::len word \<Rightarrow> 'a word \<Rightarrow> 'a word option" where
  "div_round_up x y = do { expects (y \<noteq> 0); Some ((x + y - 1) div y) }"

definition alignup :: "'a::len word \<Rightarrow> 'a word \<Rightarrow> 'a word option" where
  "alignup x y = do { q \<leftarrow> div_round_up x y; Some (q * y) }"

definition aligndown :: "'a::len word \<Rightarrow> 'a word \<Rightarrow> 'a word option" where
  "aligndown x y = do { expects (y \<noteq> 0); Some ((x div y) * y) }"

definition align_up :: "'a::len word \<Rightarrow> 'a word \<Rightarrow> 'a word option" where
  "align_up x y = do { expects (is_power_of_2 y); Some (((x - 1) OR (y - 1)) + 1) }"

definition align_down :: "'a::len word \<Rightarrow> 'a word \<Rightarrow> 'a word option" where
  "align_down x y = do { expects (is_power_of_2 y); Some (x AND NOT (y - 1)) }"

definition is_multiple_of :: "'a::len word \<Rightarrow> 'a word \<Rightarrow> bool option" where
  "is_multiple_of x y = do { expects (is_power_of_2 y); Some (0 = (x AND (y - 1))) }"

definition is_aligned_to :: "'a::len word \<Rightarrow> 'a word \<Rightarrow> bool option" where
  "is_aligned_to x y = is_multiple_of x y"

subsection \<open>ublk/sector.hpp\<close>

definition kSectorShift :: nat where "kSectorShift = 9"
definition kSectorSz :: "64 word" where "kSectorSz = push_bit kSectorShift 1"

definition sectors_to_bytes :: "'a::len word \<Rightarrow> 'a word" where
  "sectors_to_bytes x = push_bit kSectorShift x"

definition bytes_to_sectors :: "'a::len word \<Rightarrow> 'a word" where
  "bytes_to_sectors x = drop_bit kSectorShift x"

subsection \<open>utils/size_units.hpp\<close>

text \<open>The operators take and return \<open>unsigned long long\<close>.\<close>

definition size_KiB :: "64 word \<Rightarrow> 64 word" where
  "size_KiB x = push_bit 10 x"

definition size_MiB :: "64 word \<Rightarrow> 64 word" where
  "size_MiB x = push_bit 20 x"

definition size_GiB :: "64 word \<Rightarrow> 64 word" where
  "size_GiB x = push_bit 30 x"

definition size_TiB :: "64 word \<Rightarrow> 64 word" where
  "size_TiB x = push_bit 40 x"

definition size_PiB :: "64 word \<Rightarrow> 64 word" where
  "size_PiB x = push_bit 50 x"

definition size_EiB :: "64 word \<Rightarrow> 64 word" where
  "size_EiB x = push_bit 60 x"

definition size_KB :: "64 word \<Rightarrow> 64 word" where
  "size_KB x = x * 1000"

definition size_MB :: "64 word \<Rightarrow> 64 word" where
  "size_MB x = x * 1000000"

definition size_GB :: "64 word \<Rightarrow> 64 word" where
  "size_GB x = x * 1000000000"

definition size_TB :: "64 word \<Rightarrow> 64 word" where
  "size_TB x = x * 1000000000000"

definition size_PB :: "64 word \<Rightarrow> 64 word" where
  "size_PB x = x * 1000000000000000"

definition size_EB :: "64 word \<Rightarrow> 64 word" where
  "size_EB x = x * 1000000000000000000"

definition size_b :: "64 word \<Rightarrow> 8 word" where
  "size_b x = ucast x"

lemmas size_units = size_KiB_def size_MiB_def size_GiB_def size_TiB_def size_PiB_def size_EiB_def

text \<open>Each binary unit is 1024 of the one below, whatever wraps.\<close>

lemma size_units_steps:
  "size_MiB x = size_KiB (size_KiB x)" "size_GiB x = size_KiB (size_MiB x)" "size_TiB x = size_KiB (size_GiB x)"
  "size_PiB x = size_KiB (size_TiB x)" "size_EiB x = size_KiB (size_PiB x)"
  by (simp_all add: size_units push_bit_eq_mult)

subsection \<open>Powers of two\<close>

lemma unat_exp: "n < LENGTH('a) \<Longrightarrow> unat (2 ^ n :: 'a::len word) = 2 ^ n"
  by (simp add: unat_of_nat [of "2 ^ n", where ?'a = 'a, simplified])

lemma is_power_of_2_iff:
  "is_power_of_2 (x :: 'a::len word) \<longleftrightarrow> (\<exists>n < LENGTH('a). unat x = 2 ^ n)"
proof -
  have *: "x = push_bit n 1 \<longleftrightarrow> unat x = 2 ^ n" if "n < LENGTH('a)" for n
    using that by (simp add: word_unat_eq_iff push_bit_eq_mult unat_exp)
  show ?thesis
    unfolding is_power_of_2_def list_ex_iff
    by (auto simp del: push_bit_of_1 simp add: * Bex_def)
qed

lemma is_power_of_2E:
  assumes "is_power_of_2 (y :: 'a::len word)"
  obtains n where "n < LENGTH('a)" "y = 2 ^ n" "unat y = 2 ^ n" "y - 1 = mask n"
proof -
  from assms obtain n where n: "n < LENGTH('a)" "unat y = 2 ^ n"
    by (auto simp: is_power_of_2_iff)
  then have "y = 2 ^ n" by (simp add: word_unat_eq_iff unat_exp)
  with n show ?thesis by (intro that) (simp_all add: mask_eq_exp_minus_1)
qed

lemma is_multiple_of_dvd:
  assumes "is_power_of_2 y"
  shows "is_multiple_of x y = Some (unat y dvd unat x)"
proof -
  from assms obtain n where "y - 1 = mask n" "unat y = 2 ^ n" by (rule is_power_of_2E)
  then show ?thesis
    using assms and_mask_dvd_nat [of n x] by (auto simp: is_multiple_of_def)
qed

subsection \<open>Rounding\<close>

lemma unat_div_round_up:
  assumes "y \<noteq> 0" and "unat x + (unat y - 1) < 2 ^ LENGTH('a)"
  shows "\<exists>q. div_round_up x (y :: 'a::len word) = Some q \<and> unat q = (unat x + (unat y - 1)) div unat y"
proof -
  have "unat (x + (y - 1)) = unat x + (unat y - 1)"
    using assms unat_add_lem [of x "y - 1"] by (simp add: unat_minus_one)
  then have "unat (x + y - 1) = unat x + (unat y - 1)" by (simp add: add_diff_eq)
  then show ?thesis
    using assms(1) by (simp add: div_round_up_def unat_div)
qed

lemma unat_or_mask:
  assumes "n < LENGTH('a)"
  shows "unat ((x :: 'a::len word) OR mask n) = (unat x div 2 ^ n) * 2 ^ n + (2 ^ n - 1)"
proof -
  have m: "unat (mask n :: 'a word) = 2 ^ n - 1"
    using assms by (simp add: mask_eq_exp_minus_1 unat_minus_one unat_exp)
  have "uint (x AND mask n) + uint (x OR mask n) = uint x + uint (mask n :: 'a word)"
    by (simp only: unsigned_and_eq unsigned_or_eq plus_and_or)
  then have "unat (x AND mask n) + unat (x OR mask n) = unat x + unat (mask n :: 'a word)"
    by (simp only: uint_nat flip: of_nat_add)
  moreover have "unat (x AND mask n) = unat x mod 2 ^ n"
    by (metis take_bit_eq_mask unsigned_take_bit_eq take_bit_eq_mod)
  ultimately show ?thesis
    using m div_mult_mod_eq [of "unat x" "2 ^ n"] by linarith
qed

lemma align_up_unat:
  assumes "is_power_of_2 (y :: 'a::len word)" and "unat x + (unat y - 1) < 2 ^ LENGTH('a)"
  shows "\<exists>r. align_up x y = Some r \<and> unat r = (unat x + (unat y - 1)) div unat y * unat y"
proof -
  from assms(1) obtain n where n: "n < LENGTH('a)" "unat y = 2 ^ n" "y - 1 = mask n"
    by (rule is_power_of_2E)
  have "unat (((x - 1) OR mask n) + 1) = (unat x + (2 ^ n - 1)) div 2 ^ n * 2 ^ n"
  proof (cases "x = 0")
    case True
    then have "(x - 1) OR mask n = - 1" by simp
    then show ?thesis using True by simp
  next
    case False
    let ?q = "(unat x - 1) div 2 ^ n"
    have pos: "0 < unat x" using False by (simp add: unat_gt_0)
    have q: "(unat x + (2 ^ n - 1)) div 2 ^ n = ?q + 1"
    proof -
      have "unat x + (2 ^ n - 1) = (unat x - 1) + 2 ^ n"
        using pos by simp
      then show ?thesis using div_add_self2 [of "2 ^ n" "unat x - 1"] by simp
    qed
    have o: "unat ((x - 1) OR mask n) = ?q * 2 ^ n + (2 ^ n - 1)"
      using unat_or_mask [OF n(1), of "x - 1"] False by (simp add: unat_minus_one)
    have "?q * 2 ^ n \<le> unat x - 1" by simp
    then have "?q * 2 ^ n + 2 ^ n < 2 ^ LENGTH('a)"
      using assms(2) n(2) pos by linarith
    then have "unat ((x - 1) OR mask n) + unat (1 :: 'a word) < 2 ^ LENGTH('a)"
      using o by simp
    then have "unat (((x - 1) OR mask n) + 1) = unat ((x - 1) OR mask n) + unat (1 :: 'a word)"
      by (rule unat_add_lem [THEN iffD1])
    then show ?thesis using q o by simp
  qed
  then show ?thesis using assms(1) n by (simp add: align_up_def)
qed

lemma align_down_unat:
  assumes "is_power_of_2 (y :: 'a::len word)"
  shows "\<exists>r. align_down x y = Some r \<and> unat r = unat x div unat y * unat y"
proof -
  from assms obtain n where n: "n < LENGTH('a)" "unat y = 2 ^ n" "y - 1 = mask n"
    by (rule is_power_of_2E)
  have "x AND NOT (mask n) = push_bit n (drop_bit n x)"
    by (rule bit_word_eqI) (auto simp: bit_simps)
  moreover have "unat x div 2 ^ n * 2 ^ n < 2 ^ LENGTH('a)"
  proof -
    have "unat x < 2 ^ LENGTH('a)" by (rule unsigned_less)
    then show ?thesis using div_mult_mod_eq [of "unat x" "2 ^ n"] by linarith
  qed
  ultimately have "unat (x AND NOT (mask n)) = unat x div 2 ^ n * 2 ^ n"
    by (simp only: unsigned_push_bit_eq unsigned_drop_bit_eq)
       (simp add: push_bit_eq_mult drop_bit_eq_div take_bit_nat_eq_self)
  then show ?thesis using assms n by (simp add: align_down_def)
qed

lemma unat_alignup:
  assumes "y \<noteq> 0" and "unat x + (unat y - 1) < 2 ^ LENGTH('a)"
  shows "\<exists>r. alignup x (y :: 'a::len word) = Some r \<and> unat r = (unat x + (unat y - 1)) div unat y * unat y"
proof -
  obtain q where q: "div_round_up x y = Some q" "unat q = (unat x + (unat y - 1)) div unat y"
    using unat_div_round_up [OF assms] by blast
  have "unat q * unat y \<le> unat x + (unat y - 1)" using q(2) by simp
  then have "unat (q * y) = unat q * unat y" 
    using assms(2) by (subst unat_mult_lem [symmetric]) linarith
  then show ?thesis using q by (simp add: alignup_def)
qed

lemma round_up_nat:
  fixes a b :: nat
  assumes "0 < b"
  defines "r \<equiv> (a + (b - 1)) div b * b"
  shows "b dvd r" "a \<le> r" "r < a + b"
proof -
  show "b dvd r" by (simp add: r_def)
  have "r + (a + (b - 1)) mod b = a + (b - 1)" by (simp add: r_def)
  moreover have "(a + (b - 1)) mod b < b" using assms(1) by simp
  ultimately show "a \<le> r" "r < a + b" using assms(1) by linarith+
qed

lemma is_power_of_2_512 [simp]: "is_power_of_2 (512 :: 64 word)"
  unfolding is_power_of_2_iff by (rule exI [of _ 9]) simp

text \<open>
  Rounding up to a power-of-two boundary with the bit trick \<open>((x - 1) | (y - 1)) + 1\<close>: unless
  \<open>x + y - 1\<close> exceeds the width, the result is the least multiple of \<open>y\<close> that is not below \<open>x\<close>.
\<close>
theorem align_up_least:
  assumes "is_power_of_2 (y :: 'a::len word)" and "unat x + (unat y - 1) < 2 ^ LENGTH('a)"
  shows "\<exists>r. align_up x y = Some r \<and> unat y dvd unat r \<and> unat x \<le> unat r \<and>
    (\<forall>m. unat y dvd m \<and> unat x \<le> m \<longrightarrow> unat r \<le> m)"
proof -
  from assms(1) have "0 < unat y" by (auto elim: is_power_of_2E)
  note r = round_up_nat [OF this, of "unat x"]
  obtain r where r': "align_up x y = Some r" "unat r = (unat x + (unat y - 1)) div unat y * unat y"
    using align_up_unat [OF assms] by blast
  have "unat r \<le> m" if "unat y dvd m" "unat x \<le> m" for m
  proof (rule ccontr)
    assume "\<not> unat r \<le> m"
    with that(1) r(1) r'(2) have "unat y dvd unat r - m" "0 < unat r - m" by (simp_all add: dvd_diff_nat)
    then have "unat y \<le> unat r - m" by (rule dvd_imp_le)
    then show False using that(2) r(3) r'(2) \<open>0 < unat r - m\<close> by linarith
  qed
  then show ?thesis using r'(1) r(1,2) [folded r'(2)] by blast
qed

theorem align_up_least_witness:
  "\<exists>r. align_up (1000 :: 64 word) 512 = Some r \<and> unat (512 :: 64 word) dvd unat r \<and>
     unat (1000 :: 64 word) \<le> unat r \<and>
     (\<forall>m. unat (512 :: 64 word) dvd m \<and> unat (1000 :: 64 word) \<le> m \<longrightarrow> unat r \<le> m)"
  by (rule align_up_least) (simp_all add: is_power_of_2_512)

text \<open>
  The bit trick of \<open>align_up\<close> and the division of \<open>alignup\<close> compute the same boundary for a
  power of two, unless \<open>x + y - 1\<close> exceeds the width.
\<close>
theorem align_up_eq_alignup:
  assumes "is_power_of_2 (y :: 'a::len word)" and "unat x + (unat y - 1) < 2 ^ LENGTH('a)"
  shows "align_up x y = alignup x y"
proof -
  from assms(1) have "y \<noteq> 0" by (auto elim!: is_power_of_2E)
  with align_up_unat [OF assms] unat_alignup [OF _ assms(2)] show ?thesis
    by (metis word_unat_eq_iff)
qed

theorem align_up_eq_alignup_witness:
  "align_up (1000 :: 64 word) 512 = alignup 1000 512"
  by (rule align_up_eq_alignup) (simp_all add: is_power_of_2_512)

end
