(* ===== verification/Cfq.thy ===== *)
theory Cfq
  imports Prelude
begin

text \<open>
  \<open>ublk/cfq/\<close>: the single-producer single-consumer ring over a fixed span of items that carries
  commands from the kernel and acknowledgements back.  \<open>base.hpp\<close> validates what the two ends are
  built from, \<open>pusher.hpp\<close> stores at the tail, \<open>popper.hpp\<close> takes from the head; the ring is full
  when the tail would catch up with the head, so one slot is never used.

  First the two ends as atomic operations and the queue they implement; then the loads and stores
  of both ends as single steps that interleave (every access of the code is atomic or ordered by
  the acquire and release operations around it, so the interleaving of the accesses is the model).
\<close>

subsection \<open>State and construction\<close>

record 'a cfq =
  cfq_items :: "'a list"
  cfq_head :: nat
  cfq_tail :: nat

datatype cfq_error =
  Head_empty | Tail_empty | Too_few_items | Head_out_of_range | Tail_out_of_range

definition capacity_full :: "'a cfq \<Rightarrow> nat" where
  "capacity_full q = length (cfq_items q)"

definition capacity :: "'a cfq \<Rightarrow> nat" where
  "capacity q = capacity_full q - 1"

definition cfq_base :: "nat option \<Rightarrow> nat option \<Rightarrow> 'a list \<Rightarrow> cfq_error + 'a cfq" where
  "cfq_base ph pt items =
     (case ph of None \<Rightarrow> Inl Head_empty
      | Some h \<Rightarrow> (case pt of None \<Rightarrow> Inl Tail_empty
          | Some t \<Rightarrow>
              if length items < 2 then Inl Too_few_items
              else if h > length items then Inl Head_out_of_range
              else if t > length items then Inl Tail_out_of_range
              else Inr \<lparr>cfq_items = items, cfq_head = h, cfq_tail = t\<rparr>))"

subsection \<open>Operations\<close>

definition cfq_push :: "'a cfq \<Rightarrow> 'a \<Rightarrow> (bool \<times> 'a cfq) option" where
  "cfq_push q v =
     (let ct = cfq_tail q; nct = (ct + 1) mod capacity_full q
      in if nct \<noteq> cfq_head q
         then do {
           expects (ct < capacity_full q);
           Some (True, q\<lparr>cfq_items := (cfq_items q)[ct := v], cfq_tail := nct\<rparr>) }
         else Some (False, q))"

definition cfq_pop :: "'a cfq \<Rightarrow> ('a option \<times> 'a cfq) option" where
  "cfq_pop q =
     (let ch = cfq_head q; ct = cfq_tail q
      in if ct \<noteq> ch
         then do {
           expects (ch < capacity_full q);
           Some (Some (cfq_items q ! ch), q\<lparr>cfq_head := (ch + 1) mod capacity_full q\<rparr>) }
         else Some (None, q))"

subsection \<open>The queue a ring stands for\<close>

definition cfq_ok :: "'a cfq \<Rightarrow> bool" where
  "cfq_ok q \<longleftrightarrow> 2 \<le> capacity_full q \<and> cfq_head q < capacity_full q \<and> cfq_tail q < capacity_full q"

definition cfq_used :: "'a cfq \<Rightarrow> nat" where
  "cfq_used q = (cfq_tail q + capacity_full q - cfq_head q) mod capacity_full q"

definition cfq_list :: "'a cfq \<Rightarrow> 'a list" where
  "cfq_list q = map (\<lambda>i. cfq_items q ! ((cfq_head q + i) mod capacity_full q)) [0..<cfq_used q]"

lemma length_cfq_list [simp]: "length (cfq_list q) = cfq_used q"
  by (simp add: cfq_list_def)

lemma capacity_full_update [simp]:
  "capacity_full (q\<lparr>cfq_head := h\<rparr>) = capacity_full q"
  "capacity_full (q\<lparr>cfq_tail := t\<rparr>) = capacity_full q"
  "capacity_full (q\<lparr>cfq_items := (cfq_items q)[i := v]\<rparr>) = capacity_full q"
  by (simp_all add: capacity_full_def)

lemma wrap_inc:
  fixes a n :: nat
  assumes "a < n"
  shows "Suc a mod n = (if Suc a = n then 0 else Suc a)"
  using assms by auto

lemma cfq_used_cases:
  assumes "cfq_ok q"
  shows "cfq_used q = (if cfq_head q \<le> cfq_tail q then cfq_tail q - cfq_head q
      else cfq_tail q + capacity_full q - cfq_head q)"
    and "cfq_used q < capacity_full q"
    and "(cfq_head q + cfq_used q) mod capacity_full q = cfq_tail q"
    and "cfq_used q = 0 \<longleftrightarrow> cfq_tail q = cfq_head q"
    and "cfq_used q < capacity q \<longleftrightarrow> (cfq_tail q + 1) mod capacity_full q \<noteq> cfq_head q"
proof -
  let ?n = "capacity_full q" and ?h = "cfq_head q" and ?t = "cfq_tail q"
  have b: "?h < ?n" "?t < ?n" using assms by (auto simp: cfq_ok_def)
  have "(?t + ?n - ?h) mod ?n = ?t - ?h" if "?h \<le> ?t"
  proof -
    have e: "?t + ?n - ?h = (?t - ?h) + ?n" using that by simp
    show ?thesis unfolding e using b by simp
  qed
  moreover have "(?t + ?n - ?h) mod ?n = ?t + ?n - ?h" if "\<not> ?h \<le> ?t" using that b by simp
  ultimately show u: "cfq_used q = (if ?h \<le> ?t then ?t - ?h else ?t + ?n - ?h)" by (simp add: cfq_used_def)
  show "cfq_used q < ?n" using u b by auto
  have "?h + cfq_used q = (if ?h \<le> ?t then ?t else ?t + ?n)" using u b by simp
  then show "(?h + cfq_used q) mod ?n = ?t" using b by (simp split: if_splits)
  show "cfq_used q = 0 \<longleftrightarrow> ?t = ?h" using u b by auto
  have "cfq_used q < ?n - 1 \<longleftrightarrow> (if Suc ?t = ?n then 0 else Suc ?t) \<noteq> ?h"
    unfolding u using b by auto
  then show "cfq_used q < capacity q \<longleftrightarrow> (?t + 1) mod ?n \<noteq> ?h"
    by (simp add: capacity_def wrap_inc [OF b(2)])
qed

text \<open>Distinct positions of the queue lie in distinct slots, and none of them is the tail slot.\<close>

lemma slot_neq_tail:
  assumes "cfq_ok q" "i < cfq_used q"
  shows "(cfq_head q + i) mod capacity_full q \<noteq> cfq_tail q"
    and "(cfq_head q + i) mod capacity_full q < capacity_full q"
proof -
  have b: "cfq_head q < capacity_full q" "cfq_tail q < capacity_full q" using assms(1) by (auto simp: cfq_ok_def)
  then show "(cfq_head q + i) mod capacity_full q < capacity_full q" by auto
  show "(cfq_head q + i) mod capacity_full q \<noteq> cfq_tail q"
  proof (cases "cfq_head q + i < capacity_full q")
    case True
    then show ?thesis using assms cfq_used_cases(1) [OF assms(1)] b by (auto split: if_splits)
  next
    case False
    then have "(cfq_head q + i) mod capacity_full q = cfq_head q + i - capacity_full q"
      using assms(2) cfq_used_cases(2) [OF assms(1)] b by (simp add: mod_if)
    then show ?thesis using False assms cfq_used_cases(1) [OF assms(1)] b by (auto split: if_splits)
  qed
qed

text \<open>Storing in the free slot changes nothing; publishing the tail appends the stored value.\<close>

lemma cfq_store:
  assumes "cfq_ok q"
  shows "cfq_ok (q\<lparr>cfq_items := (cfq_items q)[cfq_tail q := v]\<rparr>)"
    and "cfq_list (q\<lparr>cfq_items := (cfq_items q)[cfq_tail q := v]\<rparr>) = cfq_list q"
proof -
  let ?q = "q\<lparr>cfq_items := (cfq_items q)[cfq_tail q := v]\<rparr>"
  have c: "capacity_full ?q = capacity_full q" by (simp add: capacity_full_def)
  then have u: "cfq_used ?q = cfq_used q" by (simp add: cfq_used_def)
  show "cfq_ok ?q" using assms c by (simp add: cfq_ok_def)
  have "(cfq_items q)[cfq_tail q := v] ! ((cfq_head q + i) mod capacity_full q) =
      cfq_items q ! ((cfq_head q + i) mod capacity_full q)" if "i < cfq_used q" for i
    using slot_neq_tail [OF assms that] by simp
  then show "cfq_list ?q = cfq_list q" by (simp add: cfq_list_def c u)
qed

lemma cfq_publish_tail:
  assumes "cfq_ok q" "cfq_used q < capacity q"
  shows "cfq_ok (q\<lparr>cfq_tail := (cfq_tail q + 1) mod capacity_full q\<rparr>)"
    and "cfq_list (q\<lparr>cfq_tail := (cfq_tail q + 1) mod capacity_full q\<rparr>) = cfq_list q @ [cfq_items q ! cfq_tail q]"
proof -
  let ?q = "q\<lparr>cfq_tail := (cfq_tail q + 1) mod capacity_full q\<rparr>"
  have c: "capacity_full ?q = capacity_full q" by (simp add: capacity_full_def)
  have b: "cfq_head q < capacity_full q" "cfq_tail q < capacity_full q" using assms(1) by (auto simp: cfq_ok_def)
  show ok: "cfq_ok ?q" using assms(1) b c by (simp add: cfq_ok_def)
  have "cfq_used ?q = Suc (cfq_used q)"
    unfolding cfq_used_cases(1) [OF ok] cfq_used_cases(1) [OF assms(1)]
    using assms(2)[unfolded capacity_def cfq_used_cases(1) [OF assms(1)]] b
    by (simp add: wrap_inc) auto
  then show "cfq_list ?q = cfq_list q @ [cfq_items q ! cfq_tail q]"
    using cfq_used_cases(3) [OF assms(1)] by (simp add: cfq_list_def c)
qed

lemma cfq_advance_head:
  assumes "cfq_ok q" "cfq_used q \<noteq> 0"
  shows "cfq_ok (q\<lparr>cfq_head := (cfq_head q + 1) mod capacity_full q\<rparr>)"
    and "cfq_list q = cfq_items q ! cfq_head q # cfq_list (q\<lparr>cfq_head := (cfq_head q + 1) mod capacity_full q\<rparr>)"
proof -
  let ?q = "q\<lparr>cfq_head := (cfq_head q + 1) mod capacity_full q\<rparr>"
  have c: "capacity_full ?q = capacity_full q" by (simp add: capacity_full_def)
  have b: "cfq_head q < capacity_full q" "cfq_tail q < capacity_full q" using assms(1) by (auto simp: cfq_ok_def)
  show ok: "cfq_ok ?q" using assms(1) b c by (simp add: cfq_ok_def)
  have u: "cfq_used q = Suc (cfq_used ?q)"
    unfolding cfq_used_cases(1) [OF ok] cfq_used_cases(1) [OF assms(1)]
    using assms(2)[unfolded cfq_used_cases(1) [OF assms(1)]] b
    by (simp add: wrap_inc) auto
  have "[0..<cfq_used q] = 0 # map Suc [0..<cfq_used ?q]" unfolding u by (simp only: upt_conv_Cons map_Suc_upt zero_less_Suc)
  then show "cfq_list q = cfq_items q ! cfq_head q # cfq_list ?q"
    using b by (simp add: cfq_list_def c comp_def mod_simps)
qed

subsection \<open>The ring as a bounded queue\<close>

locale bounded_fifo =
  fixes ok :: "'q \<Rightarrow> bool" and contents :: "'q \<Rightarrow> 'a list" and bound :: "'q \<Rightarrow> nat"
    and push :: "'q \<Rightarrow> 'a \<Rightarrow> (bool \<times> 'q) option"
    and pop :: "'q \<Rightarrow> ('a option \<times> 'q) option"
  assumes push_law: "ok q \<Longrightarrow> \<exists>q'. push q v = Some (length (contents q) < bound q, q') \<and> ok q' \<and>
      bound q' = bound q \<and> contents q' = (if length (contents q) < bound q then contents q @ [v] else contents q)"
    and pop_law: "ok q \<Longrightarrow> \<exists>q'. pop q = Some (if contents q = [] then None else Some (hd (contents q)), q') \<and>
      ok q' \<and> bound q' = bound q \<and> contents q' = tl (contents q)"
begin

text \<open>A run of pushes and pops, and what it hands out.\<close>

primrec run :: "'q \<Rightarrow> 'a option list \<Rightarrow> ('a list \<times> 'a list \<times> 'q) option" where
  "run q [] = Some ([], [], q)"
| "run q (a # as) =
     (case a of
        Some v \<Rightarrow> (case push q v of None \<Rightarrow> None | Some (b, q') \<Rightarrow>
          map_option (\<lambda>(i, out, r). ((if b then v # i else i), out, r)) (run q' as))
      | None \<Rightarrow> (case pop q of None \<Rightarrow> None | Some (x, q') \<Rightarrow>
          map_option (\<lambda>(i, out, r). (i, (case x of None \<Rightarrow> out | Some v \<Rightarrow> v # out), r)) (run q' as)))"

lemma run_fifo:
  assumes "ok q"
  shows "\<exists>ins out r. run q as = Some (ins, out, r) \<and> ok r \<and> bound r = bound q \<and> contents q @ ins = out @ contents r"
  using assms
proof (induction "as" arbitrary: q)
  case Nil
  then show ?case by simp
next
  case (Cons a "as")
  show ?case
  proof (cases a)
    case (Some v)
    obtain q' where q': "push q v = Some (length (contents q) < bound q, q')" "ok q'" "bound q' = bound q"
      "contents q' = (if length (contents q) < bound q then contents q @ [v] else contents q)"
      using push_law [OF Cons.prems] by blast
    from Cons.IH [OF q'(2)] q' Some show ?thesis by (auto split: if_splits)
  next
    case None
    obtain q' where q': "pop q = Some (if contents q = [] then None else Some (hd (contents q)), q')" "ok q'"
      "bound q' = bound q" "contents q' = tl (contents q)"
      using pop_law [OF Cons.prems] by blast
    obtain ins out r where "run q' as = Some (ins, out, r)" "ok r" "bound r = bound q'" "contents q' @ ins = out @ contents r"
      using Cons.IH [OF q'(2)] by blast
    with q' None show ?thesis by (cases "contents q") auto
  qed
qed

end

interpretation cfq: bounded_fifo cfq_ok cfq_list capacity cfq_push cfq_pop
proof
  fix q :: "'a cfq" and v
  assume ok: "cfq_ok q"
  note u = cfq_used_cases [OF ok]
  have cap: "capacity (q\<lparr>cfq_items := is, cfq_tail := t\<rparr>) = capacity q"
    if "length is = capacity_full q" for "is" t using that by (simp add: capacity_def capacity_full_def)
  show "\<exists>q'. cfq_push q v = Some (length (cfq_list q) < capacity q, q') \<and> cfq_ok q' \<and> capacity q' = capacity q \<and>
      cfq_list q' = (if length (cfq_list q) < capacity q then cfq_list q @ [v] else cfq_list q)"
  proof (cases "cfq_used q < capacity q")
    case True
    let ?q = "q\<lparr>cfq_items := (cfq_items q)[cfq_tail q := v]\<rparr>"
    note st = cfq_store [OF ok, of v]
    have ct: "cfq_tail q < length (cfq_items q)" using ok by (simp add: cfq_ok_def capacity_full_def)
    have "cfq_used ?q < capacity ?q" using True st by (metis cap capacity_def capacity_full_update(3) length_cfq_list)
    note pb = cfq_publish_tail [OF st(1) this]
    have "cfq_push q v = Some (True, ?q\<lparr>cfq_tail := (cfq_tail q + 1) mod capacity_full q\<rparr>)"
      using True u(5) ct by (simp add: cfq_push_def Let_def capacity_full_def)
    moreover have "cfq_list (?q\<lparr>cfq_tail := (cfq_tail q + 1) mod capacity_full q\<rparr>) = cfq_list q @ [v]"
      using pb(2) st(2) ct by simp
    ultimately show ?thesis using pb(1) True by (auto simp: capacity_def capacity_full_def)
  next
    case False
    then have "cfq_push q v = Some (False, q)" using u(5) by (simp add: cfq_push_def Let_def)
    with False ok show ?thesis by simp
  qed
  show "\<exists>q'. cfq_pop q = Some (if cfq_list q = [] then None else Some (hd (cfq_list q)), q') \<and> cfq_ok q' \<and>
      capacity q' = capacity q \<and> cfq_list q' = tl (cfq_list q)"
  proof (cases "cfq_used q = 0")
    case True
    then have "cfq_list q = []" by (simp flip: length_0_conv)
    with True u(4) ok show ?thesis by (simp add: cfq_pop_def Let_def)
  next
    case False
    note ad = cfq_advance_head [OF ok False]
    have "cfq_pop q = Some (Some (cfq_items q ! cfq_head q), q\<lparr>cfq_head := (cfq_head q + 1) mod capacity_full q\<rparr>)"
      using False u(4) ok by (simp add: cfq_pop_def Let_def cfq_ok_def)
    with ad show ?thesis by (auto simp: capacity_def)
  qed
qed

text \<open>
  C15. Both ends on a well-formed ring: a push succeeds exactly while fewer than \<open>capacity\<close> items
  are queued and appends its item, a pop hands out the oldest item or nothing on an empty ring;
  neither violates its contract nor leaves the ring malformed.
\<close>

theorem cfq_push_pop_fifo:
  assumes "cfq_ok q"
  shows "(\<exists>q'. cfq_push q v = Some (length (cfq_list q) < capacity q, q') \<and> cfq_ok q' \<and> capacity q' = capacity q \<and>
      cfq_list q' = (if length (cfq_list q) < capacity q then cfq_list q @ [v] else cfq_list q)) \<and>
    (\<exists>q'. cfq_pop q = Some (if cfq_list q = [] then None else Some (hd (cfq_list q)), q') \<and> cfq_ok q' \<and>
      capacity q' = capacity q \<and> cfq_list q' = tl (cfq_list q))"
  using cfq.push_law [OF assms, of v] cfq.pop_law [OF assms] by blast

theorem cfq_push_pop_fifo_witness:
  "cfq_push \<lparr>cfq_items = [1, 2, 3 :: nat], cfq_head = 2, cfq_tail = 0\<rparr> 9 =
     Some (True, \<lparr>cfq_items = [9, 2, 3], cfq_head = 2, cfq_tail = 1\<rparr>) \<and>
   (\<exists>q'. cfq_pop \<lparr>cfq_items = [1, 2, 3 :: nat], cfq_head = 2, cfq_tail = 0\<rparr> = Some (Some 3, q') \<and> cfq_list q' = [])"
proof -
  let ?q = "\<lparr>cfq_items = [1, 2, 3 :: nat], cfq_head = 2, cfq_tail = 0\<rparr>"
  have "cfq_ok ?q" by (simp add: cfq_ok_def capacity_full_def)
  moreover have "cfq_list ?q = [3]" by (simp add: cfq_list_def cfq_used_def capacity_full_def)
  ultimately have "\<exists>q'. cfq_pop ?q = Some (Some 3, q') \<and> cfq_list q' = []"
    using cfq_push_pop_fifo [of ?q] by auto
  then show ?thesis by (simp add: cfq_push_def capacity_full_def)
qed

text \<open>
  The range check of the constructor lets the head be one past the last item; a ring accepted
  that way terminates in its first pop.
\<close>

theorem cfq_base_accepts_bad_head:
  assumes "2 \<le> length items" and "t < length items"
  shows "\<exists>q. cfq_base (Some (length items)) (Some t) items = Inr q \<and> cfq_pop q = None"
  using assms by (simp add: cfq_base_def cfq_pop_def capacity_full_def)

theorem cfq_base_accepts_bad_head_witness:
  "\<exists>q. cfq_base (Some 2) (Some 0) [True, False] = Inr q \<and> cfq_pop q = None"
  using cfq_base_accepts_bad_head [of "[True, False]" 0] by (simp add: numeral_2_eq_2)

lemma cfq_base_ok:
  assumes "h \<noteq> length items" "t \<noteq> length items"
  shows "cfq_base (Some h) (Some t) items = Inr q \<longleftrightarrow>
    q = \<lparr>cfq_items = items, cfq_head = h, cfq_tail = t\<rparr> \<and> cfq_ok q"
  using assms by (auto simp: cfq_base_def cfq_ok_def capacity_full_def)

subsection \<open>The two ends interleaved\<close>

text \<open>
  \<open>pusher\<close> and \<open>popper\<close> run in different processes.  A push reads its own tail and the other
  side's head, stores the item, and publishes the new tail; a pop reads both indices, reads the
  item, and publishes the new head.  \<open>sent\<close> and \<open>received\<close> record what push accepted and pop
  returned.
\<close>

datatype 'a push_pc = Push_idle | Push_store 'a nat nat | Push_publish 'a nat
datatype 'a pop_pc = Pop_idle | Pop_read nat | Pop_publish nat 'a

record 'a spsc =
  ring :: "'a cfq"
  push_pc :: "'a push_pc"
  pop_pc :: "'a pop_pc"
  sent :: "'a list"
  received :: "'a list"

inductive spsc_step :: "'a spsc \<Rightarrow> 'a spsc \<Rightarrow> bool" where
  push_check: "push_pc s = Push_idle \<Longrightarrow> ct = cfq_tail (ring s) \<Longrightarrow>
      nct = (ct + 1) mod capacity_full (ring s) \<Longrightarrow> nct \<noteq> cfq_head (ring s) \<Longrightarrow>
      spsc_step s (s\<lparr>push_pc := Push_store v ct nct\<rparr>)"
| push_store: "push_pc s = Push_store v ct nct \<Longrightarrow> ct < capacity_full (ring s) \<Longrightarrow>
      spsc_step s (s\<lparr>ring := (ring s)\<lparr>cfq_items := (cfq_items (ring s))[ct := v]\<rparr>, push_pc := Push_publish v nct\<rparr>)"
| push_publish: "push_pc s = Push_publish v nct \<Longrightarrow>
      spsc_step s (s\<lparr>ring := (ring s)\<lparr>cfq_tail := nct\<rparr>, push_pc := Push_idle, sent := sent s @ [v]\<rparr>)"
| pop_check: "pop_pc s = Pop_idle \<Longrightarrow> ch = cfq_head (ring s) \<Longrightarrow> cfq_tail (ring s) \<noteq> ch \<Longrightarrow>
      spsc_step s (s\<lparr>pop_pc := Pop_read ch\<rparr>)"
| pop_read: "pop_pc s = Pop_read ch \<Longrightarrow> ch < capacity_full (ring s) \<Longrightarrow>
      spsc_step s (s\<lparr>pop_pc := Pop_publish ((ch + 1) mod capacity_full (ring s)) (cfq_items (ring s) ! ch)\<rparr>)"
| pop_publish: "pop_pc s = Pop_publish nch v \<Longrightarrow>
      spsc_step s (s\<lparr>ring := (ring s)\<lparr>cfq_head := nch\<rparr>, pop_pc := Pop_idle, received := received s @ [v]\<rparr>)"

inductive_cases spsc_stepE: "spsc_step s t"

definition spsc_init :: "'a list \<Rightarrow> 'a spsc" where
  "spsc_init items = \<lparr>ring = \<lparr>cfq_items = items, cfq_head = 0, cfq_tail = 0\<rparr>,
     push_pc = Push_idle, pop_pc = Pop_idle, sent = [], received = []\<rparr>"

text \<open>What holds at every program point of either end.\<close>

fun push_pc_ok :: "'a cfq \<Rightarrow> 'a push_pc \<Rightarrow> bool" where
  "push_pc_ok q Push_idle = True"
| "push_pc_ok q (Push_store v ct nct) \<longleftrightarrow>
     ct = cfq_tail q \<and> nct = (cfq_tail q + 1) mod capacity_full q \<and> cfq_used q < capacity q"
| "push_pc_ok q (Push_publish v nct) \<longleftrightarrow>
     cfq_items q ! cfq_tail q = v \<and> nct = (cfq_tail q + 1) mod capacity_full q \<and> cfq_used q < capacity q"

fun pop_pc_ok :: "'a cfq \<Rightarrow> 'a pop_pc \<Rightarrow> bool" where
  "pop_pc_ok q Pop_idle = True"
| "pop_pc_ok q (Pop_read ch) \<longleftrightarrow> ch = cfq_head q \<and> cfq_used q \<noteq> 0"
| "pop_pc_ok q (Pop_publish nch v) \<longleftrightarrow>
     nch = (cfq_head q + 1) mod capacity_full q \<and> v = cfq_items q ! cfq_head q \<and> cfq_used q \<noteq> 0"

definition spsc_inv :: "'a spsc \<Rightarrow> bool" where
  "spsc_inv s \<longleftrightarrow> cfq_ok (ring s) \<and> push_pc_ok (ring s) (push_pc s) \<and> pop_pc_ok (ring s) (pop_pc s) \<and>
     sent s = received s @ cfq_list (ring s)"

lemma used_store: "cfq_used (q\<lparr>cfq_items := (cfq_items q)[i := v]\<rparr>) = cfq_used q"
  and capacity_update [simp]: "capacity (q\<lparr>cfq_head := h\<rparr>) = capacity q"
    "capacity (q\<lparr>cfq_tail := t\<rparr>) = capacity q" "capacity (q\<lparr>cfq_items := (cfq_items q)[i := v]\<rparr>) = capacity q"
  by (simp_all add: cfq_used_def capacity_def)

lemma pop_pc_ok_store:
  assumes "cfq_ok q" "pop_pc_ok q pc"
  shows "pop_pc_ok (q\<lparr>cfq_items := (cfq_items q)[cfq_tail q := v]\<rparr>) pc"
proof (cases pc)
  case (Pop_publish nch w)
  then have "cfq_head q \<noteq> cfq_tail q" using assms cfq_used_cases(4) [OF assms(1)] by auto
  with Pop_publish assms show ?thesis by (simp add: used_store)
qed (use assms in \<open>auto simp: used_store\<close>)

lemma pop_pc_ok_publish_tail:
  assumes "cfq_ok q" "cfq_used q < capacity q" "pop_pc_ok q pc"
  shows "pop_pc_ok (q\<lparr>cfq_tail := (cfq_tail q + 1) mod capacity_full q\<rparr>) pc"
proof -
  have "cfq_used (q\<lparr>cfq_tail := (cfq_tail q + 1) mod capacity_full q\<rparr>) = Suc (cfq_used q)"
    using arg_cong [OF cfq_publish_tail(2) [OF assms(1,2)], of length] by simp
  with assms(3) show ?thesis by (cases pc) auto
qed

lemma push_pc_ok_advance_head:
  assumes "cfq_ok q" "cfq_used q \<noteq> 0" "push_pc_ok q pc"
  shows "push_pc_ok (q\<lparr>cfq_head := (cfq_head q + 1) mod capacity_full q\<rparr>) pc"
proof -
  have "cfq_used q = Suc (cfq_used (q\<lparr>cfq_head := (cfq_head q + 1) mod capacity_full q\<rparr>))"
    using arg_cong [OF cfq_advance_head(2) [OF assms(1,2)], of length] by simp
  with assms(3) show ?thesis by (cases pc) auto
qed

lemma spsc_inv_step:
  assumes "spsc_step s t" "spsc_inv s"
  shows "spsc_inv t"
  using assms
proof (induction rule: spsc_step.induct)
  case (push_check s ct nct v)
  then show ?case using cfq_used_cases(5) [of "ring s"] by (auto simp: spsc_inv_def)
next
  case (push_store s v ct nct)
  then have ok: "cfq_ok (ring s)" and ct: "ct = cfq_tail (ring s)" "nct = (ct + 1) mod capacity_full (ring s)"
      "cfq_used (ring s) < capacity (ring s)"
    by (auto simp: spsc_inv_def)
  note st = cfq_store [OF ok, of v]
  show ?case
    using push_store st pop_pc_ok_store [OF ok, of "pop_pc s" v] ct
    by (simp add: spsc_inv_def used_store capacity_full_def)
next
  case (push_publish s v nct)
  then have ok: "cfq_ok (ring s)" and u: "cfq_used (ring s) < capacity (ring s)"
    and v: "cfq_items (ring s) ! cfq_tail (ring s) = v" "nct = (cfq_tail (ring s) + 1) mod capacity_full (ring s)"
    by (auto simp: spsc_inv_def)
  show ?case
    using push_publish cfq_publish_tail [OF ok u] pop_pc_ok_publish_tail [OF ok u] v
    by (simp add: spsc_inv_def)
next
  case (pop_check s ch)
  then show ?case using cfq_used_cases(4) [of "ring s"] by (auto simp: spsc_inv_def)
next
  case (pop_read s ch)
  then show ?case by (auto simp: spsc_inv_def)
next
  case (pop_publish s nch v)
  then have ok: "cfq_ok (ring s)" and u: "cfq_used (ring s) \<noteq> 0"
    and v: "v = cfq_items (ring s) ! cfq_head (ring s)" "nch = (cfq_head (ring s) + 1) mod capacity_full (ring s)"
    by (auto simp: spsc_inv_def)
  show ?case
    using pop_publish cfq_advance_head [OF ok u] push_pc_ok_advance_head [OF ok u] v
    by (simp add: spsc_inv_def)
qed

text \<open>
  C16. However the accesses of the two ends interleave, from an empty ring, what the consumer has
  received is a prefix of what the producer has sent, in order and without loss, and the rest is
  exactly the contents of the ring; neither end ever trips over its index contract.
\<close>

theorem spsc_fifo:
  assumes "spsc_step\<^sup>*\<^sup>* (spsc_init items) s" and "2 \<le> length items"
  shows "sent s = received s @ cfq_list (ring s) \<and> length (cfq_list (ring s)) \<le> capacity (ring s) \<and>
    (\<forall>v ct nct. push_pc s = Push_store v ct nct \<longrightarrow> ct < capacity_full (ring s)) \<and>
    (\<forall>ch. pop_pc s = Pop_read ch \<longrightarrow> ch < capacity_full (ring s))"
proof -
  have "spsc_inv (spsc_init items)"
    using assms(2) by (auto simp: spsc_inv_def spsc_init_def cfq_ok_def capacity_full_def cfq_list_def cfq_used_def)
  with assms(1) have inv: "spsc_inv s" by (induction rule: rtranclp_induct) (auto intro: spsc_inv_step)
  then have ok: "cfq_ok (ring s)" by (simp add: spsc_inv_def)
  have "cfq_used (ring s) \<le> capacity (ring s)" using cfq_used_cases(2) [OF ok] by (simp add: capacity_def)
  with inv ok show ?thesis by (auto simp: spsc_inv_def cfq_ok_def)
qed

theorem spsc_fifo_witness:
  "\<exists>s. spsc_step\<^sup>*\<^sup>* (spsc_init [0, 0 :: nat]) s \<and> sent s = [7] \<and> sent s = received s @ cfq_list (ring s)"
proof -
  let ?q0 = "\<lparr>cfq_items = [0, 0 :: nat], cfq_head = 0, cfq_tail = 0\<rparr>"
  let ?s0 = "\<lparr>ring = ?q0, push_pc = Push_idle, pop_pc = Pop_idle, sent = [], received = []\<rparr>"
  let ?s1 = "?s0\<lparr>push_pc := Push_store 7 0 1\<rparr>"
  let ?s2 = "?s1\<lparr>ring := ?q0\<lparr>cfq_items := [7, 0]\<rparr>, push_pc := Push_publish 7 1\<rparr>"
  let ?s3 = "?s2\<lparr>ring := (?q0\<lparr>cfq_items := [7, 0]\<rparr>)\<lparr>cfq_tail := 1\<rparr>, push_pc := Push_idle, sent := [7]\<rparr>"
  have 1: "spsc_step ?s0 ?s1" using push_check [of ?s0 0 1 7] by (simp add: capacity_full_def)
  have 2: "spsc_step ?s1 ?s2" using push_store [of ?s1 7 0 1] by (simp add: capacity_full_def)
  have 3: "spsc_step ?s2 ?s3" using push_publish [of ?s2 7 1] by simp
  have "spsc_step\<^sup>*\<^sup>* (spsc_init [0, 0]) ?s3"
    using 1 2 3 unfolding spsc_init_def by (meson rtranclp.rtrancl_refl rtranclp.rtrancl_into_rtrancl)
  from spsc_fifo [OF this] this show ?thesis by (intro exI [of _ ?s3]) auto
qed

end
