(* ===== verification/Spans.thy ===== *)
theory Spans
  imports Prelude
begin

unbundle bit_operations_syntax

text \<open>
  \<open>utils/span.hpp\<close>, \<open>utils/algo.hpp\<close> and \<open>utils/math.hpp\<close>: byte spans reinterpreted as spans of
  wider words, and copying, filling and XOR-ing through such views.  A span is its address (for the
  alignment contracts) and its bytes; a view as words of \<open>k\<close> bytes is little-endian, as on every
  platform the driver runs on.  What the wide loops do is compared with the byte-by-byte meaning.
\<close>

subsection \<open>Words and their bytes\<close>

fun le_word :: "byte list \<Rightarrow> 'a::len word" where
  "le_word [] = 0"
| "le_word (b # bs) = ucast b XOR push_bit 8 (le_word bs)"

definition le_bytes :: "nat \<Rightarrow> 'a::len word \<Rightarrow> byte list" where
  "le_bytes k w = map (\<lambda>i. ucast (drop_bit (8 * i) w)) [0..<k]"

fun chunks :: "nat \<Rightarrow> 'b list \<Rightarrow> 'b list list" where
  "chunks k xs = (if k = 0 \<or> length xs < k then [] else take k xs # chunks k (drop k xs))"

declare chunks.simps [simp del]

definition words_of :: "nat \<Rightarrow> byte list \<Rightarrow> 'a::len word list" where
  "words_of k bs = map le_word (chunks k bs)"

definition bytes_of :: "nat \<Rightarrow> 'a::len word list \<Rightarrow> byte list" where
  "bytes_of k ws = concat (map (le_bytes k) ws)"

lemma bit_le_word:
  "bit (le_word bs :: 'a::len word) n \<longleftrightarrow> n < LENGTH('a) \<and> n < 8 * length bs \<and> bit (bs ! (n div 8)) (n mod 8)"
proof (induction bs arbitrary: n)
  case Nil
  then show ?case by simp
next
  case (Cons b bs)
  show ?case
  proof (cases "n < 8")
    case True
    then show ?thesis by (simp add: bit_xor_iff bit_push_bit_iff bit_simps)
  next
    case False
    then have "(b # bs) ! (n div 8) = bs ! ((n - 8) div 8)" "(n - 8) mod 8 = n mod 8"
      by (simp_all add: nth_Cons' le_div_geq le_mod_geq)
    moreover have "\<not> bit b n" using False bit_imp_le_length [of b n] by auto
    ultimately show ?thesis using False by (auto simp: bit_xor_iff bit_simps Cons.IH)
  qed
qed

lemma length_le_bytes [simp]: "length (le_bytes k w) = k"
  by (simp add: le_bytes_def)

lemma le_bytes_le_word:
  assumes "length bs = k" "8 * k \<le> LENGTH('a)"
  shows "le_bytes k (le_word bs :: 'a::len word) = bs"
proof (rule nth_equalityI)
  fix i assume i: "i < length (le_bytes k (le_word bs :: 'a word))"
  show "le_bytes k (le_word bs :: 'a word) ! i = bs ! i"
  proof (rule bit_word_eqI)
    fix n assume "n < LENGTH(8)"
    then have "n < 8" by simp
    then have "(8 * i + n) div 8 = i" "(8 * i + n) mod 8 = n" "8 * i + n < 8 * k" using i by simp_all
    then show "bit (le_bytes k (le_word bs :: 'a word) ! i) n \<longleftrightarrow> bit (bs ! i) n"
      using i assms \<open>n < 8\<close> by (auto simp: le_bytes_def bit_simps bit_le_word)
  qed
qed (use assms in simp)

lemma le_word_le_bytes:
  assumes "8 * k = LENGTH('a)"
  shows "le_word (le_bytes k w) = (w :: 'a::len word)"
proof (rule bit_word_eqI)
  fix n assume n: "n < LENGTH('a)"
  then have "n div 8 < k" using assms by (simp add: less_mult_imp_div_less)
  with n show "bit (le_word (le_bytes k w) :: 'a word) n \<longleftrightarrow> bit w n"
    using assms by (simp add: bit_le_word le_bytes_def bit_simps)
qed

lemma chunks_append:
  assumes "0 < k" "length xs = k"
  shows "chunks k (xs @ ys) = xs # chunks k ys"
  using assms by (subst chunks.simps) simp

lemma bytes_of_words_of:
  assumes "8 * k \<le> LENGTH('a)" "k dvd length bs" "0 < k"
  shows "bytes_of k (words_of k bs :: 'a::len word list) = bs"
  using assms
proof (induction k bs rule: chunks.induct)
  case (1 k xs)
  show ?case
  proof (cases "xs = []")
    case True
    then show ?thesis using 1 by (simp add: bytes_of_def words_of_def chunks.simps)
  next
    case False
    then have le: "k \<le> length xs" using 1 by (auto dest: dvd_imp_le)
    then have "k dvd length (drop k xs)" using 1 by (simp add: dvd_diff_nat)
    with le 1 have "bytes_of k (words_of k (drop k xs) :: 'a word list) = drop k xs" by simp
    then show ?thesis using le 1
      by (subst words_of_def, subst chunks.simps) (simp add: bytes_of_def words_of_def le_bytes_le_word)
  qed
qed

lemma length_words_of:
  "0 < k \<Longrightarrow> length (words_of k bs) = length bs div k"
proof (induction k bs rule: chunks.induct)
  case (1 k xs)
  then show ?case
    by (subst words_of_def, subst chunks.simps) (auto simp: words_of_def le_div_geq)
qed

lemma length_bytes_of [simp]: "length (bytes_of k ws) = k * length ws"
  by (induction ws) (simp_all add: bytes_of_def)

lemma bytes_of_append [simp]: "bytes_of k (xs @ ys) = bytes_of k xs @ bytes_of k ys"
  and bytes_of_Nil [simp]: "bytes_of k [] = []"
  and bytes_of_Cons: "bytes_of k (w # ws) = le_bytes k w @ bytes_of k ws"
  by (simp_all add: bytes_of_def)

lemma take_bytes_of: "take (k * n) (bytes_of k ws) = bytes_of k (take n ws)"
proof (induction ws arbitrary: n)
  case (Cons w ws)
  then show ?case by (cases n) (simp_all add: bytes_of_Cons)
qed simp

lemma drop_bytes_of: "drop (k * n) (bytes_of k ws) = bytes_of k (drop n ws)"
proof (induction ws arbitrary: n)
  case (Cons w ws)
  then show ?case by (cases n) (simp_all add: bytes_of_Cons)
qed simp

subsection \<open>Views\<close>

definition to_span_of :: "nat \<Rightarrow> nat \<Rightarrow> byte list \<Rightarrow> 'a::len word list option" where
  "to_span_of k addr bs = do {
     expects (addr mod k = 0);
     expects (length bs mod k = 0);
     Some (words_of k bs) }"

lemma to_span_of_eq:
  "to_span_of k addr bs = (if k dvd addr \<and> k dvd length bs then Some (words_of k bs) else None)"
  by (simp add: to_span_of_def expects_def dvd_eq_mod_eq_0)

subsection \<open>Copy and fill\<close>

definition is_aligned_copy :: "nat \<Rightarrow> nat \<Rightarrow> byte list \<Rightarrow> nat \<Rightarrow> byte list \<Rightarrow> bool" where
  "is_aligned_copy k fa from ta to \<longleftrightarrow>
     fa mod k = 0 \<and> length from mod k = 0 \<and> ta mod k = 0 \<and> length to mod k = 0"

definition copy_words :: "'a::len word itself \<Rightarrow> nat \<Rightarrow> nat \<Rightarrow> byte list \<Rightarrow> nat \<Rightarrow> byte list \<Rightarrow> byte list option" where
  "copy_words ty k fa from ta to = do {
     f \<leftarrow> to_span_of k fa from;
     t \<leftarrow> to_span_of k ta to;
     Some (bytes_of k (copy_at t 0 (f :: 'a word list))) }"

definition copy_stl :: "nat \<Rightarrow> byte list \<Rightarrow> nat \<Rightarrow> byte list \<Rightarrow> byte list option" where
  "copy_stl fa from ta to = do {
     expects (\<not> length from > length to);
     if is_aligned_copy 8 fa from ta to then copy_words TYPE(64 word) 8 fa from ta to
     else if is_aligned_copy 4 fa from ta to then copy_words TYPE(32 word) 4 fa from ta to
     else if is_aligned_copy 2 fa from ta to then copy_words TYPE(16 word) 2 fa from ta to
     else Some (copy_at to 0 from) }"

definition fill_stl :: "'a list \<Rightarrow> 'a \<Rightarrow> 'a list" where
  "fill_stl xs value = map (\<lambda>_. value) xs"

lemma copy_words_eq:
  assumes "8 * k = LENGTH('a)" "0 < k" "is_aligned_copy k fa from ta to" "length from \<le> length to"
  shows "copy_words TYPE('a::len word) k fa from ta to = Some (copy_at to 0 from)"
proof -
  have d: "k dvd fa" "k dvd length from" "k dvd ta" "k dvd length to"
    using assms(3) by (auto simp: is_aligned_copy_def dvd_eq_mod_eq_0)
  let ?f = "words_of k from :: 'a word list" and ?t = "words_of k to :: 'a word list"
  have b: "bytes_of k ?f = from" "bytes_of k ?t = to"
    using assms(1,2) d by (simp_all add: bytes_of_words_of)
  have "bytes_of k (copy_at ?t 0 ?f) = from @ bytes_of k (drop (length ?f) ?t)"
    using b by (simp add: copy_at_def)
  also have "\<dots> = copy_at to 0 from"
    using b d by (simp add: copy_at_def flip: drop_bytes_of) (simp add: assms(2) length_words_of)
  finally show ?thesis using d by (simp add: copy_words_def to_span_of_eq)
qed

lemma copy_stl_eq:
  "copy_stl fa from ta to = (if length from \<le> length to then Some (copy_at to 0 from) else None)"
proof (cases "length from \<le> length to")
  case True
  have "copy_words TYPE(64 word) 8 fa from ta to = Some (copy_at to 0 from)" if "is_aligned_copy 8 fa from ta to"
    using that True by (intro copy_words_eq) simp_all
  moreover have "copy_words TYPE(32 word) 4 fa from ta to = Some (copy_at to 0 from)" if "is_aligned_copy 4 fa from ta to"
    using that True by (intro copy_words_eq) simp_all
  moreover have "copy_words TYPE(16 word) 2 fa from ta to = Some (copy_at to 0 from)" if "is_aligned_copy 2 fa from ta to"
    using that True by (intro copy_words_eq) simp_all
  ultimately show ?thesis using True by (simp add: copy_stl_def)
qed (simp add: copy_stl_def)

text \<open>
  Whatever the alignment of the two buffers, \<open>algo::copy\<close> copies the bytes: the branch it takes
  and the word width it uses make no difference, and only a too small target is a violation.
\<close>

theorem copy_stl_bytes:
  "copy_stl fa from ta to = (if length from \<le> length to then Some (copy_at to 0 from) else None)"
  by (rule copy_stl_eq)

subsection \<open>XOR\<close>

fun xor_to :: "'a::len word list \<Rightarrow> 'a word list \<Rightarrow> 'a word list" where
  "xor_to [] ys = ys"
| "xor_to (x # xs) [] = []"
| "xor_to (x # xs) (y # ys) = (x XOR y) # xor_to xs ys"

lemma length_xor_to [simp]: "length (xor_to xs ys) = length ys"
  by (induction xs ys rule: xor_to.induct) auto

lemma nth_xor_to [span_simps]:
  "i < length ys \<Longrightarrow> xor_to xs ys ! i = (if i < length xs then xs ! i XOR ys ! i else ys ! i)"
proof (induction xs ys arbitrary: i rule: xor_to.induct)
  case (3 x xs y ys)
  then show ?case by (cases i) auto
qed auto

lemma xor_to_append:
  "length as = length bs \<Longrightarrow> xor_to (as @ xs) (bs @ ys) = xor_to as bs @ xor_to xs ys"
  by (induction as bs rule: list_induct2) auto

lemma le_bytes_xor: "le_bytes k (v XOR w) = xor_to (le_bytes k v) (le_bytes k w)"
  by (intro nth_equalityI) (auto simp: le_bytes_def drop_bit_xor nth_xor_to intro!: bit_word_eqI simp: bit_simps)

lemma bytes_of_xor_to:
  "length xs \<le> length ys \<Longrightarrow> bytes_of k (xor_to xs ys) = xor_to (bytes_of k xs) (bytes_of k ys)"
proof (induction xs ys rule: xor_to.induct)
  case (3 x xs y ys)
  then show ?case by (simp add: bytes_of_Cons le_bytes_xor xor_to_append)
qed auto

end
