(* ===== verification/Block_Dev.thy ===== *)
theory Block_Dev
  imports Spans
begin

text \<open>
  Requests and what they are submitted to.

  A query (\<open>ublk/query.hpp\<close>, \<open>read_query.hpp\<close>, \<open>write_query.hpp\<close>) is a buffer, a byte offset and
  an error number; a subquery covers a part of the buffer and hands its error to its parent when it
  completes (\<open>merge_err\<close>).  A handler (\<open>rw_handler_interface.hpp\<close>) has one operation per kind of
  query.  In the model a submission runs to the completion of the query: it returns what
  \<open>submit\<close> returned, the error the query carries when it is destroyed, the buffer a read filled,
  and the handler's new state; \<open>None\<close> is a violated contract.  Handlers whose completion comes later
  (the \<open>asio\<close> files of \<open>ublk/def\<close>) are covered by theory Write_Serializer for the orderings that
  matter.
\<close>

subsection \<open>Queries\<close>

definition subquery :: "byte list \<Rightarrow> nat \<Rightarrow> nat \<Rightarrow> byte list option" where
  "subquery buf buf_off sz = do {
     expects (sz \<noteq> 0);
     expects (\<not> buf_off + sz > length buf);
     Some (subspan buf buf_off sz) }"

lemma subquery_eq:
  "subquery buf o' sz = (if sz \<noteq> 0 \<and> o' + sz \<le> length buf then Some (subspan buf o' sz) else None)"
  by (auto simp: subquery_def expects_def)

subsection \<open>Handlers\<close>

type_synonym 'c read_fn = "nat \<Rightarrow> byte list \<Rightarrow> 'c \<Rightarrow> (int \<times> int \<times> byte list \<times> 'c) option"
type_synonym 'c write_fn = "nat \<Rightarrow> byte list \<Rightarrow> 'c \<Rightarrow> (int \<times> int \<times> 'c) option"

record 'c rw_handler =
  submit_rd :: "'c read_fn"
  submit_wr :: "'c write_fn"

text \<open>What a working block device promises: reads return the bytes last written.\<close>

locale block_dev =
  fixes ops :: "'c rw_handler" and good :: "'c \<Rightarrow> bool" and content :: "'c \<Rightarrow> byte list"
  assumes read_law: "good c \<Longrightarrow> buf \<noteq> [] \<Longrightarrow> off + length buf \<le> length (content c) \<Longrightarrow>
      \<exists>c'. submit_rd ops off buf c = Some (0, 0, subspan (content c) off (length buf), c') \<and>
        good c' \<and> content c' = content c"
    and write_law: "good c \<Longrightarrow> buf \<noteq> [] \<Longrightarrow> off + length buf \<le> length (content c) \<Longrightarrow>
      \<exists>c'. submit_wr ops off buf c = Some (0, 0, c') \<and> good c' \<and> content c' = copy_at (content c) off buf"
begin

lemma read_after_write:
  assumes "good c" "buf \<noteq> []" "off + length buf \<le> length (content c)" "length buf' = length buf"
  shows "\<exists>c' c''. submit_wr ops off buf c = Some (0, 0, c') \<and> submit_rd ops off buf' c' = Some (0, 0, buf, c'')"
proof -
  obtain c' where w: "submit_wr ops off buf c = Some (0, 0, c')" "good c'" "content c' = copy_at (content c) off buf"
    using write_law [OF assms(1-3)] by blast
  moreover have "buf' \<noteq> []" using assms(2,4) by auto
  moreover have "off + length buf' \<le> length (content c')" using w(3) assms(3,4) by simp
  ultimately obtain c'' where "submit_rd ops off buf' c' = Some (0, 0, subspan (content c') off (length buf'), c'')"
    using read_law by blast
  with w assms(3,4) show ?thesis by auto
qed

end

text \<open>
  A device that serves requests only at multiples of a block size: what a parity array offers.
\<close>

locale aligned_dev =
  fixes al :: nat and ops :: "'c rw_handler" and good :: "'c \<Rightarrow> bool" and content :: "'c \<Rightarrow> byte list"
  assumes aligned_read_law: "good c \<Longrightarrow> buf \<noteq> [] \<Longrightarrow> off + length buf \<le> length (content c) \<Longrightarrow>
      al dvd off \<Longrightarrow> al dvd length buf \<Longrightarrow>
      \<exists>c'. submit_rd ops off buf c = Some (0, 0, subspan (content c) off (length buf), c') \<and>
        good c' \<and> content c' = content c"
    and aligned_write_law: "good c \<Longrightarrow> buf \<noteq> [] \<Longrightarrow> off + length buf \<le> length (content c) \<Longrightarrow>
      al dvd off \<Longrightarrow> al dvd length buf \<Longrightarrow>
      \<exists>c'. submit_wr ops off buf c = Some (0, 0, c') \<and> good c' \<and> content c' = copy_at (content c) off buf"

sublocale block_dev \<subseteq> aligned: aligned_dev 1 ops good content
  by unfold_locales (auto dest: read_law write_law)

lemma block_dev_aligned: "block_dev ops good content \<longleftrightarrow> aligned_dev 1 ops good content"
  by (simp add: block_dev_def aligned_dev_def)

subsection \<open>The null target\<close>

definition null_submit_rd :: "unit read_fn" where
  "null_submit_rd off buf c = Some (0, 0, buf, c)"

definition null_submit_wr :: "unit write_fn" where
  "null_submit_wr off buf c = Some (0, 0, c)"

subsection \<open>The in-memory target\<close>

record inmem =
  mem :: "byte list"
  mem_sz :: nat

text \<open>
  The bounds check adds in 64 bits.  The copies reach memory through raw pointers; an access
  outside the allocation is undefined and modelled as \<open>None\<close>.
\<close>

definition inmem_read :: "inmem read_fn" where
  "inmem_read off buf t = do {
     expects (buf \<noteq> []);
     if mem_sz t < u64_add off (length buf) then Some (EINVAL, 0, buf, t)
     else do {
       expects (off + length buf \<le> length (mem t));
       buf' \<leftarrow> copy_stl 0 (subspan (mem t) off (length buf)) 0 buf;
       Some (0, 0, buf', t) } }"

definition inmem_write :: "inmem write_fn" where
  "inmem_write off buf t = do {
     expects (buf \<noteq> []);
     if mem_sz t < u64_add off (length buf) then Some (EINVAL, 0, t)
     else do {
       expects (off + length buf \<le> length (mem t));
       part \<leftarrow> copy_stl 0 buf 0 (subspan (mem t) off (length buf));
       Some (0, 0, t\<lparr>mem := copy_at (mem t) off part\<rparr>) } }"

definition inmem_ops :: "inmem rw_handler" where
  "inmem_ops = \<lparr>submit_rd = inmem_read, submit_wr = inmem_write\<rparr>"

definition inmem_good :: "inmem \<Rightarrow> bool" where
  "inmem_good t \<longleftrightarrow> mem_sz t = length (mem t) \<and> mem_sz t < u64_limit"

interpretation inmem: block_dev inmem_ops inmem_good mem
proof
  fix c :: inmem and buf :: "byte list" and off
  assume c: "inmem_good c" "buf \<noteq> []" "off + length buf \<le> length (mem c)"
  then have nw: "u64_add off (length buf) = off + length buf" by (simp add: inmem_good_def)
  show "\<exists>c'. submit_rd inmem_ops off buf c = Some (0, 0, subspan (mem c) off (length buf), c') \<and>
      inmem_good c' \<and> mem c' = mem c"
    using c nw by (simp add: inmem_ops_def inmem_read_def copy_stl_eq inmem_good_def)
  show "\<exists>c'. submit_wr inmem_ops off buf c = Some (0, 0, c') \<and> inmem_good c' \<and> mem c' = copy_at (mem c) off buf"
    using c nw by (simp add: inmem_ops_def inmem_write_def copy_stl_eq inmem_good_def)
qed

text \<open>
  The bounds check of the in-memory target holds for every request that does not wrap around
  \<open>2 ^ 64\<close>: a request past the end is refused with \<open>EINVAL\<close> and changes nothing, one inside is
  served.
\<close>

theorem inmem_bounds:
  assumes "inmem_good t" "buf \<noteq> []" "off + length buf < u64_limit"
  shows "inmem_write off buf t =
    (if off + length buf \<le> length (mem t) then Some (0, 0, t\<lparr>mem := copy_at (mem t) off buf\<rparr>) else Some (EINVAL, 0, t))"
  using assms by (auto simp: inmem_write_def inmem_good_def copy_stl_eq)

theorem inmem_bounds_witness:
  "inmem_write 1 [7, 8] \<lparr>mem = [1, 2, 3], mem_sz = 3\<rparr> = Some (0, 0, \<lparr>mem = [1, 7, 8], mem_sz = 3\<rparr>) \<and>
   inmem_write 2 [7, 8] \<lparr>mem = [1, 2, 3], mem_sz = 3\<rparr> = Some (EINVAL, 0, \<lparr>mem = [1, 2, 3], mem_sz = 3\<rparr>)"
  using inmem_bounds [of "\<lparr>mem = [1, 2, 3], mem_sz = 3\<rparr>" "[7, 8]" 1]
    inmem_bounds [of "\<lparr>mem = [1, 2, 3], mem_sz = 3\<rparr>" "[7, 8]" 2]
  by (simp add: inmem_good_def copy_at_def)

text \<open>
  C39. A request whose end wraps to at most the size of the memory passes the check although it lies
  outside: the copy that follows is out of bounds.
\<close>

theorem inmem_wrap_escapes:
  assumes "inmem_good t" "buf \<noteq> []" "off < u64_limit" "u64_limit \<le> off + length buf"
    and "off + length buf - u64_limit \<le> mem_sz t" "length buf < u64_limit"
  shows "inmem_write off buf t = None \<and> inmem_read off buf t = None"
proof -
  have "u64_add off (length buf) = off + length buf - u64_limit"
    using assms(3,4,6) by (simp add: u64_add_def mod_if)
  moreover have "\<not> off + length buf \<le> length (mem t)" using assms(1,4) by (simp add: inmem_good_def)
  ultimately show ?thesis using assms(2,5) by (simp add: inmem_write_def inmem_read_def)
qed

theorem inmem_wrap_escapes_witness:
  "inmem_write (2 ^ 64 - 2) [1, 2, 3] \<lparr>mem = [0], mem_sz = 1\<rparr> = None"
  using inmem_wrap_escapes [of "\<lparr>mem = [0], mem_sz = 1\<rparr>" "[1, 2, 3]" "2 ^ 64 - 2"]
  by (simp add: inmem_good_def)

end
