(* ===== verification/Target_Fsm.thy ===== *)
theory Target_Fsm
  imports Block_Dev
begin

text \<open>
  The state machine every RAID target runs (\<open>ublk/raid0/fsm.hpp\<close>, \<open>raid1/fsm.hpp\<close>,
  \<open>raidsp/fsm.hpp\<close> and the \<open>process\<close> functions of the three \<open>target.cpp\<close>): online requests go to
  the backend, a backend that returns an error or completes a query with one takes the target
  offline for good, and an offline target answers \<open>EIO\<close>.  The three transition tables have the same
  rows; the tables and the wrappers are written here over the backend they call.

  An event the table does not list in a state is ignored, and the \<open>fail\<close> event queued by an action
  is processed right after it.  The completer of the wrapping subquery runs once \<open>process\<close> gives up
  its last reference, after the event.
\<close>

datatype fsm_state = Online | Offline

record 'b target =
  fsm :: fsm_state
  backend :: 'b

definition fsm_rq :: "'b read_fn \<Rightarrow> 'b target read_fn" where
  "fsm_rq process off buf t =
     (case fsm t of
        Online \<Rightarrow> do {
          (r, e, buf', b) \<leftarrow> process off buf (backend t);
          Some (r, e, buf', \<lparr>fsm = if r \<noteq> 0 then Offline else Online, backend = b\<rparr>) }
      | Offline \<Rightarrow> Some (EIO, 0, buf, t))"

definition fsm_wq :: "'b write_fn \<Rightarrow> 'b target write_fn" where
  "fsm_wq process off buf t =
     (case fsm t of
        Online \<Rightarrow> do {
          (r, e, b) \<leftarrow> process off buf (backend t);
          Some (r, e, \<lparr>fsm = if r \<noteq> 0 then Offline else Online, backend = b\<rparr>) }
      | Offline \<Rightarrow> Some (EIO, 0, t))"

definition fsm_fail :: "'b target \<Rightarrow> 'b target" where
  "fsm_fail t = t\<lparr>fsm := Offline\<rparr>"

definition target_read :: "'b read_fn \<Rightarrow> 'b target read_fn" where
  "target_read process off buf t = do {
     new \<leftarrow> subquery buf 0 (length buf);
     (r, e, buf', t') \<leftarrow> fsm_rq process off new t;
     Some (r, merge_err 0 e, buf', if e \<noteq> 0 then fsm_fail t' else t') }"

definition target_write :: "'b write_fn \<Rightarrow> 'b target write_fn" where
  "target_write process off buf t = do {
     new \<leftarrow> subquery buf 0 (length buf);
     (r, e, t') \<leftarrow> fsm_wq process off new t;
     Some (r, merge_err 0 e, if e \<noteq> 0 then fsm_fail t' else t') }"

definition target_ops :: "'b read_fn \<Rightarrow> 'b write_fn \<Rightarrow> 'b target rw_handler" where
  "target_ops r w = \<lparr>submit_rd = target_read r, submit_wr = target_write w\<rparr>"

lemma target_read_online:
  assumes "fsm t = Online" "buf \<noteq> []" "process off buf (backend t) = Some (r, e, buf', b)"
  shows "target_read process off buf t =
    Some (r, e, buf', \<lparr>fsm = if r = 0 \<and> e = 0 then Online else Offline, backend = b\<rparr>)"
  using assms by (simp add: target_read_def fsm_rq_def subquery_eq fsm_fail_def)

lemma target_write_online:
  assumes "fsm t = Online" "buf \<noteq> []" "process off buf (backend t) = Some (r, e, b)"
  shows "target_write process off buf t =
    Some (r, e, \<lparr>fsm = if r = 0 \<and> e = 0 then Online else Offline, backend = b\<rparr>)"
  using assms by (simp add: target_write_def fsm_wq_def subquery_eq fsm_fail_def)

lemma target_offline:
  assumes "fsm t = Offline" "buf \<noteq> []"
  shows "target_read process off buf t = Some (EIO, 0, buf, t)"
    and "target_write process' off buf t = Some (EIO, 0, t)"
  using assms by (simp_all add: target_read_def target_write_def fsm_rq_def fsm_wq_def subquery_eq fsm_fail_def)

text \<open>A sequence of requests to a target; the results are what each \<open>process\<close> returned.\<close>

datatype request = Rd nat "byte list" | Wr nat "byte list"

fun req_buf :: "request \<Rightarrow> byte list" where
  "req_buf (Rd off buf) = buf"
| "req_buf (Wr off buf) = buf"

fun target_step :: "'b read_fn \<Rightarrow> 'b write_fn \<Rightarrow> request \<Rightarrow> 'b target \<Rightarrow> (int \<times> int \<times> 'b target) option" where
  "target_step r w (Rd off buf) t = map_option (\<lambda>(ret, e, _, t'). (ret, e, t')) (target_read r off buf t)"
| "target_step r w (Wr off buf) t = target_write w off buf t"

fun target_run :: "'b read_fn \<Rightarrow> 'b write_fn \<Rightarrow> request list \<Rightarrow> 'b target \<Rightarrow> ((int \<times> int) list \<times> 'b target) option" where
  "target_run r w [] t = Some ([], t)"
| "target_run r w (q # qs) t =
     (case target_step r w q t of None \<Rightarrow> None
      | Some (ret, e, t') \<Rightarrow> map_option (\<lambda>(rs, t''). ((ret, e) # rs, t'')) (target_run r w qs t'))"

lemma target_run_offline:
  assumes "fsm t = Offline" "\<forall>q \<in> set qs. req_buf q \<noteq> []"
  shows "target_run r w qs t = Some (replicate (length qs) (EIO, 0), t)"
  using assms
proof (induction qs)
  case (Cons q qs)
  then show ?case by (cases q) (simp_all add: target_offline)
qed simp

text \<open>
  C25. The first request a target fails, by its return value or by the error of the completed query,
  is the last one that reaches the backend: every later request is answered \<open>EIO\<close> and the backend
  keeps the state the failing request left.
\<close>

theorem target_failstop:
  assumes "target_step r w q t = Some (ret, e, t')" "ret \<noteq> 0 \<or> e \<noteq> 0" "req_buf q \<noteq> []"
    and "\<forall>q \<in> set qs. req_buf q \<noteq> []"
  shows "target_run r w (q # qs) t = Some ((ret, e) # replicate (length qs) (EIO, 0), t')"
proof -
  have "fsm t' = Offline"
  proof (cases "fsm t")
    case Offline
    then show ?thesis using assms(1,3) by (cases q) (auto simp: target_offline)
  next
    case Online
    then show ?thesis using assms(1-3)
      by (cases q) (auto simp: target_read_def target_write_def fsm_rq_def fsm_wq_def fsm_fail_def subquery_eq
          bind_eq_Some_conv split: if_splits)
  qed
  then show ?thesis using assms(1,4) by (simp add: target_run_offline)
qed

theorem target_failstop_witness:
  "target_run (\<lambda>off buf b. Some (0, if off = 7 then EIO else 0, buf, b)) (\<lambda>off buf b. Some (0, 0, Suc b))
     [Rd 7 [0], Wr 0 [1]] \<lparr>fsm = Online, backend = (0 :: nat)\<rparr> =
   Some ([(0, EIO), (EIO, 0)], \<lparr>fsm = Offline, backend = 0\<rparr>)"
  using target_failstop [of "\<lambda>off buf b. Some (0, if off = 7 then EIO else 0, buf, b)" "\<lambda>off buf b. Some (0, 0, Suc b)"
      "Rd 7 [0]" "\<lparr>fsm = Online, backend = (0 :: nat)\<rparr>" 0 EIO "\<lparr>fsm = Offline, backend = 0\<rparr>" "[Wr 0 [1]]"]
  by (simp add: target_read_online)

subsection \<open>A target over a working device is a working device\<close>

definition target_good :: "('b \<Rightarrow> bool) \<Rightarrow> 'b target \<Rightarrow> bool" where
  "target_good good t \<longleftrightarrow> fsm t = Online \<and> good (backend t)"

context aligned_dev
begin

lemma target_aligned_dev:
  "aligned_dev al (target_ops (submit_rd ops) (submit_wr ops)) (target_good good) (\<lambda>t. content (backend t))"
proof
  fix t :: "'c target" and buf :: "byte list" and off
  assume t: "target_good good t" "buf \<noteq> []" "off + length buf \<le> length (content (backend t))"
    "al dvd off" "al dvd length buf"
  then obtain b where "submit_rd ops off buf (backend t) = Some (0, 0, subspan (content (backend t)) off (length buf), b)"
    "good b" "content b = content (backend t)"
    using aligned_read_law unfolding target_good_def by blast
  with t show "\<exists>t'. submit_rd (target_ops (submit_rd ops) (submit_wr ops)) off buf t =
        Some (0, 0, subspan (content (backend t)) off (length buf), t') \<and>
      target_good good t' \<and> content (backend t') = content (backend t)"
    by (simp add: target_ops_def target_good_def target_read_online)
  from t obtain b where "submit_wr ops off buf (backend t) = Some (0, 0, b)" "good b"
    "content b = copy_at (content (backend t)) off buf"
    using aligned_write_law unfolding target_good_def by blast
  with t show "\<exists>t'. submit_wr (target_ops (submit_rd ops) (submit_wr ops)) off buf t = Some (0, 0, t') \<and>
      target_good good t' \<and> content (backend t') = copy_at (content (backend t)) off buf"
    by (simp add: target_ops_def target_good_def target_write_online)
qed

end

context block_dev
begin

lemma target_block_dev:
  "block_dev (target_ops (submit_rd ops) (submit_wr ops)) (target_good good) (\<lambda>t. content (backend t))"
  unfolding block_dev_aligned by (rule aligned.target_aligned_dev)

end

end
