(* ===== verification/Layout.thy ===== *)
theory Layout
  imports Prelude
begin

text \<open>
  The address arithmetic the striped targets share.  A volume is a sequence of \<open>N\<close> strips of \<open>S\<close>
  bytes; strip \<open>k\<close> of the volume lies on disk \<open>dk k\<close> from byte \<open>ps k\<close> on.  \<open>volume\<close> is the byte
  sequence the placement stands for, and the lemmas say that an access inside one strip on a disk is
  the access at the corresponding volume address.
\<close>

definition volume :: "nat \<Rightarrow> (nat \<Rightarrow> nat) \<Rightarrow> (nat \<Rightarrow> nat) \<Rightarrow> nat \<Rightarrow> 'a list list \<Rightarrow> 'a list" where
  "volume S dk ps N disks = map (\<lambda>a. disks ! dk (a div S) ! (ps (a div S) + a mod S)) [0..<N * S]"

definition apart :: "nat \<Rightarrow> nat \<Rightarrow> nat \<Rightarrow> nat \<Rightarrow> bool" where
  "apart p m q n \<longleftrightarrow> p + m \<le> q \<or> q + n \<le> p"

definition placed :: "nat \<Rightarrow> (nat \<Rightarrow> nat) \<Rightarrow> (nat \<Rightarrow> nat) \<Rightarrow> nat \<Rightarrow> 'a list list \<Rightarrow> bool" where
  "placed S dk ps N disks \<longleftrightarrow> 0 < S \<and>
     (\<forall>k < N. dk k < length disks \<and> ps k + S \<le> length (disks ! dk k)) \<and>
     (\<forall>k < N. \<forall>l < N. k \<noteq> l \<longrightarrow> dk k = dk l \<longrightarrow> apart (ps k) S (ps l) S)"

lemma placedD:
  assumes "placed S dk ps N disks" "k < N"
  shows "dk k < length disks" "ps k + S \<le> length (disks ! dk k)" "0 < S"
  using assms by (auto simp: placed_def)

lemma length_volume [simp]: "length (volume S dk ps N disks) = N * S"
  by (simp add: volume_def)

lemma nth_volume:
  "a < N * S \<Longrightarrow> volume S dk ps N disks ! a = disks ! dk (a div S) ! (ps (a div S) + a mod S)"
  by (simp add: volume_def)

lemma strip_bound: "k < N \<Longrightarrow> k * S + S \<le> N * (S :: nat)"
  by (metis Suc_leI add.commute mult_Suc mult_le_mono1)

lemma strips_apart: "k \<noteq> l \<Longrightarrow> S \<le> T \<Longrightarrow> apart (k * T) S (l * (T :: nat)) S"
  using strip_bound [of k l T] strip_bound [of l k T] by (auto simp: apart_def neq_iff)

lemma strip_address:
  fixes S :: nat
  assumes "i < S"
  shows "(k * S + i) div S = k" "(k * S + i) mod S = i"
  using assms by simp_all

lemma volume_read_strip:
  assumes p: "placed S dk ps N disks" and k: "k < N" and j: "j + sz \<le> S"
  shows "subspan (disks ! dk k) (ps k + j) sz = subspan (volume S dk ps N disks) (k * S + j) sz"
proof (rule nth_equalityI)
  have b: "ps k + j + sz \<le> length (disks ! dk k)" using placedD [OF p k] j by linarith
  have vb: "k * S + j + sz \<le> N * S" using strip_bound [OF k, of S] j by linarith
  show "length (subspan (disks ! dk k) (ps k + j) sz) = length (subspan (volume S dk ps N disks) (k * S + j) sz)"
    using b vb by simp
  fix i assume "i < length (subspan (disks ! dk k) (ps k + j) sz)"
  then have i: "i < sz" using b by simp
  have "(k * S + j + i) div S = k" "(k * S + j + i) mod S = j + i"
    using strip_address [of "j + i" S k] i j by (simp_all add: add.assoc)
  then show "subspan (disks ! dk k) (ps k + j) sz ! i = subspan (volume S dk ps N disks) (k * S + j) sz ! i"
    using i b vb by (simp add: nth_subspan nth_volume add.assoc)
qed

text \<open>A write that touches no strip of the volume leaves it as it is.\<close>

lemma volume_write_outside:
  assumes p: "placed S dk ps N disks" and q: "q + length ys \<le> length (disks ! d)"
    and free: "\<And>k. k < N \<Longrightarrow> dk k = d \<Longrightarrow> apart (ps k) S q (length ys)"
  shows "volume S dk ps N (disks[d := copy_at (disks ! d) q ys]) = volume S dk ps N disks"
proof (rule nth_equalityI)
  fix a assume "a < length (volume S dk ps N (disks[d := copy_at (disks ! d) q ys]))"
  then have a: "a < N * S" by simp
  let ?l = "a div S" and ?i = "a mod S"
  have l: "?l < N" using a by (simp add: less_mult_imp_div_less)
  note pl = placedD [OF p l]
  have i: "?i < S" using pl(3) by simp
  have "disks[d := copy_at (disks ! d) q ys] ! dk ?l ! (ps ?l + ?i) = disks ! dk ?l ! (ps ?l + ?i)"
  proof (cases "dk ?l = d")
    case True
    then have "\<not> (q \<le> ps ?l + ?i \<and> ps ?l + ?i < q + length ys)" using free [OF l] i by (auto simp: apart_def)
    then show ?thesis using True pl i q by (simp add: nth_copy_at_out)
  qed simp
  then show "volume S dk ps N (disks[d := copy_at (disks ! d) q ys]) ! a = volume S dk ps N disks ! a"
    using a by (simp add: nth_volume)
qed simp

lemma volume_write_strip:
  assumes p: "placed S dk ps N disks" and k: "k < N" and j: "j + length ys \<le> S"
  shows "volume S dk ps N (disks[dk k := copy_at (disks ! dk k) (ps k + j) ys]) =
    copy_at (volume S dk ps N disks) (k * S + j) ys"
proof (rule nth_equalityI)
  note pk = placedD [OF p k]
  let ?disks = "disks[dk k := copy_at (disks ! dk k) (ps k + j) ys]"
  have b: "ps k + j + length ys \<le> length (disks ! dk k)" using pk j by linarith
  have vb: "k * S + j + length ys \<le> length (volume S dk ps N disks)" using strip_bound [OF k, of S] j by simp
  then show "length (volume S dk ps N ?disks) = length (copy_at (volume S dk ps N disks) (k * S + j) ys)" by simp
  fix a assume "a < length (volume S dk ps N ?disks)"
  then have a: "a < N * S" by simp
  let ?l = "a div S" and ?i = "a mod S"
  have l: "?l < N" using a by (simp add: less_mult_imp_div_less)
  have i: "?i < S" using pk(3) by simp
  have aeq: "a = ?l * S + ?i" by simp
  note pl = placedD [OF p l]
  show "volume S dk ps N ?disks ! a = copy_at (volume S dk ps N disks) (k * S + j) ys ! a"
  proof (cases "?l = k")
    case True
    have "?disks ! dk k ! (ps k + ?i) =
        (if ps k + j \<le> ps k + ?i \<and> ps k + ?i < ps k + j + length ys
         then ys ! (?i - j) else disks ! dk k ! (ps k + ?i))"
      using pk b i by (simp add: nth_copy_at)
    moreover have "copy_at (volume S dk ps N disks) (k * S + j) ys ! a =
        (if k * S + j \<le> a \<and> a < k * S + j + length ys then ys ! (a - (k * S + j)) else volume S dk ps N disks ! a)"
      using vb a by (simp add: nth_copy_at)
    moreover have e: "a = k * S + ?i" using True aeq by simp
    have "k * S + j \<le> a \<longleftrightarrow> j \<le> ?i" "a < k * S + j + length ys \<longleftrightarrow> ?i < j + length ys" "a - (k * S + j) = ?i - j"
      by (subst e, simp)+
    ultimately show ?thesis using True a by (simp add: nth_volume)
  next
    case False
    have "\<not> (k * S + j \<le> a \<and> a < k * S + j + length ys)"
    proof
      assume "k * S + j \<le> a \<and> a < k * S + j + length ys"
      then have "a = k * S + (a - k * S)" "a - k * S < S" using j by auto
      then show False using False strip_address(1) [of "a - k * S" S k] by metis
    qed
    then have c: "copy_at (volume S dk ps N disks) (k * S + j) ys ! a = volume S dk ps N disks ! a"
      using vb a by (subst nth_copy_at) auto
    have "?disks ! dk ?l ! (ps ?l + ?i) = disks ! dk ?l ! (ps ?l + ?i)"
    proof (cases "dk ?l = dk k")
      case True
      have "apart (ps ?l) S (ps k) S" using p l k False True unfolding placed_def by blast
      then have "\<not> (ps k + j \<le> ps ?l + ?i \<and> ps ?l + ?i < ps k + j + length ys)"
        using i j unfolding apart_def by linarith
      then show ?thesis using True pk pl b i by (simp add: nth_copy_at_out)
    qed simp
    then show ?thesis using a c by (simp add: nth_volume)
  qed
qed

end
