(* ===== verification/Raid0.thy ===== *)
theory Raid0
  imports Target_Fsm Layout
begin

text \<open>
  \<open>ublk/raid0/backend.cpp\<close> and \<open>target.cpp\<close>: striping.  A query is cut at strip boundaries and
  each piece goes to the disk \<open>strip_id mod n\<close> at strip \<open>strip_id div n\<close> of that disk.
  \<open>strip_sz\<close> is a power of two; strips are found by shift and mask.
\<close>

record 'c raid0 =
  r0_strip_sz :: nat
  r0_strip_shift :: nat
  r0_hs :: "'c list"

fun countr_zero :: "nat \<Rightarrow> nat" where
  "countr_zero x = (if x = 0 \<or> odd x then 0 else Suc (countr_zero (x div 2)))"

declare countr_zero.simps [simp del]

definition raid0_create :: "nat \<Rightarrow> 'c option list \<Rightarrow> 'c raid0 option" where
  "raid0_create strip_sz hs = do {
     expects (\<exists>n \<le> strip_sz. strip_sz = 2 ^ n);
     expects (hs \<noteq> []);
     expects (\<forall>h \<in> set hs. h \<noteq> None);
     Some \<lparr>r0_strip_sz = strip_sz, r0_strip_shift = countr_zero strip_sz, r0_hs = map the hs\<rparr> }"

lemma countr_zero_exp [simp]: "countr_zero (2 ^ n) = n"
  by (induction n) (simp_all add: countr_zero.simps)

lemma raid0_shift:
  "drop_bit n off = off div 2 ^ n" "and off (2 ^ n - 1) = off mod (2 ^ n :: nat)" "push_bit n off = off * 2 ^ n"
  by (simp_all add: drop_bit_eq_div push_bit_eq_mult and_exp_eq_0_iff_not_bit)
    (metis mask_eq_exp_minus_1 take_bit_eq_mask take_bit_eq_mod One_nat_def)

subsection \<open>The loop over strips\<close>

text \<open>\<open>do_op\<close> for the two kinds of query; \<open>dn\<close> counts the submitted bytes.\<close>

function raid0_read_loop :: "'c rw_handler \<Rightarrow> nat \<Rightarrow> nat \<Rightarrow> nat \<Rightarrow> nat \<Rightarrow> nat \<Rightarrow> nat \<Rightarrow> int \<Rightarrow> byte list \<Rightarrow> 'c list \<Rightarrow>
    (int \<times> int \<times> byte list \<times> 'c list) option" where
  "raid0_read_loop ops S sh n strip_id strip_off dn err buf hs =
     (if \<not> dn < n then Some (0, err, buf, hs)
      else
        let hid = strip_id mod length hs; stripe_id = strip_id div length hs;
            sq_off = strip_off + push_bit sh stripe_id; sq_sz = min (S - strip_off) (n - dn)
        in do {
             sq \<leftarrow> subquery buf dn sq_sz;
             (res, e, sq', h) \<leftarrow> submit_rd ops sq_off sq (hs ! hid);
             let buf' = copy_at buf dn sq';
             let hs' = hs[hid := h];
             let err' = merge_err err e;
             if res \<noteq> 0 then Some (res, err', buf', hs')
             else raid0_read_loop ops S sh n (Suc strip_id) 0 (dn + sq_sz) err' buf' hs' })"
  by pat_completeness auto

termination
  by (relation "measure (\<lambda>(ops, S, sh, n, strip_id, strip_off, dn, err, buf, hs). n - dn)")
    (auto simp: subquery_eq split: if_splits)

function raid0_write_loop :: "'c rw_handler \<Rightarrow> nat \<Rightarrow> nat \<Rightarrow> nat \<Rightarrow> nat \<Rightarrow> nat \<Rightarrow> nat \<Rightarrow> int \<Rightarrow> byte list \<Rightarrow> 'c list \<Rightarrow>
    (int \<times> int \<times> 'c list) option" where
  "raid0_write_loop ops S sh n strip_id strip_off dn err buf hs =
     (if \<not> dn < n then Some (0, err, hs)
      else
        let hid = strip_id mod length hs; stripe_id = strip_id div length hs;
            sq_off = strip_off + push_bit sh stripe_id; sq_sz = min (S - strip_off) (n - dn)
        in do {
             sq \<leftarrow> subquery buf dn sq_sz;
             (res, e, h) \<leftarrow> submit_wr ops sq_off sq (hs ! hid);
             let hs' = hs[hid := h];
             let err' = merge_err err e;
             if res \<noteq> 0 then Some (res, err', hs')
             else raid0_write_loop ops S sh n (Suc strip_id) 0 (dn + sq_sz) err' buf hs' })"
  by pat_completeness auto

termination
  by (relation "measure (\<lambda>(ops, S, sh, n, strip_id, strip_off, dn, err, buf, hs). n - dn)")
    (auto simp: subquery_eq split: if_splits)

declare raid0_read_loop.simps [simp del] raid0_write_loop.simps [simp del]

definition raid0_read :: "'c rw_handler \<Rightarrow> 'c raid0 read_fn" where
  "raid0_read ops off buf be = do {
     expects (buf \<noteq> []);
     let strip_id = drop_bit (r0_strip_shift be) off;
     let strip_off = and off (r0_strip_sz be - 1);
     (res, e, buf', hs) \<leftarrow> raid0_read_loop ops (r0_strip_sz be) (r0_strip_shift be) (length buf)
       strip_id strip_off 0 0 buf (r0_hs be);
     Some (res, e, buf', be\<lparr>r0_hs := hs\<rparr>) }"

definition raid0_write :: "'c rw_handler \<Rightarrow> 'c raid0 write_fn" where
  "raid0_write ops off buf be = do {
     expects (buf \<noteq> []);
     let strip_id = drop_bit (r0_strip_shift be) off;
     let strip_off = and off (r0_strip_sz be - 1);
     (res, e, hs) \<leftarrow> raid0_write_loop ops (r0_strip_sz be) (r0_strip_shift be) (length buf)
       strip_id strip_off 0 0 buf (r0_hs be);
     Some (res, e, be\<lparr>r0_hs := hs\<rparr>) }"

definition raid0_ops :: "'c rw_handler \<Rightarrow> 'c raid0 rw_handler" where
  "raid0_ops ops = \<lparr>submit_rd = raid0_read ops, submit_wr = raid0_write ops\<rparr>"

definition raid0_target_read :: "'c rw_handler \<Rightarrow> 'c raid0 target read_fn" where
  "raid0_target_read ops = target_read (raid0_read ops)"

definition raid0_target_write :: "'c rw_handler \<Rightarrow> 'c raid0 target write_fn" where
  "raid0_target_write ops = target_write (raid0_write ops)"

subsection \<open>Striping over working disks\<close>

definition r0_disk :: "nat \<Rightarrow> nat \<Rightarrow> nat" where "r0_disk n k = k mod n"
definition r0_pos :: "nat \<Rightarrow> nat \<Rightarrow> nat \<Rightarrow> nat" where "r0_pos S n k = k div n * S"

lemma r0_placed:
  assumes "0 < S" "disks \<noteq> []" "\<forall>d \<in> set disks. length d = m * S"
  shows "placed S (r0_disk (length disks)) (r0_pos S (length disks)) (m * length disks) disks"
proof -
  let ?n = "length disks"
  have n: "0 < ?n" using assms(2) by simp
  have "k mod ?n < ?n" for k using n by simp
  moreover have "k div ?n * S + S \<le> length (disks ! (k mod ?n))" if "k < m * ?n" for k
  proof -
    have "k div ?n < m" using that by (simp add: less_mult_imp_div_less)
    then have "k div ?n * S + S \<le> m * S" by (rule strip_bound)
    moreover have "disks ! (k mod ?n) \<in> set disks" using n by simp
    ultimately show ?thesis using assms(3) by simp
  qed
  moreover have "apart (k div ?n * S) S (l div ?n * S) S" if "k mod ?n = l mod ?n" "k \<noteq> l" for k l
    using that by (intro strips_apart) (metis div_mult_mod_eq, simp)
  ultimately show ?thesis using assms(1) by (auto simp: placed_def r0_disk_def r0_pos_def)
qed

definition disks_ok :: "('c \<Rightarrow> bool) \<Rightarrow> ('c \<Rightarrow> byte list) \<Rightarrow> nat \<Rightarrow> nat \<Rightarrow> 'c list \<Rightarrow> bool" where
  "disks_ok good content m S hs \<longleftrightarrow> 0 < S \<and> hs \<noteq> [] \<and> (\<forall>h \<in> set hs. good h \<and> length (content h) = m * S)"

definition raid0_volume :: "('c \<Rightarrow> byte list) \<Rightarrow> nat \<Rightarrow> nat \<Rightarrow> 'c list \<Rightarrow> byte list" where
  "raid0_volume content m S hs =
     volume S (r0_disk (length hs)) (r0_pos S (length hs)) (m * length hs) (map content hs)"

text \<open>\<open>m\<close> strips on each of \<open>n\<close> working disks, and the bytes the array stands for.\<close>

definition raid0_good :: "('c \<Rightarrow> bool) \<Rightarrow> ('c \<Rightarrow> byte list) \<Rightarrow> nat \<Rightarrow> nat \<Rightarrow> 'c raid0 \<Rightarrow> bool" where
  "raid0_good good content m n be \<longleftrightarrow> r0_strip_sz be = 2 ^ r0_strip_shift be \<and> length (r0_hs be) = n \<and>
     disks_ok good content m (r0_strip_sz be) (r0_hs be)"

definition raid0_content :: "('c \<Rightarrow> byte list) \<Rightarrow> nat \<Rightarrow> 'c raid0 \<Rightarrow> byte list" where
  "raid0_content content m be = raid0_volume content m (r0_strip_sz be) (r0_hs be)"

lemma aligned_rest:
  fixes al S so n dn :: nat
  shows "al dvd S \<Longrightarrow> al dvd so \<Longrightarrow> al dvd n - dn \<Longrightarrow> al dvd S - so \<and> al dvd n - (dn + (S - so))"
  by (metis diff_diff_left dvd_diff_nat)

lemma raid0_next_strip:
  fixes S :: nat
  assumes "so < S" "sz = min (S - so) rest" "rest' = rest - sz"
  shows "rest' = 0 \<or> Suc k * S = k * S + so + sz"
  using assms by auto

context aligned_dev
begin

lemma disks_ok_placed:
  assumes "disks_ok good content m S hs"
  shows "placed S (r0_disk (length hs)) (r0_pos S (length hs)) (m * length hs) (map content hs)"
  using r0_placed [of S "map content hs" m] assms by (simp add: disks_ok_def)

lemma disks_ok_update:
  assumes "disks_ok good content m S hs" "good h" "length (content h) = m * S"
  shows "disks_ok good content m S (hs[i := h])"
  using assms by (auto simp: disks_ok_def dest!: set_update_subset_insert [THEN subsetD])

lemma raid0_read_strip:
  assumes ok: "disks_ok good content m S hs" and k: "k < m * length hs" and j: "j + length sq \<le> S" and ne: "sq \<noteq> []"
    and al: "al dvd S" "al dvd j" "al dvd length sq"
  shows "\<exists>h. submit_rd ops (j + k div length hs * S) sq (hs ! (k mod length hs)) =
      Some (0, 0, subspan (raid0_volume content m S hs) (k * S + j) (length sq), h) \<and>
    disks_ok good content m S (hs[k mod length hs := h]) \<and>
    raid0_volume content m S (hs[k mod length hs := h]) = raid0_volume content m S hs"
proof -
  note p = disks_ok_placed [OF ok]
  let ?d = "k mod length hs" and ?s = "k div length hs"
  have d: "?d < length hs" using ok by (simp add: disks_ok_def)
  then have h: "good (hs ! ?d)" "length (content (hs ! ?d)) = m * S" using ok by (auto simp: disks_ok_def)
  have "?s * S + S \<le> length (content (hs ! ?d))"
    using placedD(2) [OF p k] d by (simp add: r0_disk_def r0_pos_def)
  then have "j + ?s * S + length sq \<le> length (content (hs ! ?d))" using j by linarith
  then obtain h' where r: "submit_rd ops (j + ?s * S) sq (hs ! ?d) =
      Some (0, 0, subspan (content (hs ! ?d)) (j + ?s * S) (length sq), h')"
    "good h'" "content h' = content (hs ! ?d)"
    using aligned_read_law [OF h(1) ne _ _ al(3)] al(1,2) by (meson dvd_add dvd_mult)
  have "subspan (content (hs ! ?d)) (?s * S + j) (length sq) = subspan (raid0_volume content m S hs) (k * S + j) (length sq)"
    using volume_read_strip [OF p k j] d by (simp add: raid0_volume_def r0_disk_def r0_pos_def)
  moreover have "map content (hs[?d := h']) = map content hs"
    using d r(3) by (simp add: map_update) (metis d length_map list_update_id nth_map)
  ultimately show ?thesis
    using r h(2) disks_ok_update [OF ok r(2)] by (auto simp: raid0_volume_def add.commute)
qed

lemma raid0_write_strip:
  assumes ok: "disks_ok good content m S hs" and k: "k < m * length hs" and j: "j + length sq \<le> S" and ne: "sq \<noteq> []"
    and al: "al dvd S" "al dvd j" "al dvd length sq"
  shows "\<exists>h. submit_wr ops (j + k div length hs * S) sq (hs ! (k mod length hs)) = Some (0, 0, h) \<and>
    disks_ok good content m S (hs[k mod length hs := h]) \<and>
    raid0_volume content m S (hs[k mod length hs := h]) = copy_at (raid0_volume content m S hs) (k * S + j) sq"
proof -
  note p = disks_ok_placed [OF ok]
  let ?d = "k mod length hs" and ?s = "k div length hs"
  have d: "?d < length hs" using ok by (simp add: disks_ok_def)
  then have h: "good (hs ! ?d)" "length (content (hs ! ?d)) = m * S" using ok by (auto simp: disks_ok_def)
  have "?s * S + S \<le> length (content (hs ! ?d))"
    using placedD(2) [OF p k] d by (simp add: r0_disk_def r0_pos_def)
  then have le: "j + ?s * S + length sq \<le> length (content (hs ! ?d))" using j by linarith
  then obtain h' where w: "submit_wr ops (j + ?s * S) sq (hs ! ?d) = Some (0, 0, h')"
    "good h'" "content h' = copy_at (content (hs ! ?d)) (j + ?s * S) sq"
    using aligned_write_law [OF h(1) ne _ _ al(3)] al(1,2) by (meson dvd_add dvd_mult)
  have "length (content h') = m * S" using w(3) le h(2) by simp
  moreover have "map content (hs[?d := h']) = (map content hs)[?d := copy_at (map content hs ! ?d) (?s * S + j) sq]"
    using d w(3) by (simp add: map_update add.commute)
  moreover have "raid0_volume content m S (hs[?d := h']) = copy_at (raid0_volume content m S hs) (k * S + j) sq"
    using volume_write_strip [OF p k j] calculation(2)
    by (simp add: raid0_volume_def r0_disk_def r0_pos_def)
  ultimately show ?thesis using w disks_ok_update [OF ok w(2)] by auto
qed

lemma raid0_read_loop_ok:
  assumes "disks_ok good content m S hs" "S = 2 ^ sh" "so < S" "dn \<le> n" "n = length buf"
    and "k * S + so + (n - dn) \<le> m * length hs * S" "al dvd S" "al dvd so" "al dvd n - dn"
  shows "\<exists>hs'. raid0_read_loop ops S sh n k so dn 0 buf hs =
      Some (0, 0, copy_at buf dn (subspan (raid0_volume content m S hs) (k * S + so) (n - dn)), hs') \<and>
    disks_ok good content m S hs' \<and> length hs' = length hs \<and> raid0_volume content m S hs' = raid0_volume content m S hs"
  using assms
proof (induction "n - dn" arbitrary: k so dn buf hs rule: less_induct)
  case less
  show ?case
  proof (cases "dn < n")
    case False
    then show ?thesis using less.prems by (subst raid0_read_loop.simps) simp
  next
    case True
    let ?sz = "min (S - so) (n - dn)" and ?V = "raid0_volume content m S hs"
    have sz: "0 < ?sz" "dn + ?sz \<le> length buf" using True less.prems by auto
    have lV: "length ?V = m * length hs * S" by (simp add: raid0_volume_def)
    have k: "k < m * length hs"
    proof (rule ccontr)
      assume "\<not> k < m * length hs"
      then have "m * length hs * S \<le> k * S" by simp
      then show False using less.prems(6) True by linarith
    qed
    have sq: "subquery buf dn ?sz = Some (subspan buf dn ?sz)" "length (subspan buf dn ?sz) = ?sz"
      "subspan buf dn ?sz \<noteq> []"
      using sz by (auto simp: subquery_eq subspan_def)
    have al: "al dvd ?sz" "al dvd n - (dn + ?sz)"
      using less.prems(7-9) aligned_rest by (auto simp: min_def)
    have "so + length (subspan buf dn ?sz) \<le> S" "al dvd length (subspan buf dn ?sz)" using sq(2) less.prems(3) al(1) by simp_all
    from raid0_read_strip [OF less.prems(1) k this(1) sq(3) less.prems(7,8) this(2)] obtain h where
      h: "submit_rd ops (so + k div length hs * S) (subspan buf dn ?sz) (hs ! (k mod length hs)) =
        Some (0, 0, subspan ?V (k * S + so) ?sz, h)"
      "disks_ok good content m S (hs[k mod length hs := h])" "raid0_volume content m S (hs[k mod length hs := h]) = ?V"
      unfolding sq(2) by blast
    let ?hs = "hs[k mod length hs := h]" and ?buf = "copy_at buf dn (subspan ?V (k * S + so) ?sz)"
    have ls: "length (subspan ?V (k * S + so) ?sz) = ?sz" using less.prems(6) lV by simp
    then have lb: "length ?buf = n" using sz less.prems(5) by simp
    have nx: "n - (dn + ?sz) = 0 \<or> Suc k * S = k * S + so + ?sz"
      using raid0_next_strip [OF less.prems(3) refl, of "n - (dn + ?sz)" "n - dn" k] by simp
    have "\<exists>hs'. raid0_read_loop ops S sh n (Suc k) 0 (dn + ?sz) 0 ?buf ?hs =
        Some (0, 0, copy_at ?buf (dn + ?sz) (subspan (raid0_volume content m S ?hs) (Suc k * S + 0) (n - (dn + ?sz))), hs') \<and>
      disks_ok good content m S hs' \<and> length hs' = length ?hs \<and> raid0_volume content m S hs' = raid0_volume content m S ?hs"
    proof (rule less.hyps)
      show "n - (dn + ?sz) < n - dn" using sz True by linarith
      show "Suc k * S + 0 + (n - (dn + ?sz)) \<le> m * length ?hs * S"
        using nx
      proof
        assume "Suc k * S = k * S + so + ?sz"
        then show ?thesis using less.prems(6) True by simp
      next
        assume "n - (dn + ?sz) = 0"
        moreover have "Suc k * S \<le> m * length hs * S" using k by (intro mult_le_mono1) simp
        ultimately show ?thesis by simp
      qed
    qed (use less.prems h(2) lb sz al(2) in auto)
    then obtain hs' where hs': "raid0_read_loop ops S sh n (Suc k) 0 (dn + ?sz) 0 ?buf ?hs =
        Some (0, 0, copy_at ?buf (dn + ?sz) (subspan ?V (Suc k * S) (n - (dn + ?sz))), hs')"
      "disks_ok good content m S hs'" "length hs' = length hs" "raid0_volume content m S hs' = ?V"
      unfolding h(3) by auto
    have "copy_at ?buf (dn + ?sz) (subspan ?V (Suc k * S) (n - (dn + ?sz))) =
        copy_at buf dn (subspan ?V (k * S + so) (n - dn))"
    proof -
      have nx': "n - (dn + ?sz) = 0 \<or> Suc k * S = (k * S + so) + ?sz" using nx by (simp only: add.assoc)
      have "?sz + (n - (dn + ?sz)) = n - dn" using True by (cases "S - so \<le> n - dn") auto
      then have "subspan ?V (k * S + so) ?sz @ subspan ?V (Suc k * S) (n - (dn + ?sz)) = subspan ?V (k * S + so) (n - dn)"
        using subspan_append_next [OF nx', of ?V] by (simp only:)
      moreover have "dn + length (subspan ?V (k * S + so) (n - dn)) \<le> length buf"
        using less.prems(4,5,6) lV by simp
      ultimately show ?thesis
        using copy_at_append [of dn "subspan ?V (k * S + so) ?sz" "subspan ?V (Suc k * S) (n - (dn + ?sz))" buf]
        unfolding ls by metis
    qed
    moreover have "raid0_read_loop ops S sh n k so dn 0 buf hs = raid0_read_loop ops S sh n (Suc k) 0 (dn + ?sz) 0 ?buf ?hs"
      using True h(1) sq(1) less.prems(2) raid0_shift(3) [of sh "k div length hs"]
      by (subst raid0_read_loop.simps) (simp add: Let_def)
    ultimately show ?thesis using hs' by auto
  qed
qed

lemma raid0_write_loop_ok:
  assumes "disks_ok good content m S hs" "S = 2 ^ sh" "so < S" "dn \<le> n" "n = length buf"
    and "k * S + so + (n - dn) \<le> m * length hs * S" "al dvd S" "al dvd so" "al dvd n - dn"
  shows "\<exists>hs'. raid0_write_loop ops S sh n k so dn 0 buf hs = Some (0, 0, hs') \<and>
    disks_ok good content m S hs' \<and> length hs' = length hs \<and>
    raid0_volume content m S hs' = copy_at (raid0_volume content m S hs) (k * S + so) (drop dn buf)"
  using assms
proof (induction "n - dn" arbitrary: k so dn hs rule: less_induct)
  case less
  show ?case
  proof (cases "dn < n")
    case False
    then show ?thesis using less.prems by (subst raid0_write_loop.simps) simp
  next
    case True
    let ?sz = "min (S - so) (n - dn)" and ?V = "raid0_volume content m S hs" and ?sq = "subspan buf dn (min (S - so) (n - dn))"
    have sz: "0 < ?sz" "dn + ?sz \<le> length buf" using True less.prems by auto
    have lV: "length ?V = m * length hs * S" by (simp add: raid0_volume_def)
    have k: "k < m * length hs"
    proof (rule ccontr)
      assume "\<not> k < m * length hs"
      then have "m * length hs * S \<le> k * S" by simp
      then show False using less.prems(6) True by linarith
    qed
    have sq: "subquery buf dn ?sz = Some ?sq" "length ?sq = ?sz" "?sq \<noteq> []"
      using sz by (auto simp: subquery_eq subspan_def)
    have al: "al dvd ?sz" "al dvd n - (dn + ?sz)"
      using less.prems(7-9) aligned_rest by (auto simp: min_def)
    have "so + length ?sq \<le> S" "al dvd length ?sq" using sq(2) less.prems(3) al(1) by simp_all
    from raid0_write_strip [OF less.prems(1) k this(1) sq(3) less.prems(7,8) this(2)] obtain h where
      h: "submit_wr ops (so + k div length hs * S) ?sq (hs ! (k mod length hs)) = Some (0, 0, h)"
      "disks_ok good content m S (hs[k mod length hs := h])"
      "raid0_volume content m S (hs[k mod length hs := h]) = copy_at ?V (k * S + so) ?sq" by blast
    let ?hs = "hs[k mod length hs := h]"
    have nx: "n - (dn + ?sz) = 0 \<or> Suc k * S = k * S + so + ?sz"
      using raid0_next_strip [OF less.prems(3) refl, of "n - (dn + ?sz)" "n - dn" k] by simp
    have "\<exists>hs'. raid0_write_loop ops S sh n (Suc k) 0 (dn + ?sz) 0 buf ?hs = Some (0, 0, hs') \<and>
      disks_ok good content m S hs' \<and> length hs' = length ?hs \<and>
      raid0_volume content m S hs' = copy_at (raid0_volume content m S ?hs) (Suc k * S + 0) (drop (dn + ?sz) buf)"
    proof (rule less.hyps)
      show "n - (dn + ?sz) < n - dn" using sz True by linarith
      show "Suc k * S + 0 + (n - (dn + ?sz)) \<le> m * length ?hs * S"
        using nx
      proof
        assume "Suc k * S = k * S + so + ?sz"
        then show ?thesis using less.prems(6) True by simp
      next
        assume "n - (dn + ?sz) = 0"
        moreover have "Suc k * S \<le> m * length hs * S" using k by (intro mult_le_mono1) simp
        ultimately show ?thesis by simp
      qed
    qed (use less.prems h(2) sz al(2) in auto)
    then obtain hs' where hs': "raid0_write_loop ops S sh n (Suc k) 0 (dn + ?sz) 0 buf ?hs = Some (0, 0, hs')"
      "disks_ok good content m S hs'" "length hs' = length hs"
      "raid0_volume content m S hs' = copy_at (copy_at ?V (k * S + so) ?sq) (Suc k * S) (drop (dn + ?sz) buf)"
      unfolding h(3) by auto
    have "drop dn buf = ?sq @ drop (dn + ?sz) buf"
      unfolding subspan_def by (metis append_take_drop_id drop_drop add.commute)
    moreover have "copy_at (copy_at ?V (k * S + so) ?sq) (Suc k * S) (drop (dn + ?sz) buf) =
        copy_at ?V (k * S + so) (?sq @ drop (dn + ?sz) buf)"
    proof (rule copy_at_append_next)
      show "drop (dn + ?sz) buf = [] \<or> Suc k * S = k * S + so + length ?sq"
        unfolding sq(2) using nx less.prems(5) by (metis diff_is_0_eq drop_all)
      have "length (?sq @ drop (dn + ?sz) buf) = n - dn" using sq(2) sz(2) less.prems(5) by simp
      then show "k * S + so + length (?sq @ drop (dn + ?sz) buf) \<le> length ?V" unfolding lV using less.prems(6) by simp
    qed
    ultimately have "copy_at (copy_at ?V (k * S + so) ?sq) (Suc k * S) (drop (dn + ?sz) buf) = copy_at ?V (k * S + so) (drop dn buf)"
      by simp
    moreover have "raid0_write_loop ops S sh n k so dn 0 buf hs = raid0_write_loop ops S sh n (Suc k) 0 (dn + ?sz) 0 buf ?hs"
      using True h(1) sq(1) less.prems(2) raid0_shift(3) [of sh "k div length hs"]
      by (subst raid0_write_loop.simps) (simp add: Let_def)
    ultimately show ?thesis using hs' by auto
  qed
qed

lemma raid0_aligned_dev:
  "aligned_dev al (raid0_ops ops) (\<lambda>be. raid0_good good content m n be \<and> al dvd r0_strip_sz be) (raid0_content content m)"
proof
  fix be :: "'c raid0" and buf :: "byte list" and off
  assume "raid0_good good content m n be \<and> al dvd r0_strip_sz be"
    and be': "buf \<noteq> []" "off + length buf \<le> length (raid0_content content m be)" and al: "al dvd off" "al dvd length buf"
  then have be: "raid0_good good content m n be" "buf \<noteq> []" "off + length buf \<le> length (raid0_content content m be)"
    and strip: "al dvd r0_strip_sz be" by simp_all
  let ?S = "r0_strip_sz be" and ?sh = "r0_strip_shift be" and ?hs = "r0_hs be"
  have S: "?S = 2 ^ ?sh" "?S = 2 ^ ?sh \<Longrightarrow> off mod ?S < ?S" and ok: "disks_ok good content m ?S ?hs"
    using be(1) by (auto simp: raid0_good_def)
  have a: "off div ?S * ?S + off mod ?S = off" by simp
  have b: "off div ?S * ?S + off mod ?S + (length buf - 0) \<le> m * length ?hs * ?S"
    unfolding a using be(3) by (simp add: raid0_content_def raid0_volume_def)
  have ix: "drop_bit ?sh off = off div ?S" "and off (?S - 1) = off mod ?S"
    unfolding S(1) by (rule raid0_shift)+
  have al': "al dvd off mod ?S" "al dvd length buf - 0" using al strip by (simp_all add: dvd_mod)
  note r = raid0_read_loop_ok [OF ok S(1) S(2) [OF S(1)] le0 refl b strip al']
  show "\<exists>be'. submit_rd (raid0_ops ops) off buf be = Some (0, 0, subspan (raid0_content content m be) off (length buf), be') \<and>
      (raid0_good good content m n be' \<and> al dvd r0_strip_sz be') \<and> raid0_content content m be' = raid0_content content m be"
  proof -
    from r obtain hs' where "raid0_read_loop ops ?S ?sh (length buf) (off div ?S) (off mod ?S) 0 0 buf ?hs =
        Some (0, 0, copy_at buf 0 (subspan (raid0_volume content m ?S ?hs) off (length buf)), hs')"
      "disks_ok good content m ?S hs'" "length hs' = length ?hs" "raid0_volume content m ?S hs' = raid0_volume content m ?S ?hs"
      unfolding a by auto
    then show ?thesis using be strip ix S(1)
      by (simp add: raid0_ops_def raid0_read_def Let_def raid0_good_def raid0_content_def)
  qed
  note w = raid0_write_loop_ok [OF ok S(1) S(2) [OF S(1)] le0 refl b strip al']
  show "\<exists>be'. submit_wr (raid0_ops ops) off buf be = Some (0, 0, be') \<and>
      (raid0_good good content m n be' \<and> al dvd r0_strip_sz be') \<and> raid0_content content m be' = copy_at (raid0_content content m be) off buf"
  proof -
    from w obtain hs' where "raid0_write_loop ops ?S ?sh (length buf) (off div ?S) (off mod ?S) 0 0 buf ?hs = Some (0, 0, hs')"
      "disks_ok good content m ?S hs'" "length hs' = length ?hs"
      "raid0_volume content m ?S hs' = copy_at (raid0_volume content m ?S ?hs) off buf"
      unfolding a by auto
    then show ?thesis using be strip ix S(1)
      by (simp add: raid0_ops_def raid0_write_def Let_def raid0_good_def raid0_content_def)
  qed
qed

end

context block_dev
begin

lemma raid0_block_dev: "block_dev (raid0_ops ops) (raid0_good good content m n) (raid0_content content m)"
  using aligned.raid0_aligned_dev [of m n] by (simp add: block_dev_aligned)

end

interpretation raid0_inmem: block_dev "raid0_ops inmem_ops" "raid0_good inmem_good mem m n" "raid0_content mem m" for m n
  by (rule inmem.raid0_block_dev)

text \<open>
  C8. Over any working disks of equal size the striped array is a linear volume: a write changes
  exactly the addressed bytes of \<open>raid0_content\<close>, a read returns them, no request that lies inside
  fails or violates a contract, and every strip boundary in between is crossed correctly.
\<close>

theorem raid0_linear_volume:
  assumes "block_dev ops good content" "raid0_good good content m n be" "buf \<noteq> []"
    and "off + length buf \<le> length (raid0_content content m be)"
  shows "(\<exists>be'. raid0_read ops off buf be = Some (0, 0, subspan (raid0_content content m be) off (length buf), be') \<and>
      raid0_good good content m n be' \<and> raid0_content content m be' = raid0_content content m be) \<and>
    (\<exists>be'. raid0_write ops off buf be = Some (0, 0, be') \<and> raid0_good good content m n be' \<and>
      raid0_content content m be' = copy_at (raid0_content content m be) off buf)"
  using block_dev.read_law [OF block_dev.raid0_block_dev [OF assms(1)] assms(2-4)]
    block_dev.write_law [OF block_dev.raid0_block_dev [OF assms(1)] assms(2-4)]
  by (simp add: raid0_ops_def)

text \<open>Two in-memory disks of two strips of two bytes each.\<close>

definition demo_raid0 :: "inmem raid0" where
  "demo_raid0 = \<lparr>r0_strip_sz = 2, r0_strip_shift = 1,
     r0_hs = [\<lparr>mem = [0, 1, 4, 5], mem_sz = 4\<rparr>, \<lparr>mem = [2, 3, 6, 7], mem_sz = 4\<rparr>]\<rparr>"

theorem raid0_linear_volume_witness:
  "\<exists>be'. raid0_write inmem_ops 1 [11, 12, 13, 14] demo_raid0 = Some (0, 0, be') \<and>
     raid0_content mem 2 be' = [0, 11, 12, 13, 14, 5, 6, 7]"
proof -
  have g: "raid0_good inmem_good mem 2 2 demo_raid0"
    by (simp add: raid0_good_def demo_raid0_def disks_ok_def inmem_good_def)
  have c: "raid0_content mem 2 demo_raid0 = [0, 1, 2, 3, 4, 5, 6, 7]"
    by code_simp
  show ?thesis
    using raid0_linear_volume [OF inmem.block_dev_axioms g, of "[11, 12, 13, 14]" 1] unfolding c
    by (auto simp: copy_at_def)
qed

end
