(* ===== verification/Raid1.thy ===== *)
theory Raid1
  imports Target_Fsm
begin

text \<open>
  \<open>ublk/raid1/backend.cpp\<close> and \<open>target.cpp\<close>: mirroring.  A write goes to every disk in turn; a read
  is cut into pieces of \<open>read_strip_sz\<close> bytes which go to the disks round-robin, starting where the
  previous read stopped (\<open>next_hid\<close>).
\<close>

record 'c raid1 =
  r1_read_strip_sz :: nat
  r1_next_hid :: nat
  r1_hs :: "'c list"

definition raid1_create :: "nat \<Rightarrow> 'c option list \<Rightarrow> 'c raid1 option" where
  "raid1_create read_strip_sz hs = do {
     expects (read_strip_sz mod 512 = 0);
     expects (\<not> length hs < 2);
     expects (\<forall>h \<in> set hs. h \<noteq> None);
     Some \<lparr>r1_read_strip_sz = read_strip_sz, r1_next_hid = 0, r1_hs = map the hs\<rparr> }"

function raid1_read_loop :: "'c rw_handler \<Rightarrow> nat \<Rightarrow> nat \<Rightarrow> nat \<Rightarrow> int \<Rightarrow> byte list \<Rightarrow> 'c raid1 \<Rightarrow>
    (int \<times> int \<times> byte list \<times> 'c raid1) option" where
  "raid1_read_loop ops off n rb err buf be =
     (if \<not> rb < n then Some (0, err, buf, be)
      else
        let chunk_sz = min (r1_read_strip_sz be) (n - rb); hid = r1_next_hid be
        in do {
             sq \<leftarrow> subquery buf rb chunk_sz;
             (res, e, sq', h) \<leftarrow> submit_rd ops (off + rb) sq (r1_hs be ! hid);
             let buf' = copy_at buf rb sq';
             let be' = be\<lparr>r1_hs := (r1_hs be)[hid := h]\<rparr>;
             let err' = merge_err err e;
             if res \<noteq> 0 then Some (res, err', buf', be')
             else raid1_read_loop ops off n (rb + chunk_sz) err' buf'
                    (be'\<lparr>r1_next_hid := (hid + 1) mod length (r1_hs be')\<rparr>) })"
  by pat_completeness auto

termination
  by (relation "measure (\<lambda>(ops, off, n, rb, err, buf, be). n - rb)")
    (auto simp: subquery_eq split: if_splits)

declare raid1_read_loop.simps [simp del]

definition raid1_read :: "'c rw_handler \<Rightarrow> 'c raid1 read_fn" where
  "raid1_read ops off buf be = raid1_read_loop ops off (length buf) 0 0 buf be"

text \<open>The same query goes to every disk: its error is the last one any of them set.\<close>

fun raid1_write_loop :: "'c rw_handler \<Rightarrow> nat \<Rightarrow> byte list \<Rightarrow> int \<Rightarrow> 'c list \<Rightarrow> 'c list \<Rightarrow> (int \<times> int \<times> 'c list) option" where
  "raid1_write_loop ops off buf err done [] = Some (0, err, done)"
| "raid1_write_loop ops off buf err done (h # hs) = do {
     (res, e, h') \<leftarrow> submit_wr ops off buf h;
     if res \<noteq> 0 then Some (res, merge_err err e, done @ h' # hs)
     else raid1_write_loop ops off buf (merge_err err e) (done @ [h']) hs }"

definition raid1_write :: "'c rw_handler \<Rightarrow> 'c raid1 write_fn" where
  "raid1_write ops off buf be = do {
     (res, e, hs) \<leftarrow> raid1_write_loop ops off buf 0 [] (r1_hs be);
     Some (res, e, be\<lparr>r1_hs := hs\<rparr>) }"

definition raid1_ops :: "'c rw_handler \<Rightarrow> 'c raid1 rw_handler" where
  "raid1_ops ops = \<lparr>submit_rd = raid1_read ops, submit_wr = raid1_write ops\<rparr>"

definition raid1_target_read :: "'c rw_handler \<Rightarrow> 'c raid1 target read_fn" where
  "raid1_target_read ops = target_read (raid1_read ops)"

definition raid1_target_write :: "'c rw_handler \<Rightarrow> 'c raid1 target write_fn" where
  "raid1_target_write ops = target_write (raid1_write ops)"

subsection \<open>Mirroring over working disks\<close>

text \<open>All disks work and hold the same bytes \<open>V\<close>.\<close>

definition mirrors :: "('c \<Rightarrow> bool) \<Rightarrow> ('c \<Rightarrow> byte list) \<Rightarrow> byte list \<Rightarrow> 'c list \<Rightarrow> bool" where
  "mirrors good content V hs \<longleftrightarrow> (\<forall>h \<in> set hs. good h \<and> content h = V)"

definition raid1_good :: "('c \<Rightarrow> bool) \<Rightarrow> ('c \<Rightarrow> byte list) \<Rightarrow> 'c raid1 \<Rightarrow> bool" where
  "raid1_good good content be \<longleftrightarrow> 0 < r1_read_strip_sz be \<and> r1_next_hid be < length (r1_hs be) \<and>
     mirrors good content (content (hd (r1_hs be))) (r1_hs be)"

definition raid1_content :: "('c \<Rightarrow> byte list) \<Rightarrow> 'c raid1 \<Rightarrow> byte list" where
  "raid1_content content be = content (hd (r1_hs be))"

lemma mirrors_update:
  "mirrors good content V hs \<Longrightarrow> good h \<Longrightarrow> content h = V \<Longrightarrow> mirrors good content V (hs[i := h])"
  by (auto simp: mirrors_def dest!: set_update_subset_insert [THEN subsetD])

lemma mirrors_good:
  "0 < r1_read_strip_sz be \<Longrightarrow> r1_next_hid be < length (r1_hs be) \<Longrightarrow> mirrors good content V (r1_hs be) \<Longrightarrow>
    raid1_good good content be \<and> raid1_content content be = V"
  by (cases "r1_hs be") (auto simp: raid1_good_def raid1_content_def mirrors_def)

text \<open>Requests keep the number of disks.\<close>

lemma raid1_read_loop_length:
  "raid1_read_loop ops off n rb err buf be = Some (r, e, buf', be') \<Longrightarrow> length (r1_hs be') = length (r1_hs be)"
proof (induction ops off n rb err buf be rule: raid1_read_loop.induct)
  case (1 ops off n rb err buf be)
  show ?case
  proof (cases "rb < n")
    case False
    then show ?thesis using "1.prems" by (subst (asm) raid1_read_loop.simps) simp
  next
    case True
    then show ?thesis using "1.prems" "1.IH" [OF _ refl refl]
      by (subst (asm) raid1_read_loop.simps) (auto simp: Let_def bind_eq_Some_conv split: if_splits)
  qed
qed

lemma raid1_write_loop_length:
  "raid1_write_loop ops off buf err dn hs = Some (r, e, hs') \<Longrightarrow> length hs' = length dn + length hs"
  by (induction hs arbitrary: err dn) (auto simp: bind_eq_Some_conv split: if_splits)

lemma raid1_length:
  "raid1_read ops off buf be = Some (r, e, buf', be') \<Longrightarrow> length (r1_hs be') = length (r1_hs be)"
  "raid1_write ops off buf be = Some (r, e, be') \<Longrightarrow> length (r1_hs be') = length (r1_hs be)"
  by (auto simp: raid1_read_def raid1_write_def bind_eq_Some_conv dest: raid1_read_loop_length raid1_write_loop_length)

context block_dev
begin

lemma raid1_read_loop_ok:
  assumes "mirrors good content V (r1_hs be)" "r1_next_hid be < length (r1_hs be)" "0 < r1_read_strip_sz be"
    and "rb \<le> n" "n = length buf" "off + n \<le> length V"
  shows "\<exists>be'. raid1_read_loop ops off n rb 0 buf be =
      Some (0, 0, copy_at buf rb (subspan V (off + rb) (n - rb)), be') \<and>
    mirrors good content V (r1_hs be') \<and> r1_next_hid be' < length (r1_hs be') \<and> r1_read_strip_sz be' = r1_read_strip_sz be"
  using assms
proof (induction "n - rb" arbitrary: rb buf be rule: less_induct)
  case less
  show ?case
  proof (cases "rb < n")
    case False
    then show ?thesis using less.prems by (subst raid1_read_loop.simps) simp
  next
    case True
    let ?sz = "min (r1_read_strip_sz be) (n - rb)" and ?hid = "r1_next_hid be"
    have sz: "0 < ?sz" "rb + ?sz \<le> length buf" using True less.prems by auto
    have sq: "subquery buf rb ?sz = Some (subspan buf rb ?sz)" "length (subspan buf rb ?sz) = ?sz"
      "subspan buf rb ?sz \<noteq> []"
      using sz by (auto simp: subquery_eq subspan_def)
    have h: "good (r1_hs be ! ?hid)" "content (r1_hs be ! ?hid) = V"
      using less.prems(1,2) by (auto simp: mirrors_def)
    have "off + rb + length (subspan buf rb ?sz) \<le> length (content (r1_hs be ! ?hid))"
      unfolding sq(2) h(2) using less.prems(5,6) sz(2) by (metis add.assoc add_left_mono le_trans)
    then obtain h' where r: "submit_rd ops (off + rb) (subspan buf rb ?sz) (r1_hs be ! ?hid) =
        Some (0, 0, subspan V (off + rb) ?sz, h')" "good h'" "content h' = V"
      using read_law [OF h(1) sq(3)] sq(2) h(2) by metis
    let ?be = "be\<lparr>r1_hs := (r1_hs be)[?hid := h'], r1_next_hid := (?hid + 1) mod length (r1_hs be)\<rparr>"
    let ?buf = "copy_at buf rb (subspan V (off + rb) ?sz)"
    have ls: "length (subspan V (off + rb) ?sz) = ?sz" using sz(2) less.prems(5,6) by simp
    have "\<exists>be'. raid1_read_loop ops off n (rb + ?sz) 0 ?buf ?be =
        Some (0, 0, copy_at ?buf (rb + ?sz) (subspan V (off + (rb + ?sz)) (n - (rb + ?sz))), be') \<and>
      mirrors good content V (r1_hs be') \<and> r1_next_hid be' < length (r1_hs be') \<and> r1_read_strip_sz be' = r1_read_strip_sz ?be"
    proof (rule less.hyps)
      show "n - (rb + ?sz) < n - rb" using sz True by linarith
      show "mirrors good content V (r1_hs ?be)" using mirrors_update [OF less.prems(1) r(2,3)] by simp
      have "0 < length (r1_hs be)" using less.prems(2) by linarith
      then show "r1_next_hid ?be < length (r1_hs ?be)" by (simp del: length_greater_0_conv)
      show "n = length ?buf" using ls sz(2) less.prems(5) by simp
    qed (use less.prems sz in auto)
    moreover have "copy_at ?buf (rb + ?sz) (subspan V (off + (rb + ?sz)) (n - (rb + ?sz))) =
        copy_at buf rb (subspan V (off + rb) (n - rb))"
    proof -
      have e: "?sz + (n - (rb + ?sz)) = n - rb" using True by (cases "r1_read_strip_sz be \<le> n - rb") auto
      have "subspan V (off + rb) (n - rb) = subspan V (off + rb) ?sz @ subspan V (off + (rb + ?sz)) (n - (rb + ?sz))"
        using subspan_append [of V "off + rb" ?sz "n - (rb + ?sz)"] unfolding e by (simp only: add.assoc)
      moreover have "rb + length (subspan V (off + rb) (n - rb)) \<le> length buf" using less.prems(4,5,6) by simp
      ultimately show ?thesis
        using copy_at_append [of rb "subspan V (off + rb) ?sz" "subspan V (off + (rb + ?sz)) (n - (rb + ?sz))" buf]
        unfolding ls by metis
    qed
    moreover have "raid1_read_loop ops off n rb 0 buf be = raid1_read_loop ops off n (rb + ?sz) 0 ?buf ?be"
      using True r(1) sq(1) by (subst raid1_read_loop.simps) (simp add: Let_def)
    ultimately show ?thesis by simp
  qed
qed

lemma raid1_write_loop_ok:
  assumes "mirrors good content V hs" "buf \<noteq> []" "off + length buf \<le> length V"
  shows "\<exists>hs'. raid1_write_loop ops off buf 0 dn hs = Some (0, 0, dn @ hs') \<and>
    length hs' = length hs \<and> mirrors good content (copy_at V off buf) hs'"
  using assms
proof (induction hs arbitrary: dn)
  case Nil
  then show ?case by (simp add: mirrors_def)
next
  case (Cons h hs)
  then have "good h" "content h = V" "mirrors good content V hs" by (auto simp: mirrors_def)
  then obtain h' where "submit_wr ops off buf h = Some (0, 0, h')" "good h'" "content h' = copy_at V off buf"
    using write_law Cons.prems(2,3) by blast
  moreover obtain hs' where "raid1_write_loop ops off buf 0 (dn @ [h']) hs = Some (0, 0, (dn @ [h']) @ hs')"
    "length hs' = length hs" "mirrors good content (copy_at V off buf) hs'"
    using Cons.IH [OF \<open>mirrors good content V hs\<close> Cons.prems(2,3), of "dn @ [h']"] by blast
  ultimately show ?case by (intro exI [of _ "h' # hs'"]) (auto simp: mirrors_def)
qed

lemma raid1_block_dev: "block_dev (raid1_ops ops) (raid1_good good content) (raid1_content content)"
proof
  fix be :: "'c raid1" and buf :: "byte list" and off
  assume be: "raid1_good good content be" "buf \<noteq> []" "off + length buf \<le> length (raid1_content content be)"
  then have m: "mirrors good content (raid1_content content be) (r1_hs be)" "r1_next_hid be < length (r1_hs be)"
    "0 < r1_read_strip_sz be"
    by (auto simp: raid1_good_def raid1_content_def)
  from raid1_read_loop_ok [OF m le0 refl be(3)] obtain be' where
    "raid1_read_loop ops off (length buf) 0 0 buf be =
      Some (0, 0, copy_at buf 0 (subspan (raid1_content content be) (off + 0) (length buf - 0)), be')"
    "raid1_good good content be' \<and> raid1_content content be' = raid1_content content be"
    using mirrors_good m(3) by (metis (no_types, lifting))
  then show "\<exists>be'. submit_rd (raid1_ops ops) off buf be = Some (0, 0, subspan (raid1_content content be) off (length buf), be') \<and>
      raid1_good good content be' \<and> raid1_content content be' = raid1_content content be"
    using be(3) by (simp add: raid1_ops_def raid1_read_def)
  from raid1_write_loop_ok [OF m(1) be(2,3), of "[]"] obtain hs' where
    w: "raid1_write_loop ops off buf 0 [] (r1_hs be) = Some (0, 0, hs')" "length hs' = length (r1_hs be)"
    "mirrors good content (copy_at (raid1_content content be) off buf) hs'" by auto
  then show "\<exists>be'. submit_wr (raid1_ops ops) off buf be = Some (0, 0, be') \<and>
      raid1_good good content be' \<and> raid1_content content be' = copy_at (raid1_content content be) off buf"
    using mirrors_good [of "be\<lparr>r1_hs := hs'\<rparr>"] m(2,3) by (simp add: raid1_ops_def raid1_write_def)
qed

end

interpretation raid1_inmem: block_dev "raid1_ops inmem_ops" "raid1_good inmem_good mem" "raid1_content mem"
  by (rule inmem.raid1_block_dev)

text \<open>
  C9. Over any working disks that hold the same bytes the mirror is a linear volume: whichever disks
  the round-robin picks, a read returns the stored bytes, and a write updates all disks alike.
\<close>

theorem raid1_linear_volume:
  assumes "block_dev ops good content" "raid1_good good content be" "buf \<noteq> []"
    and "off + length buf \<le> length (raid1_content content be)"
  shows "(\<exists>be'. raid1_read ops off buf be = Some (0, 0, subspan (raid1_content content be) off (length buf), be') \<and>
      raid1_good good content be' \<and> raid1_content content be' = raid1_content content be) \<and>
    (\<exists>be'. raid1_write ops off buf be = Some (0, 0, be') \<and> raid1_good good content be' \<and>
      raid1_content content be' = copy_at (raid1_content content be) off buf)"
  using block_dev.read_law [OF block_dev.raid1_block_dev [OF assms(1)] assms(2-4)]
    block_dev.write_law [OF block_dev.raid1_block_dev [OF assms(1)] assms(2-4)]
  by (simp add: raid1_ops_def)

definition demo_raid1 :: "inmem raid1" where
  "demo_raid1 = \<lparr>r1_read_strip_sz = 2, r1_next_hid = 1,
     r1_hs = [\<lparr>mem = [0, 1, 2, 3], mem_sz = 4\<rparr>, \<lparr>mem = [0, 1, 2, 3], mem_sz = 4\<rparr>]\<rparr>"

theorem raid1_linear_volume_witness:
  "\<exists>be'. raid1_write inmem_ops 1 [11, 12] demo_raid1 = Some (0, 0, be') \<and>
     raid1_content mem be' = [0, 11, 12, 3]"
proof -
  have g: "raid1_good inmem_good mem demo_raid1"
    by (simp add: raid1_good_def demo_raid1_def mirrors_def inmem_good_def)
  have c: "raid1_content mem demo_raid1 = [0, 1, 2, 3]" by (simp add: raid1_content_def demo_raid1_def)
  show ?thesis
    using raid1_linear_volume [OF inmem.block_dev_axioms g, of "[11, 12]" 1] unfolding c
    by (auto simp: copy_at_def)
qed

text \<open>
  The constructor alone would accept a read strip size of zero (zero is a multiple of the sector
  size), with which every read violates the contract of \<open>subquery\<close>; \<open>make_raid1_ops\<close> never passes
  zero (theory Master).
\<close>

lemma raid1_zero_strip_terminates:
  assumes "\<not> length hs < 2" "\<forall>h \<in> set hs. h \<noteq> None" "buf \<noteq> []"
  shows "\<exists>be. raid1_create 0 hs = Some be \<and> raid1_read ops off buf be = None"
  using assms by (simp add: raid1_create_def raid1_read_def raid1_read_loop.simps subquery_def)

end
