(* ===== verification/Raidsp_Backend.thy ===== *)
theory Raidsp_Backend
  imports Target_Fsm Layout
begin

text \<open>
  \<open>ublk/raidsp/backend.cpp\<close>: a stripe is one strip on every disk, one of them the parity strip; the
  function \<open>pid\<close> (\<open>stripe_id_to_parity_id\<close>, a constructor argument) says which disk holds it.  The
  backend reads data across stripes, reads a parity strip, and writes data and parity within one
  stripe.
\<close>

record 'c raidsp =
  sp_strip_sz :: nat
  sp_stripe_data_sz :: nat
  sp_stripe_sz :: nat
  sp_pid :: "nat \<Rightarrow> nat"
  sp_hs :: "'c list"

definition raidsp_create :: "nat \<Rightarrow> 'c option list \<Rightarrow> (nat \<Rightarrow> nat) \<Rightarrow> 'c raidsp option" where
  "raidsp_create strip_sz hs pid = do {
     expects (\<exists>n \<le> strip_sz. strip_sz = 2 ^ n);
     expects (strip_sz mod 512 = 0);
     expects (\<not> length hs < 3);
     expects (\<forall>h \<in> set hs. h \<noteq> None);
     let data_sz = strip_sz * (length hs - 1);
     Some \<lparr>sp_strip_sz = strip_sz, sp_stripe_data_sz = data_sz, sp_stripe_sz = data_sz + strip_sz,
       sp_pid = pid, sp_hs = map the hs\<rparr> }"

definition handlers_data_view :: "nat \<Rightarrow> nat \<Rightarrow> nat \<Rightarrow> nat \<Rightarrow> nat list option" where
  "handlers_data_view n hid_to_skip hid_first hs_nr = do {
     expects (hid_to_skip < n);
     expects (hid_first + hs_nr < n);
     Some (take hs_nr (drop hid_first ([0..<hid_to_skip] @ [hid_to_skip + 1..<n]))) }"

subsection \<open>Reading\<close>

text \<open>
  The strips of one stripe: the position in the buffer, the bytes of the chunk still to read, the
  query's error, the buffer and the disks go round the loop.
\<close>

fun sp_read_strips :: "'c rw_handler \<Rightarrow> nat \<Rightarrow> nat \<Rightarrow> nat \<Rightarrow> nat \<Rightarrow> nat \<Rightarrow> int \<Rightarrow> byte list \<Rightarrow> 'c list \<Rightarrow> nat list \<Rightarrow>
    (int \<times> nat \<times> nat \<times> int \<times> byte list \<times> 'c list) option" where
  "sp_read_strips ops S stripe so chunk rb err buf hs [] = Some (0, rb, chunk, err, buf, hs)"
| "sp_read_strips ops S stripe so chunk rb err buf hs (i # is) = (
     let sq_off = stripe * S + so; sq_sz = min (S - so) chunk in do {
       sq \<leftarrow> subquery buf rb sq_sz;
       (res, e, sq', h) \<leftarrow> submit_rd ops sq_off sq (hs ! i);
       if res \<noteq> 0 then Some (res, rb, chunk, merge_err err e, copy_at buf rb sq', hs[i := h])
       else sp_read_strips ops S stripe 0 (chunk - sq_sz) (rb + sq_sz) (merge_err err e)
              (copy_at buf rb sq') (hs[i := h]) is })"

lemma sp_read_strips_sum:
  "sp_read_strips ops S stripe so chunk rb err buf hs is = Some (0, rb', chunk', r) \<Longrightarrow> rb' + chunk' = rb + chunk"
proof (induction ops S stripe so chunk rb err buf hs "is" rule: sp_read_strips.induct)
  case (2 ops S stripe so chunk rb err buf hs i "is")
  show ?case
  proof (cases "subquery buf rb (min (S - so) chunk)")
    case None
    with 2(2) show ?thesis by simp
  next
    case (Some sq)
    show ?thesis
    proof (cases "submit_rd ops (stripe * S + so) sq (hs ! i)")
      case None
      with Some 2(2) show ?thesis by simp
    next
      case s: (Some x)
      obtain res e sq' h where x: "x = (res, e, sq', h)" by (cases x)
      show ?thesis
      proof (cases "res = 0")
        case True
        then have "rb' + chunk' = rb + min (S - so) chunk + (chunk - min (S - so) chunk)"
          using 2(1) [OF refl refl Some s [unfolded x] refl refl refl] 2(2) Some s x by (simp add: Let_def)
        then show ?thesis by simp
      next
        case False
        with Some s x 2(2) show ?thesis by simp
      qed
    qed
  qed
qed simp

text \<open>
  The loop over stripes.  A chunk is never empty: the offset lies in the stripe on entry
  (\<open>Expects\<close>) and is zero afterwards; the guard \<open>chunk \<noteq> 0\<close> states it.
\<close>

function sp_data_read_loop :: "'c rw_handler \<Rightarrow> 'c raidsp \<Rightarrow> nat \<Rightarrow> nat \<Rightarrow> nat \<Rightarrow> nat \<Rightarrow> int \<Rightarrow> byte list \<Rightarrow> 'c list \<Rightarrow>
    (int \<times> int \<times> byte list \<times> 'c list) option" where
  "sp_data_read_loop ops be n stripe so rb err buf hs =
     (if \<not> rb < n then Some (0, err, buf, hs)
      else let S = sp_strip_sz be; D = sp_stripe_data_sz be; chunk = min (D - so) (n - rb);
               first = so div S; last = strips_round_up (so + chunk) S; p = sp_pid be stripe
        in do {
          expects (chunk \<noteq> 0);
          expects (p < length hs);
          view \<leftarrow> handlers_data_view (length hs) p first (last - first);
          (res, rb', chunk', err', buf', hs') \<leftarrow> sp_read_strips ops S stripe (so mod S) chunk rb err buf hs view;
          if res \<noteq> 0 then Some (res, err', buf', hs')
          else do {
            expects (0 = chunk');
            sp_data_read_loop ops be n (Suc stripe) 0 rb' err' buf' hs' } })"
  by pat_completeness auto

termination
proof (relation "measure (\<lambda>(ops, be, n, stripe, so, rb, err, buf, hs). n - rb)", goal_cases)
  case 2
  then show ?case by (auto simp: expects_def dest!: sp_read_strips_sum split: if_splits intro: chunk_progress)
qed simp

declare sp_data_read_loop.simps [simp del]

definition sp_data_read :: "'c rw_handler \<Rightarrow> nat \<Rightarrow> 'c raidsp read_fn" where
  "sp_data_read ops stripe_from off buf be = do {
     expects (buf \<noteq> []);
     expects (off < sp_stripe_data_sz be);
     (res, e, buf', hs) \<leftarrow> sp_data_read_loop ops be (length buf) stripe_from off 0 0 buf (sp_hs be);
     Some (res, e, buf', be\<lparr>sp_hs := hs\<rparr>) }"

definition sp_parity_read :: "'c rw_handler \<Rightarrow> nat \<Rightarrow> 'c raidsp read_fn" where
  "sp_parity_read ops stripe off buf be = do {
     expects (buf \<noteq> []);
     expects (\<not> off + length buf > sp_strip_sz be);
     let p = sp_pid be stripe;
     expects (p < length (sp_hs be));
     sq \<leftarrow> subquery buf 0 (min (sp_strip_sz be) (length buf));
     (res, e, sq', h) \<leftarrow> submit_rd ops (stripe * sp_strip_sz be) sq (sp_hs be ! p);
     Some (res, merge_err 0 e, copy_at buf 0 sq', be\<lparr>sp_hs := (sp_hs be)[p := h]\<rparr>) }"

subsection \<open>Writing a stripe\<close>

fun sp_write_strips :: "'c rw_handler \<Rightarrow> nat \<Rightarrow> nat \<Rightarrow> nat \<Rightarrow> nat \<Rightarrow> int \<Rightarrow> byte list \<Rightarrow> 'c list \<Rightarrow> nat list \<Rightarrow>
    (int \<times> nat \<times> int \<times> 'c list) option" where
  "sp_write_strips ops S stripe so wb err buf hs [] = Some (0, wb, err, hs)"
| "sp_write_strips ops S stripe so wb err buf hs (i # is) = (
     let sq_off = stripe * S + so; sq_sz = min (S - so) (length buf - wb) in do {
       sq \<leftarrow> subquery buf wb sq_sz;
       (res, e, h) \<leftarrow> submit_wr ops sq_off sq (hs ! i);
       if res \<noteq> 0 then Some (res, wb, merge_err err e, hs[i := h])
       else sp_write_strips ops S stripe 0 (wb + sq_sz) (merge_err err e) buf (hs[i := h]) is })"

text \<open>Returns the submission's result, the errors of the data query and of the parity query.\<close>

definition sp_stripe_write :: "'c rw_handler \<Rightarrow> nat \<Rightarrow> nat \<times> byte list \<Rightarrow> nat \<times> byte list \<Rightarrow> 'c raidsp \<Rightarrow>
    (int \<times> int \<times> int \<times> 'c raidsp) option" where
  "sp_stripe_write ops stripe wqd wqp be = (
     case wqd of (offd, bufd) \<Rightarrow> case wqp of (offp, bufp) \<Rightarrow> do {
       expects (bufd \<noteq> []);
       expects (\<not> offd + length bufd > sp_stripe_data_sz be);
       expects (bufp \<noteq> []);
       expects (\<not> offp + length bufp > sp_strip_sz be);
       let S = sp_strip_sz be;
       let first = offd div S;
       let last = strips_round_up (offd + length bufd) S;
       let p = sp_pid be stripe;
       expects (p < length (sp_hs be));
       view \<leftarrow> handlers_data_view (length (sp_hs be)) p first (last - first);
       (res, wb, errd, hs) \<leftarrow> sp_write_strips ops S stripe (offd mod S) 0 0 bufd (sp_hs be) view;
       if res \<noteq> 0 then Some (res, errd, 0, be\<lparr>sp_hs := hs\<rparr>)
       else do {
         expects (\<not> wb < length bufd);
         sqp \<leftarrow> subquery bufp 0 (length bufp);
         (res', e, h) \<leftarrow> submit_wr ops (stripe * S + offp) sqp (hs ! p);
         Some (res', errd, merge_err 0 e, be\<lparr>sp_hs := hs[p := h]\<rparr>) } })"


subsection \<open>The array as a sequence of stripes\<close>

text \<open>
  \<open>sp_full\<close> lists the stripes, each with its data strips first and its parity strip last: the
  layout of the stripe buffers the code builds.  Strip \<open>e\<close> of a stripe lies on disk \<open>data_disk p e\<close>,
  the parity strip (\<open>e = n - 1\<close>) on disk \<open>p\<close>.
\<close>

definition data_disk :: "nat \<Rightarrow> nat \<Rightarrow> nat" where
  "data_disk p e = (if e < p then e else Suc e)"

definition sp_disk :: "nat \<Rightarrow> (nat \<Rightarrow> nat) \<Rightarrow> nat \<Rightarrow> nat" where
  "sp_disk n pid k = (let s = k div n; e = k mod n in if e = n - 1 then pid s else data_disk (pid s) e)"

definition sp_pos :: "nat \<Rightarrow> nat \<Rightarrow> nat \<Rightarrow> nat" where
  "sp_pos S n k = k div n * S"

definition sp_disks_ok :: "('c \<Rightarrow> bool) \<Rightarrow> ('c \<Rightarrow> byte list) \<Rightarrow> nat \<Rightarrow> nat \<Rightarrow> (nat \<Rightarrow> nat) \<Rightarrow> 'c list \<Rightarrow> bool" where
  "sp_disks_ok good content m S pid hs \<longleftrightarrow> 0 < S \<and> 2 \<le> length hs \<and> (\<forall>s. pid s < length hs) \<and>
     (\<forall>h \<in> set hs. good h \<and> length (content h) = m * S)"

definition sp_full :: "('c \<Rightarrow> byte list) \<Rightarrow> nat \<Rightarrow> nat \<Rightarrow> (nat \<Rightarrow> nat) \<Rightarrow> 'c list \<Rightarrow> byte list" where
  "sp_full content m S pid hs =
     volume S (sp_disk (length hs) pid) (sp_pos S (length hs)) (m * length hs) (map content hs)"

lemma length_sp_full: "length (sp_full content m S pid hs) = m * length hs * S"
  by (simp add: sp_full_def)

lemma data_disk_facts: "data_disk p d \<noteq> p" "data_disk p d = data_disk p e \<longleftrightarrow> d = e"
  "d < n - 1 \<Longrightarrow> p < n \<Longrightarrow> data_disk p d < n"
  by (auto simp: data_disk_def)

lemma handlers_data_view_eq:
  assumes "p < n" "first + nr < n"
  shows "handlers_data_view n p first nr = Some (map (data_disk p) [first..<first + nr])"
proof -
  have "[0..<p] @ [p + 1..<n] = map (data_disk p) [0..<n - 1]"
    using assms(1) by (intro nth_equalityI) (auto simp: nth_append data_disk_def)
  then show ?thesis using assms
    by (simp add: handlers_data_view_def take_map drop_map)
qed

lemma sp_placed:
  assumes "0 < S" "2 \<le> length disks" "\<forall>s. pid s < length disks" "\<forall>d \<in> set disks. length d = m * S"
  shows "placed S (sp_disk (length disks) pid) (sp_pos S (length disks)) (m * length disks) disks"
proof -
  let ?n = "length disks"
  have n: "0 < ?n" using assms(2) by linarith
  have e: "k mod ?n < ?n" for k using n by (rule mod_less_divisor)
  have d: "sp_disk ?n pid k < ?n" for k
    using e [of k] assms(3) data_disk_facts(3) [of "k mod ?n" ?n "pid (k div ?n)"]
    by (auto simp: sp_disk_def Let_def)
  moreover have "sp_pos S ?n k + S \<le> length (disks ! sp_disk ?n pid k)" if "k < m * ?n" for k
  proof -
    have "k div ?n < m" using that by (simp add: less_mult_imp_div_less)
    then have "k div ?n * S + S \<le> m * S" by (rule strip_bound)
    then show ?thesis using assms(4) d [of k] by (simp add: sp_pos_def)
  qed
  moreover have "apart (sp_pos S ?n k) S (sp_pos S ?n l) S" if "sp_disk ?n pid k = sp_disk ?n pid l" "k \<noteq> l" for k l
  proof (cases "k div ?n = l div ?n")
    case True
    with that(1) have "k mod ?n = l mod ?n"
      using data_disk_facts(1,2) by (auto simp: sp_disk_def Let_def split: if_splits) metis+
    with True that(2) show ?thesis by (metis div_mult_mod_eq)
  next
    case False
    then show ?thesis unfolding sp_pos_def by (rule strips_apart) simp
  qed
  ultimately show ?thesis using assms(1) by (auto simp: placed_def)
qed

lemma sp_strip_index:
  assumes "e < (n :: nat)"
  shows "(s * n + e) div n = s" "(s * n + e) mod n = e"
  using assms by simp_all

text \<open>The data bytes in address order: the data part of every stripe.\<close>

definition sp_data :: "('c \<Rightarrow> byte list) \<Rightarrow> nat \<Rightarrow> nat \<Rightarrow> (nat \<Rightarrow> nat) \<Rightarrow> 'c list \<Rightarrow> byte list" where
  "sp_data content m S pid hs =
     volume (S * (length hs - 1)) (\<lambda>s. 0) (\<lambda>s. s * (length hs * S)) m [sp_full content m S pid hs]"

lemma sp_data_placed:
  assumes "0 < S" "2 \<le> length hs"
  shows "placed (S * (length hs - 1)) (\<lambda>s. 0) (\<lambda>s. s * (length hs * S)) m [sp_full content m S pid hs]"
proof -
  have le: "S * (length hs - 1) \<le> length hs * S" by (simp add: mult.commute)
  have "s * (length hs * S) + S * (length hs - 1) \<le> m * length hs * S" if "s < m" for s
    using strip_bound [OF that, of "length hs * S"] le unfolding mult.assoc by linarith
  then show ?thesis using assms le by (auto simp: placed_def length_sp_full intro: strips_apart)
qed

text \<open>
  The strips \<open>d, \<dots>, d' - 1\<close> of stripe \<open>s\<close> hold a chunk that starts \<open>so\<close> bytes into strip \<open>d\<close> and
  ends in strip \<open>d' - 1\<close>.
\<close>

definition strips_cover :: "nat \<Rightarrow> nat \<Rightarrow> nat \<Rightarrow> nat \<Rightarrow> nat \<Rightarrow> bool" where
  "strips_cover S d d' so chunk \<longleftrightarrow> so < S \<and> so + chunk \<le> (d' - d) * S \<and>
     (d < d' \<longrightarrow> 0 < chunk \<and> (d' - d) * S < so + chunk + S)"

lemma strips_cover_step:
  assumes c: "strips_cover S d d' so chunk" and d: "d < d'"
  defines "sz \<equiv> min (S - so) chunk"
  shows "0 < sz" "sz \<le> chunk" "so + sz \<le> S" "strips_cover S (Suc d) d' 0 (chunk - sz)"
    and "chunk - sz = 0 \<or> so + sz = S"
proof -
  have a: "so < S" "so + chunk \<le> (d' - d) * S" "0 < chunk" "(d' - d) * S < so + chunk + S"
    using c d by (auto simp: strips_cover_def)
  have m: "(d' - d) * S = (d' - Suc d) * S + S"
    using d by (metis Suc_diff_Suc add.commute mult_Suc)
  show "0 < sz" "sz \<le> chunk" "so + sz \<le> S" "chunk - sz = 0 \<or> so + sz = S"
    using a(1,3) unfolding sz_def by auto
  have r: "chunk - sz \<le> (d' - Suc d) * S" "(d' - Suc d) * S < chunk - sz + S"
    using a m unfolding sz_def min_def by (simp_all only: split: if_splits) linarith+
  have "0 < chunk - sz" if "Suc d < d'"
  proof -
    have "1 \<le> d' - Suc d" using that by simp
    then have "S \<le> (d' - Suc d) * S" by (metis mult_1 mult_le_mono1)
    then show ?thesis using r(2) by linarith
  qed
  with r a(1) show "strips_cover S (Suc d) d' 0 (chunk - sz)" by (simp add: strips_cover_def)
qed

lemma strips_of_range:
  assumes "0 < S" "0 < chunk" "so + chunk \<le> S * N"
  defines "df \<equiv> so div S" and "dl \<equiv> strips_round_up (so + chunk) S"
  shows "strips_cover S df dl (so mod S) chunk" "df \<le> dl" "dl \<le> N"
proof -
  note r = strips_round_up_bounds [OF assms(1), of "so + chunk", folded dl_def]
  have f: "so = df * S + so mod S" "so mod S < S" using assms(1) by (simp_all add: df_def)
  have "df * S < dl * S" using r(1) f(1) assms(2) by linarith
  then have fl: "df < dl" by simp
  then show "df \<le> dl" by simp
  have m: "(dl - df) * S = dl * S - df * S" by (simp add: diff_mult_distrib)
  show "strips_cover S df dl (so mod S) chunk"
    unfolding strips_cover_def m using f r assms(2) by linarith
  have "dl * S < Suc N * S" using r(2) assms(3) by (simp add: mult.commute)
  then show "dl \<le> N" by (simp only: mult_less_cancel2) linarith
qed

context block_dev
begin

abbreviation "sp_good \<equiv> sp_disks_ok good content"
abbreviation "sp_bytes \<equiv> sp_full content"

lemma sp_good_placed:
  "sp_good m S pid hs \<Longrightarrow>
    placed S (sp_disk (length hs) pid) (sp_pos S (length hs)) (m * length hs) (map content hs)"
  using sp_placed [of S "map content hs" pid m] by (simp add: sp_disks_ok_def)

lemma sp_good_update:
  "sp_good m S pid hs \<Longrightarrow> good h \<Longrightarrow> length (content h) = m * S \<Longrightarrow> sp_good m S pid (hs[i := h])"
  by (auto simp: sp_disks_ok_def dest!: set_update_subset_insert [THEN subsetD])

lemma sp_strip_facts:
  assumes ok: "sp_good m S pid hs" and s: "s < m" and e: "e < length hs"
    and i: "i = sp_disk (length hs) pid (s * length hs + e)"
  shows "i < length hs" "good (hs ! i)" "length (content (hs ! i)) = m * S" "s * S + S \<le> m * S"
    and "s * length hs + e < m * length hs"
proof -
  have k: "s * length hs + e < m * length hs"
    using strip_bound [OF s, of "length hs"] e by linarith
  then show "s * length hs + e < m * length hs" .
  show "i < length hs" using placedD(1) [OF sp_good_placed [OF ok] k] i by simp
  then show "good (hs ! i)" "length (content (hs ! i)) = m * S" using ok by (auto simp: sp_disks_ok_def)
  show "s * S + S \<le> m * S" by (rule strip_bound [OF s])
qed

lemma sp_read_strip:
  assumes ok: "sp_good m S pid hs" and s: "s < m" and e: "e < length hs"
    and i: "i = sp_disk (length hs) pid (s * length hs + e)"
    and j: "j + length sq \<le> S" and ne: "sq \<noteq> []"
  shows "\<exists>h. submit_rd ops (s * S + j) sq (hs ! i) =
      Some (0, 0, subspan (sp_bytes m S pid hs) ((s * length hs + e) * S + j) (length sq), h) \<and>
    sp_good m S pid (hs[i := h]) \<and> sp_bytes m S pid (hs[i := h]) = sp_bytes m S pid hs"
proof -
  note f = sp_strip_facts [OF ok s e i]
  have "s * S + j + length sq \<le> length (content (hs ! i))" using f(3,4) j by linarith
  then obtain h' where r: "submit_rd ops (s * S + j) sq (hs ! i) =
      Some (0, 0, subspan (content (hs ! i)) (s * S + j) (length sq), h')"
    "good h'" "content h' = content (hs ! i)"
    using read_law [OF f(2) ne] by blast
  have "subspan (content (hs ! i)) (s * S + j) (length sq) =
      subspan (sp_bytes m S pid hs) ((s * length hs + e) * S + j) (length sq)"
    using volume_read_strip [OF sp_good_placed [OF ok] f(5) j] f(1) e i
    by (simp add: sp_full_def sp_pos_def sp_strip_index(1))
  moreover have "map content (hs[i := h']) = map content hs"
    using f(1) r(3) by (simp add: map_update) (metis f(1) length_map list_update_id nth_map)
  ultimately show ?thesis
    using r f(3) sp_good_update [OF ok r(2)] by (auto simp: sp_full_def)
qed

lemma sp_write_strip:
  assumes ok: "sp_good m S pid hs" and s: "s < m" and e: "e < length hs"
    and i: "i = sp_disk (length hs) pid (s * length hs + e)"
    and j: "j + length sq \<le> S" and ne: "sq \<noteq> []"
  shows "\<exists>h. submit_wr ops (s * S + j) sq (hs ! i) = Some (0, 0, h) \<and>
    sp_good m S pid (hs[i := h]) \<and>
    sp_bytes m S pid (hs[i := h]) = copy_at (sp_bytes m S pid hs) ((s * length hs + e) * S + j) sq"
proof -
  note f = sp_strip_facts [OF ok s e i]
  have le: "s * S + j + length sq \<le> length (content (hs ! i))" using f(3,4) j by linarith
  then obtain h' where w: "submit_wr ops (s * S + j) sq (hs ! i) = Some (0, 0, h')"
    "good h'" "content h' = copy_at (content (hs ! i)) (s * S + j) sq"
    using write_law [OF f(2) ne] by blast
  have "length (content h') = m * S" using w(3) le f(3) by simp
  moreover have "map content (hs[i := h']) = (map content hs)[i := copy_at (map content hs ! i) (s * S + j) sq]"
    using f(1) w(3) by (simp add: map_update)
  moreover have "sp_bytes m S pid (hs[i := h']) = copy_at (sp_bytes m S pid hs) ((s * length hs + e) * S + j) sq"
    using volume_write_strip [OF sp_good_placed [OF ok] f(5) j] calculation(2) i e
    by (simp add: sp_full_def sp_pos_def sp_strip_index(1))
  ultimately show ?thesis using w sp_good_update [OF ok w(2)] by auto
qed

lemma sp_read_strips_ok:
  assumes "sp_good m S pid hs" "s < m" "d' < length hs" "strips_cover S d d' so chunk" "d \<le> d'"
    and "rb + chunk \<le> length buf"
  shows "\<exists>hs'. sp_read_strips ops S s so chunk rb 0 buf hs (map (data_disk (pid s)) [d..<d']) =
      Some (0, rb + chunk, 0, 0,
        copy_at buf rb (subspan (sp_bytes m S pid hs) ((s * length hs + d) * S + so) chunk), hs') \<and>
    sp_good m S pid hs' \<and> length hs' = length hs \<and> sp_bytes m S pid hs' = sp_bytes m S pid hs"
  using assms
proof (induction "d' - d" arbitrary: d so chunk rb buf hs)
  case 0
  then have "d = d'" "chunk = 0" by (auto simp: strips_cover_def)
  then show ?case using 0 by simp
next
  case (Suc x)
  then have d: "d < d'" by simp
  let ?n = "length hs" and ?F = "sp_bytes m S pid hs" and ?i = "data_disk (pid s) d"
  define sz where "sz = min (S - so) chunk"
  note c = strips_cover_step [OF Suc.prems(4) d, folded sz_def]
  have e: "d < ?n" using d Suc.prems(3) by simp
  have "d \<noteq> ?n - 1" using d Suc.prems(3) by linarith
  then have i: "?i = sp_disk ?n pid (s * ?n + d)"
    by (simp only: sp_disk_def Let_def sp_strip_index [OF e] if_False)
  have sq: "subquery buf rb sz = Some (subspan buf rb sz)" "length (subspan buf rb sz) = sz" "subspan buf rb sz \<noteq> []"
    using c(1,2) Suc.prems(6) by (auto simp: subquery_eq subspan_def)
  have "so + length (subspan buf rb sz) \<le> S" using sq(2) c(3) by simp
  from sp_read_strip [OF Suc.prems(1,2) e i this sq(3)] obtain h where
    h: "submit_rd ops (s * S + so) (subspan buf rb sz) (hs ! ?i) =
      Some (0, 0, subspan ?F ((s * ?n + d) * S + so) sz, h)"
    "sp_good m S pid (hs[?i := h])" "sp_bytes m S pid (hs[?i := h]) = ?F"
    unfolding sq(2) by blast
  let ?buf = "copy_at buf rb (subspan ?F ((s * ?n + d) * S + so) sz)"
  have lF: "length ?F = m * ?n * S" by (rule length_sp_full)
  have inF: "(s * ?n + d) * S + so + chunk \<le> length ?F"
  proof -
    have "so + chunk \<le> (d' - d) * S" using Suc.prems(4) by (simp add: strips_cover_def)
    moreover have "(s * ?n + d) * S + (d' - d) * S = (s * ?n + d') * S"
      using d by (simp add: add_mult_distrib [symmetric])
    moreover have "s * ?n + d' \<le> m * ?n" using strip_bound [OF Suc.prems(2), of ?n] Suc.prems(3) by linarith
    then have "(s * ?n + d') * S \<le> m * ?n * S" by (rule mult_le_mono1)
    ultimately show ?thesis unfolding lF by linarith
  qed
  have ls: "length (subspan ?F ((s * ?n + d) * S + so) sz) = sz" using inF c(2) by simp
  have lb: "length ?buf = length buf" using ls c(2) Suc.prems(6) by simp
  have "\<exists>hs'. sp_read_strips ops S s 0 (chunk - sz) (rb + sz) 0 ?buf (hs[?i := h]) (map (data_disk (pid s)) [Suc d..<d']) =
      Some (0, rb + sz + (chunk - sz), 0, 0, copy_at ?buf (rb + sz)
        (subspan (sp_bytes m S pid (hs[?i := h])) ((s * length (hs[?i := h]) + Suc d) * S + 0) (chunk - sz)), hs') \<and>
    sp_good m S pid hs' \<and> length hs' = length (hs[?i := h]) \<and> sp_bytes m S pid hs' = sp_bytes m S pid (hs[?i := h])"
    by (rule Suc.hyps(1)) (use Suc.hyps(2) Suc.prems h(2) c lb in auto)
  then obtain hs' where hs': "sp_read_strips ops S s 0 (chunk - sz) (rb + sz) 0 ?buf (hs[?i := h]) (map (data_disk (pid s)) [Suc d..<d']) =
      Some (0, rb + chunk, 0, 0, copy_at ?buf (rb + sz) (subspan ?F ((s * ?n + Suc d) * S) (chunk - sz)), hs')"
    "sp_good m S pid hs'" "length hs' = ?n" "sp_bytes m S pid hs' = ?F"
    using c(2) unfolding h(3) by auto
  have "copy_at ?buf (rb + sz) (subspan ?F ((s * ?n + Suc d) * S) (chunk - sz)) =
      copy_at buf rb (subspan ?F ((s * ?n + d) * S + so) chunk)"
  proof -
    have "(s * ?n + Suc d) * S = (s * ?n + d) * S + S" by simp
    then have nx: "chunk - sz = 0 \<or> (s * ?n + Suc d) * S = (s * ?n + d) * S + so + sz"
      using c(5) by linarith
    have "sz + (chunk - sz) = chunk" using c(2) by simp
    then have a: "subspan ?F ((s * ?n + d) * S + so) sz @ subspan ?F ((s * ?n + Suc d) * S) (chunk - sz) =
        subspan ?F ((s * ?n + d) * S + so) chunk"
      using subspan_append_next [OF nx, of ?F] by simp
    have "rb + length (subspan ?F ((s * ?n + d) * S + so) chunk) \<le> length buf"
      using Suc.prems(6) inF by simp
    then show ?thesis
      using copy_at_append [of rb "subspan ?F ((s * ?n + d) * S + so) sz" "subspan ?F ((s * ?n + Suc d) * S) (chunk - sz)" buf]
      unfolding ls a by simp
  qed
  moreover have "[d..<d'] = d # [Suc d..<d']" using d by (rule upt_conv_Cons)
  ultimately show ?case using hs' h(1) sq(1) by (simp add: Let_def flip: sz_def)
qed

lemma sp_write_strips_ok:
  assumes "sp_good m S pid hs" "s < m" "d' < length hs" "strips_cover S d d' so (length buf - wb)" "d \<le> d'"
    and "wb \<le> length buf"
  shows "\<exists>hs'. sp_write_strips ops S s so wb 0 buf hs (map (data_disk (pid s)) [d..<d']) = Some (0, length buf, 0, hs') \<and>
    sp_good m S pid hs' \<and> length hs' = length hs \<and>
    sp_bytes m S pid hs' = copy_at (sp_bytes m S pid hs) ((s * length hs + d) * S + so) (drop wb buf)"
  using assms
proof (induction "d' - d" arbitrary: d so wb hs)
  case 0
  then have "d = d'" "wb = length buf" by (auto simp: strips_cover_def)
  then show ?case using 0 by simp
next
  case (Suc x)
  then have d: "d < d'" by simp
  let ?n = "length hs" and ?F = "sp_bytes m S pid hs" and ?i = "data_disk (pid s) d"
  define sz where "sz = min (S - so) (length buf - wb)"
  note c = strips_cover_step [OF Suc.prems(4) d, folded sz_def]
  let ?sq = "subspan buf wb sz"
  have e: "d < ?n" using d Suc.prems(3) by simp
  have "d \<noteq> ?n - 1" using d Suc.prems(3) by linarith
  then have i: "?i = sp_disk ?n pid (s * ?n + d)"
    by (simp only: sp_disk_def Let_def sp_strip_index [OF e] if_False)
  have le: "wb + sz \<le> length buf" using c(2) Suc.prems(6) by simp
  have sq: "subquery buf wb sz = Some ?sq" "length ?sq = sz" "?sq \<noteq> []"
    using c(1) le by (auto simp: subquery_eq subspan_def)
  have "so + length ?sq \<le> S" using sq(2) c(3) by simp
  from sp_write_strip [OF Suc.prems(1,2) e i this sq(3)] obtain h where
    h: "submit_wr ops (s * S + so) ?sq (hs ! ?i) = Some (0, 0, h)"
    "sp_good m S pid (hs[?i := h])" "sp_bytes m S pid (hs[?i := h]) = copy_at ?F ((s * ?n + d) * S + so) ?sq" by blast
  have lF: "length ?F = m * ?n * S" by (rule length_sp_full)
  have inF: "(s * ?n + d) * S + so + (length buf - wb) \<le> length ?F"
  proof -
    have "so + (length buf - wb) \<le> (d' - d) * S" using Suc.prems(4) by (simp add: strips_cover_def)
    moreover have "(s * ?n + d) * S + (d' - d) * S = (s * ?n + d') * S"
      using d by (simp add: add_mult_distrib [symmetric])
    moreover have "s * ?n + d' \<le> m * ?n" using strip_bound [OF Suc.prems(2), of ?n] Suc.prems(3) by linarith
    then have "(s * ?n + d') * S \<le> m * ?n * S" by (rule mult_le_mono1)
    ultimately show ?thesis unfolding lF by linarith
  qed
  have rest: "length buf - (wb + sz) = length buf - wb - sz" by simp
  have "\<exists>hs'. sp_write_strips ops S s 0 (wb + sz) 0 buf (hs[?i := h]) (map (data_disk (pid s)) [Suc d..<d']) = Some (0, length buf, 0, hs') \<and>
    sp_good m S pid hs' \<and> length hs' = length (hs[?i := h]) \<and>
    sp_bytes m S pid hs' = copy_at (sp_bytes m S pid (hs[?i := h])) ((s * length (hs[?i := h]) + Suc d) * S + 0) (drop (wb + sz) buf)"
  proof (rule Suc.hyps(1))
    show "x = d' - Suc d" using Suc.hyps(2) by simp
    show "sp_good m S pid (hs[?i := h])" by (rule h(2))
    show "d' < length (hs[?i := h])" using Suc.prems(3) by simp
    show "strips_cover S (Suc d) d' 0 (length buf - (wb + sz))" unfolding rest by (rule c(4))
    show "Suc d \<le> d'" using d by simp
  qed (use Suc.prems(2) le in simp_all)
  then obtain hs' where hs': "sp_write_strips ops S s 0 (wb + sz) 0 buf (hs[?i := h]) (map (data_disk (pid s)) [Suc d..<d']) = Some (0, length buf, 0, hs')"
    "sp_good m S pid hs'" "length hs' = ?n"
    "sp_bytes m S pid hs' = copy_at (copy_at ?F ((s * ?n + d) * S + so) ?sq) ((s * ?n + Suc d) * S) (drop (wb + sz) buf)"
    unfolding h(3) by auto
  have "copy_at (copy_at ?F ((s * ?n + d) * S + so) ?sq) ((s * ?n + Suc d) * S) (drop (wb + sz) buf) =
      copy_at ?F ((s * ?n + d) * S + so) (?sq @ drop (wb + sz) buf)"
  proof (rule copy_at_append_next)
    have m: "(s * ?n + Suc d) * S = (s * ?n + d) * S + S" by simp
    from c(5) show "drop (wb + sz) buf = [] \<or> (s * ?n + Suc d) * S = (s * ?n + d) * S + so + length ?sq"
    proof
      assume "length buf - wb - sz = 0"
      then show ?thesis by simp
    next
      assume "so + sz = S"
      then show ?thesis unfolding m sq(2) by linarith
    qed
    show "(s * ?n + d) * S + so + length (?sq @ drop (wb + sz) buf) \<le> length ?F"
      using inF sq(2) le by simp
  qed
  moreover have "?sq @ drop (wb + sz) buf = drop wb buf"
    unfolding subspan_def by (metis append_take_drop_id drop_drop add.commute)
  moreover have "[d..<d'] = d # [Suc d..<d']" using d by (rule upt_conv_Cons)
  ultimately show ?case using hs' h(1) sq(1) by (simp add: Let_def flip: sz_def)
qed

lemma sp_first_strip:
  fixes S n s so :: nat
  assumes "0 < S"
  shows "(s * n + so div S) * S + so mod S = s * (n * S) + so"
  by (simp add: add_mult_distrib mult.assoc)

lemma sp_data_read_loop_ok:
  assumes "sp_good m S pid hs" "sp_strip_sz be = S" "sp_pid be = pid"
    and "sp_stripe_data_sz be = S * (length hs - 1)" "so < S * (length hs - 1)" "rb \<le> n" "n = length buf"
    and "s * (S * (length hs - 1)) + so + (n - rb) \<le> m * (S * (length hs - 1))"
  shows "\<exists>hs'. sp_data_read_loop ops be n s so rb 0 buf hs =
      Some (0, 0, copy_at buf rb (subspan (sp_data content m S pid hs) (s * (S * (length hs - 1)) + so) (n - rb)), hs') \<and>
    sp_good m S pid hs' \<and> length hs' = length hs \<and> sp_bytes m S pid hs' = sp_bytes m S pid hs"
  using assms
proof (induction "n - rb" arbitrary: s so rb buf hs rule: less_induct)
  case less
  show ?case
  proof (cases "rb < n")
    case False
    then show ?thesis using less.prems by (subst sp_data_read_loop.simps) simp
  next
    case True
    let ?n = "length hs" and ?F = "sp_bytes m S pid hs" and ?V = "sp_data content m S pid hs"
    define D where "D = S * (?n - 1)"
    define chunk where "chunk = min (D - so) (n - rb)"
    note pr = less.prems [folded D_def]
    have ok: "0 < S" "2 \<le> ?n" "pid s < ?n" using pr(1) by (auto simp: sp_disks_ok_def)
    have ch: "0 < chunk" "so + chunk \<le> D" "rb + chunk \<le> n"
      using True pr(5) unfolding chunk_def by auto
    have nx: "n - (rb + chunk) = 0 \<or> Suc s * D = s * D + so + chunk"
      using next_chunk [OF pr(5) chunk_def, of "n - (rb + chunk)" s] by simp
    have s: "s < m"
    proof (rule ccontr)
      assume "\<not> s < m"
      then have "m * D \<le> s * D" by simp
      then show False using pr(8) True by linarith
    qed
    note st = strips_of_range [OF ok(1) ch(1) ch(2) [unfolded D_def]]
    let ?first = "so div S" and ?last = "strips_round_up (so + chunk) S"
    have lt: "?last < ?n" using st(3) ok(2) by linarith
    have fl: "?first + (?last - ?first) = ?last" using st(2) by simp
    have view: "handlers_data_view ?n (pid s) ?first (?last - ?first) = Some (map (data_disk (pid s)) [?first..<?last])"
      using handlers_data_view_eq [OF ok(3), of ?first "?last - ?first"] lt unfolding fl by simp
    have "rb + chunk \<le> length buf" using ch(3) pr(7) by simp
    from sp_read_strips_ok [OF pr(1) s lt st(1,2) this] obtain hs' where
      r: "sp_read_strips ops S s (so mod S) chunk rb 0 buf hs (map (data_disk (pid s)) [?first..<?last]) =
        Some (0, rb + chunk, 0, 0, copy_at buf rb (subspan ?F (s * (?n * S) + so) chunk), hs')"
      "sp_good m S pid hs'" "length hs' = ?n" "sp_bytes m S pid hs' = ?F"
      unfolding sp_first_strip [OF ok(1)] by blast
    have rd: "subspan ?F (s * (?n * S) + so) chunk = subspan ?V (s * D + so) chunk"
      using volume_read_strip [OF sp_data_placed [OF ok(1,2)] s, where j = so and sz = chunk] ch(2)
      by (simp add: sp_data_def D_def)
    have V': "sp_data content m S pid hs' = ?V" using r(3,4) by (simp add: sp_data_def)
    have inV: "s * D + so + (n - rb) \<le> length ?V" using pr(8) by (simp add: sp_data_def D_def)
    let ?buf = "copy_at buf rb (subspan ?V (s * D + so) chunk)"
    have ls: "length (subspan ?V (s * D + so) chunk) = chunk" using inV ch(3) by simp
    have step: "sp_data_read_loop ops be n s so rb 0 buf hs =
        sp_data_read_loop ops be n (Suc s) 0 (rb + chunk) 0 ?buf hs'"
      using True r(1) view ok(3) ch(1) pr(2,3,4,5)
      by (subst sp_data_read_loop.simps) (simp add: Let_def chunk_def [symmetric] rd)
    have "\<exists>hs''. sp_data_read_loop ops be n (Suc s) 0 (rb + chunk) 0 ?buf hs' =
        Some (0, 0, copy_at ?buf (rb + chunk) (subspan (sp_data content m S pid hs') (Suc s * (S * (length hs' - 1)) + 0) (n - (rb + chunk))), hs'') \<and>
      sp_good m S pid hs'' \<and> length hs'' = length hs' \<and> sp_bytes m S pid hs'' = sp_bytes m S pid hs'"
    proof (rule less.hyps)
      show "n - (rb + chunk) < n - rb" using ch True by linarith
      show "n = length ?buf" using ls ch(3) pr(7) by simp
      show "0 < S * (length hs' - 1)" unfolding r(3) using ok by simp
      have "Suc s * D + (n - (rb + chunk)) \<le> m * D"
        using nx
      proof
        assume "n - (rb + chunk) = 0"
        moreover have "Suc s * D \<le> m * D" using s by (intro mult_le_mono1) simp
        ultimately show ?thesis by linarith
      next
        assume "Suc s * D = s * D + so + chunk"
        then show ?thesis using pr(8) ch(3) by linarith
      qed
      then show "Suc s * (S * (length hs' - 1)) + 0 + (n - (rb + chunk)) \<le> m * (S * (length hs' - 1))"
        unfolding r(3) D_def by simp
      show "sp_stripe_data_sz be = S * (length hs' - 1)" using pr(4) unfolding r(3) D_def .
    qed (use pr r ch in simp_all)
    then obtain hs'' where hs'': "sp_data_read_loop ops be n (Suc s) 0 (rb + chunk) 0 ?buf hs' =
        Some (0, 0, copy_at ?buf (rb + chunk) (subspan ?V (Suc s * D) (n - (rb + chunk))), hs'')"
      "sp_good m S pid hs''" "length hs'' = ?n" "sp_bytes m S pid hs'' = ?F"
      unfolding V' r(3,4) D_def by auto
    have e: "chunk + (n - (rb + chunk)) = n - rb" using ch(3) by simp
    have "copy_at ?buf (rb + chunk) (subspan ?V (Suc s * D) (n - (rb + chunk))) = copy_at buf rb (subspan ?V (s * D + so) (n - rb))"
    proof -
      have a: "subspan ?V (s * D + so) chunk @ subspan ?V (Suc s * D) (n - (rb + chunk)) = subspan ?V (s * D + so) (n - rb)"
        using subspan_append_next [OF nx, of ?V] unfolding e .
      have "rb + length (subspan ?V (s * D + so) (n - rb)) \<le> length buf" using inV pr(6,7) by simp
      then show ?thesis
        using copy_at_append [of rb "subspan ?V (s * D + so) chunk" "subspan ?V (Suc s * D) (n - (rb + chunk))" buf]
        unfolding ls a by simp
    qed
    then show ?thesis using hs'' step unfolding D_def by simp
  qed
qed

lemma sp_stripe_write_ok:
  assumes "sp_good m S pid (sp_hs be)" "sp_strip_sz be = S" "sp_pid be = pid"
    and "sp_stripe_data_sz be = S * (length (sp_hs be) - 1)" "s < m"
    and "bufd \<noteq> []" "offd + length bufd \<le> S * (length (sp_hs be) - 1)" "length bufp = S"
  shows "\<exists>hs'. sp_stripe_write ops s (offd, bufd) (0, bufp) be = Some (0, 0, 0, be\<lparr>sp_hs := hs'\<rparr>) \<and>
    sp_good m S pid hs' \<and> length hs' = length (sp_hs be) \<and>
    sp_bytes m S pid hs' = copy_at (copy_at (sp_bytes m S pid (sp_hs be)) (s * (length (sp_hs be) * S) + offd) bufd)
      (s * (length (sp_hs be) * S) + S * (length (sp_hs be) - 1)) bufp"
proof -
  let ?hs = "sp_hs be" let ?n = "length ?hs"
  have ok: "0 < S" "2 \<le> ?n" "pid s < ?n" using assms(1) by (auto simp: sp_disks_ok_def)
  have l: "0 < length bufd" using assms(6) by simp
  note st = strips_of_range [OF ok(1) l assms(7)]
  let ?first = "offd div S" and ?last = "strips_round_up (offd + length bufd) S"
  have lt: "?last < ?n" using st(3) ok(2) by linarith
  have fl: "?first + (?last - ?first) = ?last" using st(2) by simp
  have view: "handlers_data_view ?n (pid s) ?first (?last - ?first) = Some (map (data_disk (pid s)) [?first..<?last])"
    using handlers_data_view_eq [OF ok(3), of ?first "?last - ?first"] lt unfolding fl by simp
  have c: "strips_cover S ?first ?last (offd mod S) (length bufd - 0)" using st(1) by simp
  from sp_write_strips_ok [OF assms(1,5) lt c st(2) le0] obtain hs1 where
    w: "sp_write_strips ops S s (offd mod S) 0 0 bufd ?hs (map (data_disk (pid s)) [?first..<?last]) = Some (0, length bufd, 0, hs1)"
    "sp_good m S pid hs1" "length hs1 = ?n"
    "sp_bytes m S pid hs1 = copy_at (sp_bytes m S pid ?hs) (s * (?n * S) + offd) bufd"
    unfolding sp_first_strip [OF ok(1)] by auto
  have bp: "bufp \<noteq> []" "0 + length bufp \<le> S" using assms(8) ok(1) by auto
  have e: "?n - 1 < length hs1" using ok(2) w(3) by simp
  have i: "pid s = sp_disk (length hs1) pid (s * length hs1 + (?n - 1))"
    unfolding sp_disk_def Let_def sp_strip_index [OF e] unfolding w(3) by simp
  from sp_write_strip [OF w(2) assms(5) e i bp(2,1)] obtain h where
    h: "submit_wr ops (s * S + 0) bufp (hs1 ! pid s) = Some (0, 0, h)" "sp_good m S pid (hs1[pid s := h])"
    "sp_bytes m S pid (hs1[pid s := h]) = copy_at (sp_bytes m S pid hs1) ((s * length hs1 + (?n - 1)) * S + 0) bufp" by blast
  have a: "(s * length hs1 + (?n - 1)) * S + 0 = s * (?n * S) + S * (?n - 1)"
    unfolding w(3) by (simp only: add_mult_distrib mult.assoc add_0_right mult.commute [of "?n - 1" S])
  have "sp_stripe_write ops s (offd, bufd) (0, bufp) be = Some (0, 0, 0, be\<lparr>sp_hs := hs1[pid s := h]\<rparr>)"
    using assms(2-4,6-8) w(1) view h(1) ok(1,3) bp subspan_whole [OF assms(8) [symmetric]]
    by (simp add: sp_stripe_write_def subquery_eq Let_def)
  then show ?thesis using h(2,3) w(3,4) unfolding a by auto
qed

end

end
