(* ===== verification/Strip_Parity.thy ===== *)
theory Strip_Parity
  imports Spans
begin

unbundle bit_operations_syntax

text \<open>
  \<open>ublk/raidsp/parity.cpp\<close>: XOR-ing a run of data into a parity strip.  The code works on 64-bit
  words in three phases: up to the end of the strip from the start offset, then whole strips, then
  the rest.  The reference is one XOR per byte, the position running cyclically over the strip.
\<close>

subsection \<open>The routine\<close>

function parity_loop :: "'a::len word list \<Rightarrow> 'a word list \<Rightarrow> 'a word list \<times> 'a word list" where
  "parity_loop d p =
     (if p \<noteq> [] \<and> \<not> length d < length p
      then parity_loop (drop (length p) d) (xor_to (take (length p) d) p) else (d, p))"
  by pat_completeness auto

termination by (relation "measure (\<lambda>(d, p). length d)") (auto simp: neq_Nil_conv)

declare parity_loop.simps [simp del]

definition parity_head :: "nat \<Rightarrow> 'a::len word list \<Rightarrow> 'a word list \<Rightarrow> 'a word list \<times> 'a word list" where
  "parity_head po d p =
     (if po \<noteq> 0
      then let n = min (length d) (length p - po)
           in (drop n d, copy_at p po (xor_to (subspan d 0 n) (subspan p po n)))
      else (d, p))"

definition parity_tail :: "'a::len word list \<times> 'a word list \<Rightarrow> 'a word list" where
  "parity_tail dp = (case dp of (d, p) \<Rightarrow>
     if d \<noteq> [] then copy_at p 0 (xor_to d (subspan p 0 (length d))) else p)"

definition parity_to :: "nat \<Rightarrow> byte list \<Rightarrow> nat \<Rightarrow> byte list \<Rightarrow> nat \<Rightarrow> byte list option" where
  "parity_to da data pa parity off = do {
     expects (off mod 8 = 0);
     d \<leftarrow> to_span_of 8 da data;
     p \<leftarrow> to_span_of 8 pa parity;
     expects (parity \<noteq> []);
     let po = (off mod length parity) div 8;
     Some (bytes_of 8 (parity_tail (case parity_head po d p of (d', p') \<Rightarrow> parity_loop d' (p' :: 64 word list)))) }"

definition parity_renew :: "nat \<Rightarrow> byte list \<Rightarrow> nat \<Rightarrow> byte list \<Rightarrow> byte list option" where
  "parity_renew da data pa parity = do {
     p \<leftarrow> to_span_of 8 pa parity;
     parity_to da data pa (bytes_of 8 (fill_stl (p :: 64 word list) 0)) 0 }"

subsection \<open>The reference\<close>

fun xor_cyclic :: "nat \<Rightarrow> 'a::len word list \<Rightarrow> 'a word list \<Rightarrow> 'a word list" where
  "xor_cyclic off [] p = p"
| "xor_cyclic off (x # xs) p =
     xor_cyclic (Suc off) xs (p[off mod length p := x XOR p ! (off mod length p)])"

lemma length_xor_cyclic [simp]: "length (xor_cyclic off xs p) = length p"
  by (induction off xs p rule: xor_cyclic.induct) auto

lemma xor_cyclic_append:
  "xor_cyclic off (xs @ ys) p = xor_cyclic (off + length xs) ys (xor_cyclic off xs p)"
  by (induction off xs p rule: xor_cyclic.induct) auto

lemma xor_cyclic_mod:
  "off mod length p = off' mod length p \<Longrightarrow> xor_cyclic off xs p = xor_cyclic off' xs p"
proof (induction xs arbitrary: off off' p)
  case (Cons x xs)
  have "Suc off mod length p = Suc off' mod length p" using Cons.prems by (metis mod_Suc_eq)
  then show ?case using Cons.prems Cons.IH [of "Suc off" _ "Suc off'"] by simp
qed simp

lemma xor_cyclic_block:
  assumes "off < length p" "length xs \<le> length p - off"
  shows "xor_cyclic off xs p = take off p @ xor_to xs (drop off p)"
  using assms
proof (induction xs arbitrary: off p)
  case Nil
  then show ?case by simp
next
  case (Cons x xs)
  have d: "drop off p = p ! off # drop (Suc off) p" using Cons.prems by (simp add: Cons_nth_drop_Suc)
  let ?p = "p[off := x XOR p ! off]"
  have "take (Suc off) ?p @ xor_to xs (drop (Suc off) ?p) = take off p @ xor_to (x # xs) (drop off p)"
    using Cons.prems by (simp add: d take_Suc_conv_app_nth)
  moreover have "xor_cyclic (Suc off) xs ?p = take (Suc off) ?p @ xor_to xs (drop (Suc off) ?p)"
  proof (cases "Suc off < length p")
    case True
    then show ?thesis using Cons.IH [of "Suc off" ?p] Cons.prems by simp
  next
    case False
    then have "xs = []" "Suc off = length p" using Cons.prems by (cases xs; simp)+
    then show ?thesis by simp
  qed
  ultimately show ?case using Cons.prems by simp
qed

lemma xor_to_take_same: "xor_to xs (take (length xs) ys) = take (length xs) (xor_to xs ys)"
  by (induction xs ys rule: xor_to.induct) auto

lemma xor_to_drop_rest: "drop (length xs) (xor_to xs ys) = drop (length xs) ys"
  by (induction xs ys rule: xor_to.induct) auto

lemma xor_to_split: "xor_to xs ys = xor_to xs (take (length xs) ys) @ drop (length xs) ys"
  by (metis append_take_drop_id xor_to_drop_rest xor_to_take_same)

text \<open>A XOR into a subspan is a step of the reference.\<close>

lemma copy_at_xor_to:
  assumes "off < length p" "length xs \<le> length p - off"
  shows "copy_at p off (xor_to xs (subspan p off (length xs))) = xor_cyclic off xs p"
proof -
  have "length (subspan p off (length xs)) = length xs" using assms by simp
  then have "copy_at p off (xor_to xs (subspan p off (length xs))) =
      take off p @ xor_to xs (take (length xs) (drop off p)) @ drop (length xs) (drop off p)"
    by (simp add: copy_at_def subspan_def add.commute)
  then show ?thesis using xor_cyclic_block [OF assms] xor_to_split [of xs "drop off p"] by simp
qed

lemma parity_head_cyclic:
  assumes "po < length p" "parity_head po d p = (d', p')"
  shows "xor_cyclic po d p = xor_cyclic 0 d' p' \<and> length p' = length p"
proof (cases "po = 0")
  case True
  then show ?thesis using assms by (simp add: parity_head_def)
next
  case False
  let ?n = "min (length d) (length p - po)"
  have s: "length (subspan d 0 ?n) = ?n" "length (subspan d 0 ?n) \<le> length p - po" by (simp_all add: subspan_def)
  have p': "p' = xor_cyclic po (subspan d 0 ?n) p" and d': "d' = drop ?n d"
    using assms(2) False copy_at_xor_to [OF assms(1) s(2)] s(1)
    by (simp_all add: parity_head_def Let_def)
  have "xor_cyclic po d p = xor_cyclic po (subspan d 0 ?n @ drop ?n d) p" by (simp add: subspan_def)
  also have "\<dots> = xor_cyclic (po + ?n) d' p'" using s(1) by (simp add: xor_cyclic_append p' d')
  also have "\<dots> = xor_cyclic 0 d' p'"
  proof (cases "length d \<le> length p - po")
    case True
    then show ?thesis by (simp add: d')
  next
    case False
    then have "(po + ?n) mod length p' = 0" using assms(1) by (simp add: p')
    then show ?thesis by (intro xor_cyclic_mod) simp
  qed
  finally show ?thesis by (simp add: p')
qed

lemma parity_loop_cyclic:
  assumes "p \<noteq> []"
  shows "\<exists>d' p'. parity_loop d p = (d', p') \<and> xor_cyclic 0 d p = xor_cyclic 0 d' p' \<and>
    length d' < length p' \<and> length p' = length p"
  using assms
proof (induction d p rule: parity_loop.induct)
  case (1 d p)
  show ?case
  proof (cases "length d < length p")
    case True
    then show ?thesis by (simp add: parity_loop.simps)
  next
    case False
    let ?d = "drop (length p) d" and ?p = "xor_to (take (length p) d) p"
    have p: "?p = xor_cyclic 0 (take (length p) d) p"
      using 1(2) xor_cyclic_block [of 0 p "take (length p) d"] by simp
    have "?p \<noteq> []" using 1(2) by (metis length_0_conv length_xor_to)
    then obtain d' p' where r: "parity_loop ?d ?p = (d', p')" "xor_cyclic 0 ?d ?p = xor_cyclic 0 d' p'"
      "length d' < length p'" "length p' = length ?p"
      using 1 False by blast
    have "xor_cyclic 0 d p = xor_cyclic 0 (take (length p) d @ ?d) p" by simp
    also have "\<dots> = xor_cyclic (length p) ?d ?p" using False by (simp only: xor_cyclic_append p) simp
    also have "\<dots> = xor_cyclic 0 ?d ?p" by (intro xor_cyclic_mod) simp
    finally show ?thesis using r False 1(2) by (subst parity_loop.simps) auto
  qed
qed

lemma parity_tail_cyclic:
  assumes "length d < length p"
  shows "parity_tail (d, p) = xor_cyclic 0 d p"
proof -
  have "0 < length p" using assms by linarith
  then show ?thesis using assms copy_at_xor_to [of 0 p d] by (auto simp: parity_tail_def)
qed

lemma parity_words:
  assumes "po < length p"
  shows "parity_tail (case parity_head po d p of (d', p') \<Rightarrow> parity_loop d' p') = xor_cyclic po d p"
proof -
  obtain d' p' where h: "parity_head po d p = (d', p')" by fastforce
  note hc = parity_head_cyclic [OF assms h]
  then have "p' \<noteq> []" using assms by auto
  from parity_loop_cyclic [OF this, of d'] obtain d'' p'' where
    "parity_loop d' p' = (d'', p'')" "xor_cyclic 0 d' p' = xor_cyclic 0 d'' p''" "length d'' < length p''" by blast
  with h hc show ?thesis by (simp add: parity_tail_cyclic)
qed

subsection \<open>The word loop is the byte loop\<close>

lemma bytes_of_xor_cyclic:
  assumes "p \<noteq> []"
  shows "bytes_of 8 (xor_cyclic off ws (p :: 64 word list)) = xor_cyclic (8 * off) (bytes_of 8 ws) (bytes_of 8 p)"
  using assms
proof (induction ws arbitrary: off p)
  case (Cons w ws)
  let ?o = "off mod length p" and ?p = "p[off mod length p := w XOR p ! (off mod length p)]"
  have o: "?o < length p" using Cons.prems by simp
  have w: "xor_cyclic ?o [w] p = ?p" using o by simp
  have "xor_cyclic ?o [w] p = take ?o p @ xor_to [w] (drop ?o p)" using o by (intro xor_cyclic_block) auto
  then have "bytes_of 8 ?p = bytes_of 8 (take ?o p) @ xor_to (le_bytes 8 w) (bytes_of 8 (drop ?o p))"
    using o bytes_of_xor_to [of "[w]" "drop ?o p" 8] w by (simp add: bytes_of_Cons)
  also have "\<dots> = take (8 * ?o) (bytes_of 8 p) @ xor_to (le_bytes 8 w) (drop (8 * ?o) (bytes_of 8 p))"
    by (simp add: take_bytes_of drop_bytes_of)
  also have "\<dots> = xor_cyclic (8 * ?o) (le_bytes 8 w) (bytes_of 8 p)"
    using o by (intro xor_cyclic_block [symmetric]) auto
  also have "\<dots> = xor_cyclic (8 * off) (le_bytes 8 w) (bytes_of 8 p)"
    by (intro xor_cyclic_mod) (simp only: mult_mod_right length_bytes_of mod_mod_trivial)
  finally have step: "bytes_of 8 ?p = xor_cyclic (8 * off) (le_bytes 8 w) (bytes_of 8 p)" .
  have "bytes_of 8 (xor_cyclic (Suc off) ws ?p) = xor_cyclic (8 * Suc off) (bytes_of 8 ws) (bytes_of 8 ?p)"
    using Cons.prems by (intro Cons.IH) simp
  then show ?case by (simp add: step bytes_of_Cons xor_cyclic_append add.commute)
qed simp

lemma parity_to_cyclic:
  assumes "8 dvd off" "8 dvd da" "8 dvd pa" "8 dvd length data" "8 dvd length parity" "parity \<noteq> []"
  shows "parity_to da data pa parity off = Some (xor_cyclic off data parity)"
proof -
  let ?d = "words_of 8 data :: 64 word list" and ?p = "words_of 8 parity :: 64 word list"
  let ?po = "(off mod length parity) div 8"
  have b: "bytes_of 8 ?d = data" "bytes_of 8 ?p = parity" using assms by (simp_all add: bytes_of_words_of)
  have l: "length ?p = length parity div 8" by (simp add: length_words_of)
  have m: "8 dvd off mod length parity" using assms by (simp add: dvd_mod)
  then have po: "8 * ?po = off mod length parity" by (rule dvd_mult_div_cancel)
  have "off mod length parity < length parity" using assms(6) by simp
  then have lt: "?po < length ?p"
    unfolding l by (intro div_less_mono) (use assms(5) m in \<open>simp_all only: dvd_eq_mod_eq_0 zero_less_numeral\<close>)
  then have ne: "?p \<noteq> []" by auto
  have "bytes_of 8 (xor_cyclic ?po ?d ?p) = xor_cyclic (off mod length parity) data parity"
    unfolding bytes_of_xor_cyclic [OF ne] b po ..
  also have "\<dots> = xor_cyclic off data parity" by (intro xor_cyclic_mod) simp
  finally have e: "bytes_of 8 (xor_cyclic ?po ?d ?p) = xor_cyclic off data parity" .
  have "to_span_of 8 da data = Some ?d" "to_span_of 8 pa parity = Some ?p"
    using assms by (simp_all only: to_span_of_eq if_True simp_thms)
  moreover have "expects (off mod 8 = 0) = Some ()" "expects (parity \<noteq> []) = Some ()"
    using assms(1,6) by (simp_all only: dvd_eq_mod_eq_0 expects_True simp_thms)
  ultimately show ?thesis
    by (simp only: parity_to_def Let_def parity_words [OF lt] e bind.simps option.simps Option.bind.simps)
qed

lemma parity_renew_cyclic:
  assumes "8 dvd da" "8 dvd pa" "8 dvd length data" "8 dvd length parity" "parity \<noteq> []"
  shows "parity_renew da data pa parity = Some (xor_cyclic 0 data (replicate (length parity) 0))"
proof -
  let ?p = "words_of 8 parity :: 64 word list"
  have z: "le_bytes 8 (0 :: 64 word) = replicate 8 0" by (intro nth_equalityI) (auto simp: le_bytes_def)
  have "fill_stl ws (0 :: 64 word) = replicate (length ws) 0" for ws
    by (simp add: fill_stl_def map_replicate_const)
  moreover have "bytes_of 8 (replicate n (0 :: 64 word)) = replicate (8 * n) 0" for n
    by (induction n) (simp_all add: bytes_of_Cons z replicate_add [symmetric])
  ultimately have "bytes_of 8 (fill_stl ?p 0) = replicate (length parity) 0"
    using assms(4) by (simp add: length_words_of)
  then show ?thesis
    using assms parity_to_cyclic [of 0 da pa data "replicate (length parity) 0"]
    by (simp add: parity_renew_def to_span_of_eq)
qed

subsection \<open>Columns\<close>

text \<open>\<open>col S j off xs\<close> is the XOR of the elements of \<open>xs\<close> whose position, counted from \<open>off\<close>, is \<open>j\<close>
  modulo the strip size: the byte \<open>j\<close> of the parity strip.\<close>

fun col :: "nat \<Rightarrow> nat \<Rightarrow> nat \<Rightarrow> 'a::len word list \<Rightarrow> 'a word" where
  "col S j off [] = 0"
| "col S j off (x # xs) = (if off mod S = j then x else 0) XOR col S j (Suc off) xs"

definition parity_of :: "nat \<Rightarrow> 'a::len word list \<Rightarrow> 'a word list" where
  "parity_of S xs = map (\<lambda>j. col S j 0 xs) [0..<S]"

lemma nth_xor_cyclic:
  "j < length p \<Longrightarrow> xor_cyclic off xs p ! j = p ! j XOR col (length p) j off xs"
  by (induction off xs p rule: xor_cyclic.induct) (auto simp: nth_list_update xor.assoc xor.commute xor.left_commute)

lemma col_append: "col S j off (xs @ ys) = col S j off xs XOR col S j (off + length xs) ys"
  by (induction xs arbitrary: off) (auto simp: xor.assoc)

lemma col_mod: "off mod S = off' mod S \<Longrightarrow> col S j off xs = col S j off' xs"
proof (induction xs arbitrary: off off')
  case (Cons x xs)
  have "Suc off mod S = Suc off' mod S" using Cons.prems by (metis mod_Suc_eq)
  then show ?case using Cons.prems Cons.IH [of "Suc off" "Suc off'"] by simp
qed simp

lemma col_xor_to:
  "length xs = length ys \<Longrightarrow> col S j off (xor_to xs ys) = col S j off xs XOR col S j off ys"
  by (induction xs ys arbitrary: off rule: list_induct2) (auto simp: xor.assoc xor.left_commute)

lemma length_parity_of [simp]: "length (parity_of S xs) = S"
  by (simp add: parity_of_def)

lemma parity_of_cyclic: "xor_cyclic 0 xs (replicate S 0) = parity_of S xs"
  by (intro nth_equalityI) (simp_all add: nth_xor_cyclic parity_of_def)

lemma parity_renew_eq:
  assumes "8 dvd da" "8 dvd pa" "8 dvd length data" "8 dvd length parity" "parity \<noteq> []"
  shows "parity_renew da data pa parity = Some (parity_of (length parity) data)"
  using parity_renew_cyclic [OF assms] by (simp add: parity_of_cyclic)

text \<open>
  \<open>parity_renew\<close> of aligned buffers yields the parity of the data: byte \<open>j\<close> is the XOR of the
  bytes \<open>j\<close> of all its strips.  The 64-bit loop, whatever the lengths, is the byte-wise XOR.
\<close>

theorem parity_renew_correct:
  assumes "8 dvd da" "8 dvd pa" "8 dvd length data" "8 dvd length parity" "parity \<noteq> []"
  shows "parity_renew da data pa parity = Some (parity_of (length parity) data)"
  by (rule parity_renew_eq [OF assms])

lemma parity_rmw_eq:
  assumes "8 dvd off" "8 dvd length new" "8 dvd da" "8 dvd pa" "8 dvd S" "0 < S"
    and "off + length new \<le> length data"
  shows "parity_to da (xor_to new (subspan data off (length new))) pa (parity_of S data) (off mod S) =
    Some (parity_of S (copy_at data off new))"
proof -
  let ?old = "subspan data off (length new)" and ?rest = "drop (off + length new) data"
  let ?n = "length new"
  have data: "data = take off data @ ?old @ ?rest"
    unfolding subspan_def by (metis append_take_drop_id drop_drop add.commute)
  have lo: "length ?old = ?n" "length (take off data) = off" using assms(7) by simp_all
  have cd: "col S j 0 data = col S j 0 (take off data) XOR (col S j off ?old XOR col S j (off + ?n) ?rest)" for j
    using lo by (subst data) (simp only: col_append add_0)
  have cc: "col S j 0 (copy_at data off new) = col S j 0 (take off data) XOR (col S j off new XOR col S j (off + ?n) ?rest)" for j
    using lo by (simp only: copy_at_def col_append add_0)
  have "8 dvd off mod S" using assms by (simp add: dvd_mod)
  then have "parity_to da (xor_to new ?old) pa (parity_of S data) (off mod S) =
      Some (xor_cyclic (off mod S) (xor_to new ?old) (parity_of S data))"
    using assms lo by (intro parity_to_cyclic) (auto simp flip: length_0_conv)
  also have "xor_cyclic (off mod S) (xor_to new ?old) (parity_of S data) = parity_of S (copy_at data off new)"
  proof (rule nth_equalityI)
    fix j assume "j < length (xor_cyclic (off mod S) (xor_to new ?old) (parity_of S data))"
    then have j: "j < S" by simp
    have "xor_cyclic (off mod S) (xor_to new ?old) (parity_of S data) ! j =
        col S j 0 data XOR col S j (off mod S) (xor_to new ?old)"
      using j by (simp add: nth_xor_cyclic parity_of_def)
    also have "col S j (off mod S) (xor_to new ?old) = col S j off new XOR col S j off ?old"
      using lo by (simp add: col_mod [of "off mod S" S off] col_xor_to)
    finally show "xor_cyclic (off mod S) (xor_to new ?old) (parity_of S data) ! j = parity_of S (copy_at data off new) ! j"
      using j by (simp add: parity_of_def cd cc xor.assoc xor.commute xor.left_commute)
  qed simp
  finally show ?thesis .
qed

text \<open>
  C14. The read-modify-write update of a parity strip: XOR-ing into the old parity, from the offset
  of the write on, the XOR of old and new data gives the parity of the updated stripe.
\<close>

theorem parity_rmw_correct:
  assumes "8 dvd off" "8 dvd length new" "8 dvd da" "8 dvd pa" "8 dvd S" "0 < S"
    and "off + length new \<le> length data"
  shows "parity_to da (xor_to new (subspan data off (length new))) pa (parity_of S data) (off mod S) =
    Some (parity_of S (copy_at data off new))"
  by (rule parity_rmw_eq [OF assms])

theorem parity_renew_correct_witness:
  "parity_renew 0 (replicate 16 3 @ replicate 16 5 @ replicate 16 7) 512 (replicate 16 9) = Some (replicate 16 1)"
proof -
  have "parity_of 16 (replicate 16 3 @ replicate 16 5 @ replicate 16 (7 :: byte)) = replicate 16 1"
    by code_simp
  then show ?thesis
    using parity_renew_correct [of 0 512 "replicate 16 3 @ replicate 16 5 @ replicate 16 7" "replicate 16 9"] by simp
qed

theorem parity_rmw_correct_witness:
  "parity_to 8 (xor_to (replicate 8 4) (replicate 8 5)) 0 (parity_of 8 (replicate 8 3 @ replicate 8 5)) 0 =
    Some (parity_of 8 (replicate 8 3 @ replicate 8 4))"
  using parity_rmw_correct [of 8 "replicate 8 4" 8 0 8 "replicate 8 3 @ replicate 8 5"]
  by (simp add: subspan_def copy_at_def)

end
