(* ===== verification/Bitset_Locker.thy ===== *)
theory Bitset_Locker
  imports Prelude
begin

text \<open>
  \<open>utils/bitset_locker.hpp\<close>: one lock bit per stripe or chunk, over a bitset that only grows.
\<close>

type_synonym locker = "bool list"

definition bs_resize :: "bool list \<Rightarrow> nat \<Rightarrow> bool list" where
  "bs_resize bs n = take n bs @ replicate (n - length bs) False"

definition lk_extend :: "locker \<Rightarrow> nat \<Rightarrow> locker" where
  "lk_extend lk nr = (if nr > length lk then bs_resize lk nr else lk)"

definition lk_is_locked :: "locker \<Rightarrow> nat \<Rightarrow> bool option" where
  "lk_is_locked lk pos = do { expects (pos < length lk); Some (lk ! pos) }"

definition lk_try_lock :: "locker \<Rightarrow> nat \<Rightarrow> (bool \<times> locker) option" where
  "lk_try_lock lk pos = do { expects (pos < length lk); Some (\<not> lk ! pos, lk[pos := True]) }"

definition lk_unlock :: "locker \<Rightarrow> nat \<Rightarrow> locker option" where
  "lk_unlock lk pos = do { expects (pos < length lk); expects (lk ! pos); Some (lk[pos := False]) }"

definition held :: "locker \<Rightarrow> nat \<Rightarrow> bool" where
  "held lk pos \<longleftrightarrow> pos < length lk \<and> lk ! pos"

lemma length_bs_resize [simp]: "length (bs_resize bs n) = n"
  by (simp add: bs_resize_def)

lemma nth_bs_resize: "i < n \<Longrightarrow> bs_resize bs n ! i = (i < length bs \<and> bs ! i)"
  by (auto simp: bs_resize_def nth_append)

lemma length_lk_extend [simp]: "length (lk_extend lk n) = max (length lk) n"
  by (simp add: lk_extend_def)

lemma held_extend [simp]: "held (lk_extend lk n) pos \<longleftrightarrow> held lk pos"
  by (auto simp: held_def lk_extend_def nth_bs_resize)

lemma lk_try_lock_eq:
  "pos < length lk \<Longrightarrow> lk_try_lock lk pos = Some (\<not> held lk pos, lk[pos := True])"
  by (simp add: lk_try_lock_def held_def)

lemma lk_unlock_eq: "held lk pos \<Longrightarrow> lk_unlock lk pos = Some (lk[pos := False])"
  and lk_unlock_None: "\<not> held lk pos \<Longrightarrow> lk_unlock lk pos = None"
  by (auto simp: lk_unlock_def held_def expects_def)

lemma held_update [simp]:
  "held (lk[pos := b]) p \<longleftrightarrow> (if p = pos then pos < length lk \<and> b else held lk p)"
  by (auto simp: held_def nth_list_update)

text \<open>Locking and unlocking a free position restores the lock word.\<close>

lemma lock_unlock:
  assumes "pos < length lk" "\<not> held lk pos"
  shows "lk_unlock (lk[pos := True]) pos = Some lk"
  using assms by (simp add: lk_unlock_def held_def list_update_same_conv)

end
