(* ===== verification/Acceptor.thy ===== *)
theory Acceptor
  imports Raidsp_Backend Strip_Parity Bitset_Locker
begin

text \<open>
  \<open>ublk/raidsp/acceptor.cpp\<close>: requests to a single-parity array.  A write is cut into stripes.  A
  full stripe is written with freshly computed parity; a partial write of a stripe whose parity is
  known to be coherent reads the old data and parity and updates the parity by the difference; a
  partial write of any other stripe reads the whole stripe, computes its parity anew and marks the
  stripe coherent.

  Queries complete inside their submission here, so requests do not overlap and no write is ever
  queued behind a locked stripe: \<open>acc_complete\<close> is the completer's last branch, unlocking.  The loop
  over pending writes is theory Write_Serializer.

  A completer runs when its query is destroyed, whatever \<open>submit\<close> returned: the continuation of a
  read runs on the error the query carries, not on the return value.  Stripe buffers come from a
  pool aligned to 512 bytes; their addresses are counted from 0, and the content a fresh buffer has
  is taken to be zeros (every use overwrites it).
\<close>

record 'c acceptor =
  acc_be :: "'c raidsp"
  acc_lock :: locker
  acc_coherent :: "bool list"

definition acceptor_create :: "nat \<Rightarrow> 'c option list \<Rightarrow> (nat \<Rightarrow> nat) \<Rightarrow> 'c acceptor option" where
  "acceptor_create strip_sz hs pid =
     map_option (\<lambda>be. \<lparr>acc_be = be, acc_lock = [], acc_coherent = []\<rparr>) (raidsp_create strip_sz hs pid)"

definition is_stripe_parity_coherent :: "'c acceptor \<Rightarrow> nat \<Rightarrow> bool" where
  "is_stripe_parity_coherent acc s \<longleftrightarrow> s < length (acc_coherent acc) \<and> acc_coherent acc ! s"

definition acc_read :: "'c rw_handler \<Rightarrow> 'c acceptor read_fn" where
  "acc_read ops off buf acc = (let D = sp_stripe_data_sz (acc_be acc) in do {
     sq \<leftarrow> subquery buf 0 (length buf);
     (res, e, sq', be) \<leftarrow> sp_data_read ops (off div D) (off mod D) sq (acc_be acc);
     Some (res, merge_err 0 e, copy_at buf 0 sq', acc\<lparr>acc_be := be\<rparr>) })"

subsection \<open>Writing data and parity of a stripe\<close>

text \<open>
  Both return the result of the submission and the errors of the data and the parity query.
\<close>

definition stripe_incoherent_parity_write :: "'c rw_handler \<Rightarrow> nat \<Rightarrow> nat \<times> byte list \<Rightarrow> nat \<times> byte list \<Rightarrow>
    'c acceptor \<Rightarrow> (int \<times> int \<times> int \<times> 'c acceptor) option" where
  "stripe_incoherent_parity_write ops s wqd wqp acc = do {
     (res, ed, ep, be) \<leftarrow> sp_stripe_write ops s wqd wqp (acc_be acc);
     expects (s < length (acc_coherent acc));
     Some (res, ed, ep, acc\<lparr>acc_be := be, acc_coherent := (acc_coherent acc)[s := \<not> (ed \<noteq> 0 \<or> ep \<noteq> 0)]\<rparr>) }"

definition stripe_coherent_parity_write :: "'c rw_handler \<Rightarrow> nat \<Rightarrow> nat \<times> byte list \<Rightarrow> nat \<times> byte list \<Rightarrow>
    'c acceptor \<Rightarrow> (int \<times> int \<times> int \<times> 'c acceptor) option" where
  "stripe_coherent_parity_write ops s wqd wqp acc = do {
     (res, ed, ep, be) \<leftarrow> sp_stripe_write ops s wqd wqp (acc_be acc);
     if ed \<noteq> 0 \<or> ep \<noteq> 0
     then do {
       expects (s < length (acc_coherent acc));
       Some (res, ed, ep, acc\<lparr>acc_be := be, acc_coherent := (acc_coherent acc)[s := False]\<rparr>) }
     else Some (res, ed, ep, acc\<lparr>acc_be := be\<rparr>) }"

definition stripe_write :: "'c rw_handler \<Rightarrow> nat \<Rightarrow> nat \<times> byte list \<Rightarrow> nat \<times> byte list \<Rightarrow>
    'c acceptor \<Rightarrow> (int \<times> int \<times> int \<times> 'c acceptor) option" where
  "stripe_write ops s wqd wqp acc =
     (if is_stripe_parity_coherent acc s then stripe_coherent_parity_write ops s wqd wqp acc
      else stripe_incoherent_parity_write ops s wqd wqp acc)"

text \<open>From here on: the result, the error left on the write query, the new state.\<close>

definition stripe_data_write :: "'c rw_handler \<Rightarrow> nat \<Rightarrow> nat \<times> byte list \<Rightarrow> 'c acceptor \<Rightarrow>
    (int \<times> int \<times> 'c acceptor) option" where
  "stripe_data_write ops s wqd acc = do {
     expects (snd wqd \<noteq> []);
     expects (0 = fst wqd);
     expects (length (snd wqd) = sp_stripe_data_sz (acc_be acc));
     parity \<leftarrow> parity_renew 0 (snd wqd) 0 (replicate (sp_strip_sz (acc_be acc)) 0);
     (res, ed, ep, acc') \<leftarrow> stripe_write ops s wqd (0, parity) acc;
     Some (res, merge_err ed ep, acc') }"

subsection \<open>Partial writes\<close>

definition rmw_parity_done :: "'c rw_handler \<Rightarrow> nat \<Rightarrow> nat \<times> byte list \<Rightarrow> byte list \<Rightarrow> int \<Rightarrow> byte list \<Rightarrow> 'c acceptor \<Rightarrow>
    (int \<times> 'c acceptor) option" where
  "rmw_parity_done ops s wq old e parity acc =
     (if e \<noteq> 0 then Some (e, acc)
      else let D = sp_stripe_data_sz (acc_be acc); delta = xor_to (snd wq) old in do {
        parity' \<leftarrow> parity_to (fst wq) delta D parity (fst wq mod length parity);
        (res, ed, ep, acc') \<leftarrow> stripe_coherent_parity_write ops s wq (0, parity') acc;
        Some (merge_err ed ep, acc') })"

definition rmw_data_done :: "'c rw_handler \<Rightarrow> nat \<Rightarrow> nat \<times> byte list \<Rightarrow> int \<Rightarrow> byte list \<Rightarrow> 'c acceptor \<Rightarrow>
    (int \<times> 'c acceptor) option" where
  "rmw_data_done ops s wq e old acc =
     (if e \<noteq> 0 then Some (e, acc)
      else do {
        (res, ep, parity, be) \<leftarrow> sp_parity_read ops s 0 (replicate (sp_strip_sz (acc_be acc)) 0) (acc_be acc);
        (err, acc') \<leftarrow> rmw_parity_done ops s wq old ep parity (acc\<lparr>acc_be := be\<rparr>);
        Some (if res \<noteq> 0 then res else err, acc') })"

definition renew_data_done :: "'c rw_handler \<Rightarrow> nat \<Rightarrow> nat \<times> byte list \<Rightarrow> int \<Rightarrow> byte list \<Rightarrow> 'c acceptor \<Rightarrow>
    (int \<times> 'c acceptor) option" where
  "renew_data_done ops s wq e data acc =
     (if e \<noteq> 0 then Some (e, acc)
      else let D = sp_stripe_data_sz (acc_be acc) in do {
        part \<leftarrow> copy_stl 0 (snd wq) (fst wq) (subspan data (fst wq) (length (snd wq)));
        let data' = copy_at data (fst wq) part;
        parity \<leftarrow> parity_renew 0 data' D (replicate (sp_strip_sz (acc_be acc)) 0);
        (res, ed, ep, acc') \<leftarrow> stripe_incoherent_parity_write ops s wq (0, parity) acc;
        Some (if res \<noteq> 0 then res else merge_err ed ep, acc') })"

definition acc_process_stripe :: "'c rw_handler \<Rightarrow> nat \<Rightarrow> nat \<times> byte list \<Rightarrow> 'c acceptor \<Rightarrow>
    (int \<times> int \<times> 'c acceptor) option" where
  "acc_process_stripe ops s wq acc = (
     let D = sp_stripe_data_sz (acc_be acc); off = fst wq; n = length (snd wq) in do {
       expects (snd wq \<noteq> []);
       expects (\<not> off + n > D);
       if n < D then
         if acc_coherent acc ! s
         then do {
           (res, e, old, be) \<leftarrow> sp_data_read ops s off (replicate n 0) (acc_be acc);
           (err, acc') \<leftarrow> rmw_data_done ops s wq e old (acc\<lparr>acc_be := be\<rparr>);
           Some (res, err, acc') }
         else do {
           (res, e, data, be) \<leftarrow> sp_data_read ops s 0 (replicate D 0) (acc_be acc);
           (err, acc') \<leftarrow> renew_data_done ops s wq e data (acc\<lparr>acc_be := be\<rparr>);
           Some (res, err, acc') }
       else stripe_data_write ops s wq acc })"

subsection \<open>The loop over stripes\<close>

definition acc_complete :: "nat \<Rightarrow> 'c acceptor \<Rightarrow> 'c acceptor option" where
  "acc_complete s acc = map_option (\<lambda>lk. acc\<lparr>acc_lock := lk\<rparr>) (lk_unlock (acc_lock acc) s)"

function acc_write_loop :: "'c rw_handler \<Rightarrow> byte list \<Rightarrow> nat \<Rightarrow> nat \<Rightarrow> nat \<Rightarrow> int \<Rightarrow> 'c acceptor \<Rightarrow>
    (int \<times> int \<times> 'c acceptor) option" where
  "acc_write_loop ops buf s so wb err acc =
     (if \<not> wb < length buf then Some (0, err, acc)
      else let chunk = min (sp_stripe_data_sz (acc_be acc) - so) (length buf - wb) in do {
        sq \<leftarrow> subquery buf wb chunk;
        (free, lk) \<leftarrow> lk_try_lock (acc_lock acc) s;
        expects free;
        (res, e, acc1) \<leftarrow> acc_process_stripe ops s (so, sq) (acc\<lparr>acc_lock := lk\<rparr>);
        acc2 \<leftarrow> acc_complete s acc1;
        let err' = merge_err err e;
        if res \<noteq> 0 then Some (res, err', acc2)
        else acc_write_loop ops buf (Suc s) 0 (wb + chunk) err' acc2 })"
  by pat_completeness auto

termination
  by (relation "measure (\<lambda>(ops, buf, s, so, wb, err, acc). length buf - wb)")
    (auto simp: subquery_eq split: if_splits)

declare acc_write_loop.simps [simp del]

definition acc_write :: "'c rw_handler \<Rightarrow> 'c acceptor write_fn" where
  "acc_write ops off buf acc = (let D = sp_stripe_data_sz (acc_be acc) in do {
     expects (buf \<noteq> []);
     let lk = lk_extend (acc_lock acc) (strips_round_up (off + length buf) D);
     let acc0 = acc\<lparr>acc_lock := lk, acc_coherent := bs_resize (acc_coherent acc) (length lk)\<rparr>;
     acc_write_loop ops buf (off div D) (off mod D) 0 0 acc0 })"


subsection \<open>Coherent parity\<close>

text \<open>
  \<open>acc_ok\<close>: the disks work, the configuration is consistent, and every stripe marked coherent has
  as its parity strip the XOR of its data strips.
\<close>

definition sp_stripe_data :: "('c \<Rightarrow> byte list) \<Rightarrow> nat \<Rightarrow> nat \<Rightarrow> (nat \<Rightarrow> nat) \<Rightarrow> 'c list \<Rightarrow> nat \<Rightarrow> byte list" where
  "sp_stripe_data content m S pid hs s =
     subspan (sp_full content m S pid hs) (s * (length hs * S)) (S * (length hs - 1))"

definition sp_stripe_parity :: "('c \<Rightarrow> byte list) \<Rightarrow> nat \<Rightarrow> nat \<Rightarrow> (nat \<Rightarrow> nat) \<Rightarrow> 'c list \<Rightarrow> nat \<Rightarrow> byte list" where
  "sp_stripe_parity content m S pid hs s =
     subspan (sp_full content m S pid hs) (s * (length hs * S) + S * (length hs - 1)) S"

definition acc_ok :: "('c \<Rightarrow> bool) \<Rightarrow> ('c \<Rightarrow> byte list) \<Rightarrow> nat \<Rightarrow> nat \<Rightarrow> (nat \<Rightarrow> nat) \<Rightarrow> 'c acceptor \<Rightarrow> bool" where
  "acc_ok good content m S pid acc \<longleftrightarrow>
     (let be = acc_be acc; hs = sp_hs be in
       sp_disks_ok good content m S pid hs \<and> 8 dvd S \<and> sp_strip_sz be = S \<and> sp_pid be = pid \<and>
       sp_stripe_data_sz be = S * (length hs - 1) \<and>
       (\<forall>s < m. is_stripe_parity_coherent acc s \<longrightarrow>
          sp_stripe_parity content m S pid hs s = parity_of S (sp_stripe_data content m S pid hs s)))"

definition acc_idle :: "('c \<Rightarrow> bool) \<Rightarrow> ('c \<Rightarrow> byte list) \<Rightarrow> nat \<Rightarrow> nat \<Rightarrow> (nat \<Rightarrow> nat) \<Rightarrow> 'c acceptor \<Rightarrow> bool" where
  "acc_idle good content m S pid acc \<longleftrightarrow> acc_ok good content m S pid acc \<and> (\<forall>t. \<not> held (acc_lock acc) t)"

definition acc_data :: "('c \<Rightarrow> byte list) \<Rightarrow> nat \<Rightarrow> nat \<Rightarrow> (nat \<Rightarrow> nat) \<Rightarrow> 'c acceptor \<Rightarrow> byte list" where
  "acc_data content m S pid acc = sp_data content m S pid (sp_hs (acc_be acc))"

lemma stripe_sizes:
  fixes n S :: nat
  assumes "0 < S" "2 \<le> n"
  shows "n * S = S * (n - 1) + S" "0 < S * (n - 1)" "S \<le> n * S" "S * (n - 1) \<le> n * S"
proof -
  obtain k where "n = Suc k" "0 < k" using assms(2) by (cases n) auto
  then show "n * S = S * (n - 1) + S" "0 < S * (n - 1)" "S \<le> n * S" "S * (n - 1) \<le> n * S"
    using assms(1) by (simp_all add: mult.commute)
qed

lemma length_sp_stripe_data:
  assumes "0 < S" "2 \<le> length hs" "s < m"
  shows "length (sp_stripe_data content m S pid hs s) = S * (length hs - 1)"
proof -
  have "s * (length hs * S) + S * (length hs - 1) \<le> length (sp_full content m S pid hs)"
    unfolding length_sp_full mult.assoc
    using strip_bound [OF assms(3), of "length hs * S"] stripe_sizes(4) [OF assms(1,2)] by linarith
  then show ?thesis by (simp add: sp_stripe_data_def)
qed

text \<open>The effect of writing data and parity of one stripe on the stripes and on the data.\<close>

lemma stripe_update:
  fixes S n m :: nat
  defines "T \<equiv> n * S" and "D \<equiv> S * (n - 1)"
  assumes S: "0 < S" "2 \<le> n" and F: "length F = m * T" and s: "s < m"
    and b: "off + length buf \<le> D" and p: "length par = S"
    and F': "F' = copy_at (copy_at F (s * T + off) buf) (s * T + D) par"
  shows "length F' = length F"
    and "subspan F' (s * T) D = copy_at (subspan F (s * T) D) off buf"
    and "subspan F' (s * T + D) S = par"
    and "s' \<noteq> s \<Longrightarrow> subspan F' (s' * T) D = subspan F (s' * T) D"
    and "s' \<noteq> s \<Longrightarrow> subspan F' (s' * T + D) S = subspan F (s' * T + D) S"
    and "volume D (\<lambda>s. 0) (\<lambda>s. s * T) m [F'] = copy_at (volume D (\<lambda>s. 0) (\<lambda>s. s * T) m [F]) (s * D + off) buf"
proof -
  have T: "T = D + S" "0 < D" using stripe_sizes [OF S] by (simp_all add: T_def D_def)
  let ?F1 = "copy_at F (s * T + off) buf"
  have sT: "s * T + T \<le> m * T" by (rule strip_bound [OF s])
  have l1: "s * T + off + length buf \<le> length F" using sT b F T by linarith
  have lF1: "length ?F1 = length F" by (rule length_copy_at [OF l1])
  have l2: "s * T + D + length par \<le> length ?F1" using sT p F T lF1 by linarith
  show lF': "length F' = length F" using length_copy_at [OF l2] lF1 F' by simp
  show "subspan F' (s * T + D) S = par" using l2 p F' by simp
  have "subspan F' (s * T) D = subspan ?F1 (s * T) D"
    unfolding F' by (rule subspan_copy_at_before [OF l2]) simp
  also have "\<dots> = copy_at (subspan F (s * T) D) off buf"
    by (rule subspan_copy_at_inside [OF b]) (use sT F T in linarith)
  finally show "subspan F' (s * T) D = copy_at (subspan F (s * T) D) off buf" .
  have other: "subspan F' (s' * T + j) n' = subspan F (s' * T + j) n'" if "s' \<noteq> s" "j + n' \<le> T" for j n'
  proof (cases "s' < s")
    case True
    then have "s' * T + T \<le> s * T" by (rule strip_bound)
    then have "s' * T + j + n' \<le> s * T + D" "s' * T + j + n' \<le> s * T + off" using that(2) by linarith+
    then show ?thesis unfolding F' using subspan_copy_at_before [OF l2] subspan_copy_at_before [OF l1] by metis
  next
    case False
    then have "s * T + T \<le> s' * T" using that(1) by (intro strip_bound) simp
    then have "s * T + D + length par \<le> s' * T + j" "s * T + off + length buf \<le> s' * T + j"
      using b p T by linarith+
    then show ?thesis unfolding F' using subspan_copy_at_after [OF l2] subspan_copy_at_after [OF l1] by metis
  qed
  show "s' \<noteq> s \<Longrightarrow> subspan F' (s' * T) D = subspan F (s' * T) D" using other [of 0 D] T by simp
  show "s' \<noteq> s \<Longrightarrow> subspan F' (s' * T + D) S = subspan F (s' * T + D) S" using other [of D S] T by simp
  have placed: "placed D (\<lambda>s. 0) (\<lambda>s. s * T) m [G]" if "length G = m * T" for G :: "'a list"
  proof -
    have "k * T + D \<le> m * T" if "k < m" for k using strip_bound [OF that, of T] T by linarith
    then show ?thesis using T that by (auto simp: placed_def intro: strips_apart)
  qed
  have "volume D (\<lambda>s. 0) (\<lambda>s. s * T) m [?F1] = copy_at (volume D (\<lambda>s. 0) (\<lambda>s. s * T) m [F]) (s * D + off) buf"
    using volume_write_strip [OF placed [OF F] s b] by simp
  moreover have "volume D (\<lambda>s. 0) (\<lambda>s. s * T) m [F'] = volume D (\<lambda>s. 0) (\<lambda>s. s * T) m [?F1]"
  proof -
    have "apart (k * T) D (s * T + D) (length par)" for k
      using strip_bound [of k s T] strip_bound [of s k T] T(1) p by (cases "k = s") (auto simp: apart_def neq_iff)
    then show ?thesis
      using volume_write_outside [OF placed [of ?F1], of "s * T + D" par 0] l2 lF1 F F' by simp
  qed
  ultimately show "volume D (\<lambda>s. 0) (\<lambda>s. s * T) m [F'] = copy_at (volume D (\<lambda>s. 0) (\<lambda>s. s * T) m [F]) (s * D + off) buf"
    by simp
qed

definition sp_cfg :: "('c \<Rightarrow> bool) \<Rightarrow> ('c \<Rightarrow> byte list) \<Rightarrow> nat \<Rightarrow> nat \<Rightarrow> (nat \<Rightarrow> nat) \<Rightarrow> nat \<Rightarrow> 'c raidsp \<Rightarrow> bool" where
  "sp_cfg good content m S pid n be \<longleftrightarrow> sp_disks_ok good content m S pid (sp_hs be) \<and> length (sp_hs be) = n \<and>
     sp_strip_sz be = S \<and> sp_pid be = pid \<and> sp_stripe_data_sz be = S * (n - 1)"

lemma sp_cfg_update:
  "sp_cfg good content m S pid n be \<Longrightarrow> sp_disks_ok good content m S pid hs \<Longrightarrow> length hs = n \<Longrightarrow>
    sp_cfg good content m S pid n (be\<lparr>sp_hs := hs\<rparr>)"
  by (simp add: sp_cfg_def)

lemma acc_ok_cfg:
  "acc_ok good content m S pid acc \<longleftrightarrow> 8 dvd S \<and> sp_cfg good content m S pid (length (sp_hs (acc_be acc))) (acc_be acc) \<and>
    (\<forall>s < m. is_stripe_parity_coherent acc s \<longrightarrow>
       sp_stripe_parity content m S pid (sp_hs (acc_be acc)) s = parity_of S (sp_stripe_data content m S pid (sp_hs (acc_be acc)) s))"
  by (auto simp: acc_ok_def sp_cfg_def Let_def)

context block_dev
begin

lemma sp_data_read_ok:
  assumes cfg: "sp_cfg good content m S pid n be" and off: "off < S * (n - 1)" and ne: "buf \<noteq> []"
    and le: "s * (S * (n - 1)) + off + length buf \<le> m * (S * (n - 1))"
  shows "\<exists>hs'. sp_data_read ops s off buf be =
      Some (0, 0, subspan (sp_data content m S pid (sp_hs be)) (s * (S * (n - 1)) + off) (length buf), be\<lparr>sp_hs := hs'\<rparr>) \<and>
    sp_cfg good content m S pid n (be\<lparr>sp_hs := hs'\<rparr>) \<and> sp_bytes m S pid hs' = sp_bytes m S pid (sp_hs be)"
proof -
  from cfg have c: "sp_good m S pid (sp_hs be)" "sp_strip_sz be = S" "sp_pid be = pid" "length (sp_hs be) = n"
    "sp_stripe_data_sz be = S * (length (sp_hs be) - 1)" by (auto simp: sp_cfg_def)
  have le': "s * (S * (length (sp_hs be) - 1)) + off + (length buf - 0) \<le> m * (S * (length (sp_hs be) - 1))"
    using le c(4) by simp
  from sp_data_read_loop_ok [OF c(1-3,5) off [folded c(4)] le0 refl le'] obtain hs' where
    r: "sp_data_read_loop ops be (length buf) s off 0 0 buf (sp_hs be) =
      Some (0, 0, copy_at buf 0 (subspan (sp_data content m S pid (sp_hs be)) (s * (S * (n - 1)) + off) (length buf)), hs')"
    "sp_good m S pid hs'" "length hs' = n" "sp_bytes m S pid hs' = sp_bytes m S pid (sp_hs be)"
    unfolding c(4) by auto
  have "length (subspan (sp_data content m S pid (sp_hs be)) (s * (S * (n - 1)) + off) (length buf)) = length buf"
    using le c(4) by (simp add: sp_data_def)
  then show ?thesis using r off ne c(4,5) sp_cfg_update [OF cfg r(2,3)]
    by (intro exI [of _ hs']) (simp add: sp_data_read_def)
qed

lemma sp_data_read_stripe:
  assumes cfg: "sp_cfg good content m S pid n be" and s: "s < m" and ne: "buf \<noteq> []"
    and le: "off + length buf \<le> S * (n - 1)"
  shows "\<exists>hs'. sp_data_read ops s off buf be =
      Some (0, 0, subspan (sp_bytes m S pid (sp_hs be)) (s * (n * S) + off) (length buf), be\<lparr>sp_hs := hs'\<rparr>) \<and>
    sp_cfg good content m S pid n (be\<lparr>sp_hs := hs'\<rparr>) \<and> sp_bytes m S pid hs' = sp_bytes m S pid (sp_hs be)"
proof -
  have n: "length (sp_hs be) = n" "0 < S" "2 \<le> length (sp_hs be)" using cfg by (auto simp: sp_cfg_def sp_disks_ok_def)
  have "off < S * (n - 1)" using le ne by (cases buf) auto
  moreover have "s * (S * (n - 1)) + off + length buf \<le> m * (S * (n - 1))"
    using strip_bound [OF s, of "S * (n - 1)"] le by linarith
  moreover have "subspan (sp_data content m S pid (sp_hs be)) (s * (S * (n - 1)) + off) (length buf) =
      subspan (sp_bytes m S pid (sp_hs be)) (s * (n * S) + off) (length buf)"
    using volume_read_strip [OF sp_data_placed [OF n(2,3)] s, where j = off and sz = "length buf"] le n(1)
    by (simp add: sp_data_def)
  ultimately show ?thesis using sp_data_read_ok [OF cfg _ ne, of off s] by simp
qed

lemma sp_parity_read_ok:
  assumes cfg: "sp_cfg good content m S pid n be" and s: "s < m" and l: "length buf = S"
  shows "\<exists>hs'. sp_parity_read ops s 0 buf be =
      Some (0, 0, subspan (sp_bytes m S pid (sp_hs be)) (s * (n * S) + S * (n - 1)) S, be\<lparr>sp_hs := hs'\<rparr>) \<and>
    sp_cfg good content m S pid n (be\<lparr>sp_hs := hs'\<rparr>) \<and> sp_bytes m S pid hs' = sp_bytes m S pid (sp_hs be)"
proof -
  from cfg have c: "sp_good m S pid (sp_hs be)" "sp_strip_sz be = S" "sp_pid be = pid" "length (sp_hs be) = n"
    "0 < S" "2 \<le> n" "pid s < n" by (auto simp: sp_cfg_def sp_disks_ok_def)
  have e: "n - 1 < length (sp_hs be)" using c(4,6) by simp
  have i: "pid s = sp_disk (length (sp_hs be)) pid (s * length (sp_hs be) + (n - 1))"
    unfolding sp_disk_def Let_def sp_strip_index [OF e] unfolding c(4) by simp
  have sq: "subquery buf 0 (min S (length buf)) = Some buf" "buf \<noteq> []" "0 + length buf \<le> S"
    using l c(5) subspan_whole [OF l [symmetric]] by (auto simp: subquery_eq)
  from sp_read_strip [OF c(1) s e i sq(3,2)] obtain h where
    h: "submit_rd ops (s * S) buf (sp_hs be ! pid s) =
      Some (0, 0, subspan (sp_bytes m S pid (sp_hs be)) ((s * n + (n - 1)) * S) S, h)"
    "sp_good m S pid ((sp_hs be)[pid s := h])" "sp_bytes m S pid ((sp_hs be)[pid s := h]) = sp_bytes m S pid (sp_hs be)"
    unfolding l c(4) by auto
  have a: "(s * n + (n - 1)) * S = s * (n * S) + S * (n - 1)"
    by (simp only: add_mult_distrib mult.assoc mult.commute [of "n - 1" S])
  have "s * (n * S) + S * (n - 1) + S \<le> length (sp_bytes m S pid (sp_hs be))"
    using strip_bound [OF s, of "n * S"] stripe_sizes(1) [OF c(5,6)] c(4) by (simp add: length_sp_full mult.assoc)
  then have "length (subspan (sp_bytes m S pid (sp_hs be)) (s * (n * S) + S * (n - 1)) S) = S" by simp
  then show ?thesis using h sq c(2-4,7) l sp_cfg_update [OF cfg h(2)] unfolding a
    by (intro exI [of _ "(sp_hs be)[pid s := h]"]) (simp add: sp_parity_read_def Let_def)
qed

text \<open>Writing the parity that belongs to the new data of a stripe.\<close>

lemma stripe_write_effect:
  assumes ok: "acc_ok good content m S pid acc" and s: "s < m" and coh: "s < length (acc_coherent acc)"
    and buf: "buf \<noteq> []" "off + length buf \<le> sp_stripe_data_sz (acc_be acc)"
    and par: "par = parity_of S (copy_at (sp_stripe_data content m S pid (sp_hs (acc_be acc)) s) off buf)"
    and w: "write = stripe_coherent_parity_write \<and> is_stripe_parity_coherent acc s \<or> write = stripe_incoherent_parity_write"
  shows "\<exists>acc'. write ops s (off, buf) (0, par) acc = Some (0, 0, 0, acc') \<and> acc_ok good content m S pid acc' \<and>
    acc_lock acc' = acc_lock acc \<and> length (acc_coherent acc') = length (acc_coherent acc) \<and>
    is_stripe_parity_coherent acc' s \<and> sp_stripe_data_sz (acc_be acc') = sp_stripe_data_sz (acc_be acc) \<and>
    length (acc_data content m S pid acc') = length (acc_data content m S pid acc) \<and>
    acc_data content m S pid acc' = copy_at (acc_data content m S pid acc) (s * sp_stripe_data_sz (acc_be acc) + off) buf"
proof -
  let ?be = "acc_be acc" let ?hs = "sp_hs ?be" let ?n = "length ?hs" and ?F = "sp_bytes m S pid ?hs"
  from ok have cfg: "sp_cfg good content m S pid ?n ?be" and S8: "8 dvd S" by (simp_all add: acc_ok_cfg)
  from cfg have c: "sp_good m S pid ?hs" "sp_strip_sz ?be = S" "sp_pid ?be = pid" "sp_stripe_data_sz ?be = S * (?n - 1)"
    "0 < S" "2 \<le> ?n" by (auto simp: sp_cfg_def sp_disks_ok_def)
  have b: "off + length buf \<le> S * (?n - 1)" using buf(2) c(4) by simp
  have lp: "length par = S" by (simp add: par)
  from sp_stripe_write_ok [OF c(1-4) s buf(1) b lp] obtain hs' where
    r: "sp_stripe_write ops s (off, buf) (0, par) ?be = Some (0, 0, 0, ?be\<lparr>sp_hs := hs'\<rparr>)"
    "sp_good m S pid hs'" "length hs' = ?n"
    "sp_bytes m S pid hs' = copy_at (copy_at ?F (s * (?n * S) + off) buf) (s * (?n * S) + S * (?n - 1)) par" by blast
  have lF: "length ?F = m * (?n * S)" by (simp add: length_sp_full mult.assoc)
  note u = stripe_update [OF c(5,6) lF s b lp r(4)]
  let ?coh = "(acc_coherent acc)[s := True]"
  let ?acc = "acc\<lparr>acc_be := ?be\<lparr>sp_hs := hs'\<rparr>, acc_coherent := ?coh\<rparr>"
  have run: "write ops s (off, buf) (0, par) acc = Some (0, 0, 0, ?acc)"
    using w
  proof
    assume w: "write = stripe_coherent_parity_write \<and> is_stripe_parity_coherent acc s"
    then have "?coh = acc_coherent acc" by (simp add: is_stripe_parity_coherent_def list_update_same_conv)
    then have "?acc = acc\<lparr>acc_be := ?be\<lparr>sp_hs := hs'\<rparr>\<rparr>" by simp
    then show ?thesis using w r(1) by (simp add: stripe_coherent_parity_write_def)
  next
    assume "write = stripe_incoherent_parity_write"
    then show ?thesis using r(1) coh by (simp add: stripe_incoherent_parity_write_def)
  qed
  have "sp_stripe_parity content m S pid hs' s' = parity_of S (sp_stripe_data content m S pid hs' s')"
    if s': "s' < m" "is_stripe_parity_coherent ?acc s'" for s'
  proof (cases "s' = s")
    case True
    then show ?thesis using u(2,3) par r(3) by (simp add: sp_stripe_parity_def sp_stripe_data_def)
  next
    case False
    then have "is_stripe_parity_coherent acc s'" using s'(2) by (simp add: is_stripe_parity_coherent_def)
    then have "sp_stripe_parity content m S pid ?hs s' = parity_of S (sp_stripe_data content m S pid ?hs s')"
      using ok s'(1) by (simp add: acc_ok_cfg)
    then show ?thesis using u(4,5) [OF False] r(3) by (simp add: sp_stripe_parity_def sp_stripe_data_def)
  qed
  then have ok': "acc_ok good content m S pid ?acc"
    using S8 sp_cfg_update [OF cfg r(2,3)] r(3) by (simp add: acc_ok_cfg)
  have "acc_data content m S pid ?acc = copy_at (acc_data content m S pid acc) (s * (S * (?n - 1)) + off) buf"
    using u(6) r(3) by (simp add: acc_data_def sp_data_def)
  moreover have "length (acc_data content m S pid ?acc) = length (acc_data content m S pid acc)"
    using r(3) by (simp add: acc_data_def sp_data_def)
  moreover have "is_stripe_parity_coherent ?acc s" using coh by (simp add: is_stripe_parity_coherent_def)
  ultimately show ?thesis using run ok' c(4) by auto
qed

text \<open>A read leaves the disks with the same bytes: nothing the acceptor knows changes.\<close>

lemma acc_ok_reread:
  assumes ok: "acc_ok good content m S pid acc"
    and cfg: "sp_cfg good content m S pid (length (sp_hs (acc_be acc))) ((acc_be acc)\<lparr>sp_hs := hs'\<rparr>)"
    and same: "sp_bytes m S pid hs' = sp_bytes m S pid (sp_hs (acc_be acc))"
  defines "acc' \<equiv> acc\<lparr>acc_be := (acc_be acc)\<lparr>sp_hs := hs'\<rparr>\<rparr>"
  shows "acc_ok good content m S pid acc'" "acc_data content m S pid acc' = acc_data content m S pid acc"
    and "sp_stripe_data content m S pid hs' s = sp_stripe_data content m S pid (sp_hs (acc_be acc)) s"
    and "sp_stripe_parity content m S pid hs' s = sp_stripe_parity content m S pid (sp_hs (acc_be acc)) s"
    and "is_stripe_parity_coherent acc' = is_stripe_parity_coherent acc"
proof -
  have l: "length hs' = length (sp_hs (acc_be acc))" using cfg by (simp add: sp_cfg_def)
  show d: "sp_stripe_data content m S pid hs' s = sp_stripe_data content m S pid (sp_hs (acc_be acc)) s"
    and p: "sp_stripe_parity content m S pid hs' s = sp_stripe_parity content m S pid (sp_hs (acc_be acc)) s" for s
    by (simp_all add: sp_stripe_data_def sp_stripe_parity_def same l)
  show c: "is_stripe_parity_coherent acc' = is_stripe_parity_coherent acc"
    by (simp add: fun_eq_iff is_stripe_parity_coherent_def acc'_def)
  show "acc_data content m S pid acc' = acc_data content m S pid acc"
    by (simp add: acc_data_def sp_data_def acc'_def same l)
  have "8 dvd S" "\<forall>s < m. is_stripe_parity_coherent acc s \<longrightarrow>
      sp_stripe_parity content m S pid (sp_hs (acc_be acc)) s = parity_of S (sp_stripe_data content m S pid (sp_hs (acc_be acc)) s)"
    using ok unfolding acc_ok_cfg by blast+
  then show "acc_ok good content m S pid acc'"
    unfolding acc_ok_cfg c using cfg l d p by (simp add: acc'_def)
qed

definition process_result :: "nat \<Rightarrow> nat \<Rightarrow> (nat \<Rightarrow> nat) \<Rightarrow> nat \<Rightarrow> nat \<times> byte list \<Rightarrow> 'c acceptor \<Rightarrow> 'c acceptor \<Rightarrow> bool" where
  "process_result m S pid s wq acc acc' \<longleftrightarrow> acc_ok good content m S pid acc' \<and> acc_lock acc' = acc_lock acc \<and>
     length (acc_coherent acc') = length (acc_coherent acc) \<and> is_stripe_parity_coherent acc' s \<and>
     sp_stripe_data_sz (acc_be acc') = sp_stripe_data_sz (acc_be acc) \<and>
     length (acc_data content m S pid acc') = length (acc_data content m S pid acc) \<and>
     acc_data content m S pid acc' =
       copy_at (acc_data content m S pid acc) (s * sp_stripe_data_sz (acc_be acc) + fst wq) (snd wq)"

lemma process_result_from:
  assumes "acc_lock acc1 = acc_lock acc" "length (acc_coherent acc1) = length (acc_coherent acc)"
    and "sp_stripe_data_sz (acc_be acc1) = sp_stripe_data_sz (acc_be acc)"
    and "acc_data content m S pid acc1 = acc_data content m S pid acc"
  shows "process_result m S pid s wq acc1 acc' \<longleftrightarrow> process_result m S pid s wq acc acc'"
  by (simp only: process_result_def assms)

lemma process_full_stripe:
  assumes ok: "acc_ok good content m S pid acc" and s: "s < m" "s < length (acc_coherent acc)"
    and buf: "length buf = sp_stripe_data_sz (acc_be acc)"
  shows "\<exists>acc'. stripe_data_write ops s (0, buf) acc = Some (0, 0, acc') \<and> process_result m S pid s (0, buf) acc acc'"
proof -
  let ?n = "length (sp_hs (acc_be acc))" and ?sd = "sp_stripe_data content m S pid (sp_hs (acc_be acc)) s"
  from ok have cfg: "sp_cfg good content m S pid ?n (acc_be acc)" and S8: "8 dvd S" by (simp_all add: acc_ok_cfg)
  from cfg have c: "sp_strip_sz (acc_be acc) = S" "sp_stripe_data_sz (acc_be acc) = S * (?n - 1)" "0 < S" "2 \<le> ?n"
    by (auto simp: sp_cfg_def sp_disks_ok_def)
  have ne: "buf \<noteq> []" using buf c(2) stripe_sizes(2) [OF c(3,4)] by auto
  have d8: "8 dvd length buf" using buf c(2) S8 by simp
  have "length ?sd = length buf" using length_sp_stripe_data [OF c(3,4) s(1)] buf c(2) by simp
  then have par: "parity_renew 0 buf 0 (replicate S 0) = Some (parity_of S (copy_at ?sd 0 buf))"
    using parity_renew_eq [of 0 0 buf "replicate S 0"] S8 d8 c(3) by simp
  define W where "W = (if is_stripe_parity_coherent acc s then stripe_coherent_parity_write
      else (stripe_incoherent_parity_write :: 'c rw_handler \<Rightarrow> _))"
  have w: "stripe_write ops s (0, buf) (0, p) acc = W ops s (0, buf) (0, p) acc" for p
    by (simp add: stripe_write_def W_def)
  have wd: "W = stripe_coherent_parity_write \<and> is_stripe_parity_coherent acc s \<or> W = stripe_incoherent_parity_write"
    by (simp add: W_def)
  have "0 + length buf \<le> sp_stripe_data_sz (acc_be acc)" using buf by simp
  from stripe_write_effect [OF ok s ne this refl wd]
  obtain acc' where "stripe_write ops s (0, buf) (0, parity_of S (copy_at ?sd 0 buf)) acc = Some (0, 0, 0, acc')"
    "process_result m S pid s (0, buf) acc acc'"
    unfolding w process_result_def by auto
  then show ?thesis using ne buf par c(1) by (simp add: stripe_data_write_def)
qed

lemma process_rmw:
  assumes ok: "acc_ok good content m S pid acc" and s: "s < m" "is_stripe_parity_coherent acc s"
    and buf: "buf \<noteq> []" "off + length buf \<le> sp_stripe_data_sz (acc_be acc)"
    and al: "8 dvd off" "8 dvd length buf"
  shows "\<exists>old be acc'. sp_data_read ops s off (replicate (length buf) 0) (acc_be acc) = Some (0, 0, old, be) \<and>
    rmw_data_done ops s (off, buf) 0 old (acc\<lparr>acc_be := be\<rparr>) = Some (0, acc') \<and>
    process_result m S pid s (off, buf) acc acc'"
proof -
  let ?be = "acc_be acc" let ?hs = "sp_hs ?be" let ?n = "length ?hs"
  let ?sd = "sp_stripe_data content m S pid ?hs s" and ?F = "sp_bytes m S pid ?hs"
  from ok have cfg: "sp_cfg good content m S pid ?n ?be" and S8: "8 dvd S" by (simp_all add: acc_ok_cfg)
  from cfg have c: "sp_strip_sz ?be = S" "sp_stripe_data_sz ?be = S * (?n - 1)" "0 < S" "2 \<le> ?n"
    by (auto simp: sp_cfg_def sp_disks_ok_def)
  have b: "off + length buf \<le> S * (?n - 1)" using buf(2) c(2) by simp
  have ne: "replicate (length buf) (0 :: byte) \<noteq> []" using buf(1) by simp
  from sp_data_read_stripe [OF cfg s(1) ne, of off] b obtain hs1 where
    r1: "sp_data_read ops s off (replicate (length buf) 0) ?be =
      Some (0, 0, subspan ?F (s * (?n * S) + off) (length buf), ?be\<lparr>sp_hs := hs1\<rparr>)"
    "sp_cfg good content m S pid ?n (?be\<lparr>sp_hs := hs1\<rparr>)" "sp_bytes m S pid hs1 = ?F" by auto
  note k1 = acc_ok_reread [OF ok r1(2,3)]
  let ?acc1 = "acc\<lparr>acc_be := ?be\<lparr>sp_hs := hs1\<rparr>\<rparr>"
  have old: "subspan ?F (s * (?n * S) + off) (length buf) = subspan ?sd off (length buf)"
    using subspan_subspan [OF b, of ?F "s * (?n * S)"] by (simp add: sp_stripe_data_def)
  have n1: "length hs1 = ?n" using r1(2) by (simp add: sp_cfg_def)
  from sp_parity_read_ok [OF r1(2) s(1), of "replicate S 0"] obtain hs2 where
    r2: "sp_parity_read ops s 0 (replicate S 0) (?be\<lparr>sp_hs := hs1\<rparr>) =
      Some (0, 0, subspan (sp_bytes m S pid hs1) (s * (?n * S) + S * (?n - 1)) S, (?be\<lparr>sp_hs := hs1\<rparr>)\<lparr>sp_hs := hs2\<rparr>)"
    "sp_cfg good content m S pid ?n ((?be\<lparr>sp_hs := hs1\<rparr>)\<lparr>sp_hs := hs2\<rparr>)" "sp_bytes m S pid hs2 = sp_bytes m S pid hs1"
    by auto
  let ?acc2 = "?acc1\<lparr>acc_be := (acc_be ?acc1)\<lparr>sp_hs := hs2\<rparr>\<rparr>"
  have e2: "sp_cfg good content m S pid (length (sp_hs (acc_be ?acc1))) ((acc_be ?acc1)\<lparr>sp_hs := hs2\<rparr>)"
    "sp_bytes m S pid hs2 = sp_bytes m S pid (sp_hs (acc_be ?acc1))"
    using r2(2,3) n1 by simp_all
  note k2 = acc_ok_reread [OF k1(1) e2]
  have par: "subspan (sp_bytes m S pid hs1) (s * (?n * S) + S * (?n - 1)) S = parity_of S ?sd"
    using ok s r1(3) by (simp add: acc_ok_cfg sp_stripe_parity_def)
  have lsd: "length ?sd = S * (?n - 1)"
    using length_sp_stripe_data [OF c(3,4) s(1)] .
  have pt: "parity_to off (xor_to buf (subspan ?sd off (length buf))) (S * (?n - 1)) (parity_of S ?sd) (off mod S) =
      Some (parity_of S (copy_at ?sd off buf))"
    using S8 b lsd by (intro parity_rmw_eq al c(3)) auto
  have coh2: "is_stripe_parity_coherent ?acc2 s" using s(2) k1(5) k2(5) by metis
  have len2: "s < length (acc_coherent ?acc2)" using coh2 by (simp add: is_stripe_parity_coherent_def)
  have b2: "off + length buf \<le> sp_stripe_data_sz (acc_be ?acc2)" using b c(2) by simp
  have sd2: "parity_of S (copy_at ?sd off buf) =
      parity_of S (copy_at (sp_stripe_data content m S pid (sp_hs (acc_be ?acc2)) s) off buf)"
    using k1(3) [of s] k2(3) [of s] by simp
  from stripe_write_effect [OF k2(1) s(1) len2 buf(1) b2 sd2, of stripe_coherent_parity_write] coh2
  obtain acc' where w: "stripe_coherent_parity_write ops s (off, buf) (0, parity_of S (copy_at ?sd off buf)) ?acc2 = Some (0, 0, 0, acc')"
    "process_result m S pid s (off, buf) ?acc2 acc'"
    unfolding process_result_def by auto
  have "rmw_data_done ops s (off, buf) 0 (subspan ?sd off (length buf)) ?acc1 = Some (0, acc')"
    using r2(1) par pt w(1) c(1,2) by (simp add: rmw_data_done_def rmw_parity_done_def Let_def)
  moreover have "process_result m S pid s (off, buf) acc acc'"
    using w(2) process_result_from [of ?acc2 acc] k1(2) k2(2) by simp
  ultimately show ?thesis using r1(1) old by auto
qed

lemma process_renew:
  assumes ok: "acc_ok good content m S pid acc" and s: "s < m" "s < length (acc_coherent acc)"
    and buf: "buf \<noteq> []" "off + length buf \<le> sp_stripe_data_sz (acc_be acc)"
  shows "\<exists>data be acc'. sp_data_read ops s 0 (replicate (sp_stripe_data_sz (acc_be acc)) 0) (acc_be acc) = Some (0, 0, data, be) \<and>
    renew_data_done ops s (off, buf) 0 data (acc\<lparr>acc_be := be\<rparr>) = Some (0, acc') \<and>
    process_result m S pid s (off, buf) acc acc'"
proof -
  let ?be = "acc_be acc" let ?hs = "sp_hs ?be" let ?n = "length ?hs"
  let ?sd = "sp_stripe_data content m S pid ?hs s" and ?F = "sp_bytes m S pid ?hs"
  from ok have cfg: "sp_cfg good content m S pid ?n ?be" and S8: "8 dvd S" by (simp_all add: acc_ok_cfg)
  from cfg have c: "sp_strip_sz ?be = S" "sp_stripe_data_sz ?be = S * (?n - 1)" "0 < S" "2 \<le> ?n"
    by (auto simp: sp_cfg_def sp_disks_ok_def)
  have ne: "replicate (S * (?n - 1)) (0 :: byte) \<noteq> []" using stripe_sizes(2) [OF c(3,4)] by (metis length_0_conv length_replicate less_not_refl)
  from sp_data_read_stripe [OF cfg s(1) ne, of 0] obtain hs1 where
    r1: "sp_data_read ops s 0 (replicate (S * (?n - 1)) 0) ?be = Some (0, 0, ?sd, ?be\<lparr>sp_hs := hs1\<rparr>)"
    "sp_cfg good content m S pid ?n (?be\<lparr>sp_hs := hs1\<rparr>)" "sp_bytes m S pid hs1 = ?F"
    by (auto simp: sp_stripe_data_def)
  note k1 = acc_ok_reread [OF ok r1(2,3)]
  let ?acc1 = "acc\<lparr>acc_be := ?be\<lparr>sp_hs := hs1\<rparr>\<rparr>"
  have lsd: "length ?sd = S * (?n - 1)"
    using length_sp_stripe_data [OF c(3,4) s(1)] .
  have cp: "copy_stl 0 buf off (subspan ?sd off (length buf)) = Some buf"
    using buf(2) c(2) lsd by (simp add: copy_stl_eq)
  have par: "parity_renew 0 (copy_at ?sd off buf) (S * (?n - 1)) (replicate S 0) = Some (parity_of S (copy_at ?sd off buf))"
    using parity_renew_eq [of 0 "S * (?n - 1)" "copy_at ?sd off buf" "replicate S 0"] S8 c(2,3) lsd buf(2) by simp
  have len1: "s < length (acc_coherent ?acc1)" using s(2) by simp
  have b1: "off + length buf \<le> sp_stripe_data_sz (acc_be ?acc1)" using buf(2) by simp
  have sd1: "parity_of S (copy_at ?sd off buf) =
      parity_of S (copy_at (sp_stripe_data content m S pid (sp_hs (acc_be ?acc1)) s) off buf)"
    using k1(3) [of s] by simp
  from stripe_write_effect [OF k1(1) s(1) len1 buf(1) b1 sd1, of stripe_incoherent_parity_write]
  obtain acc' where w: "stripe_incoherent_parity_write ops s (off, buf) (0, parity_of S (copy_at ?sd off buf)) ?acc1 = Some (0, 0, 0, acc')"
    "process_result m S pid s (off, buf) ?acc1 acc'"
    unfolding process_result_def by auto
  have "renew_data_done ops s (off, buf) 0 ?sd ?acc1 = Some (0, acc')"
    using cp par w(1) c(1,2) by (simp add: renew_data_done_def Let_def)
  moreover have "process_result m S pid s (off, buf) acc acc'"
    using w(2) process_result_from [of ?acc1 acc] k1(2) by simp
  ultimately show ?thesis using r1(1) c(2) by auto
qed

lemma acc_process_stripe_ok:
  assumes ok: "acc_ok good content m S pid acc" and s: "s < m" "s < length (acc_coherent acc)"
    and buf: "buf \<noteq> []" "off + length buf \<le> sp_stripe_data_sz (acc_be acc)"
    and al: "8 dvd off" "8 dvd length buf"
  shows "\<exists>acc'. acc_process_stripe ops s (off, buf) acc = Some (0, 0, acc') \<and> process_result m S pid s (off, buf) acc acc'"
proof (cases "length buf < sp_stripe_data_sz (acc_be acc)")
  case True
  show ?thesis
  proof (cases "acc_coherent acc ! s")
    case coh: True
    then have "is_stripe_parity_coherent acc s" using s(2) by (simp add: is_stripe_parity_coherent_def)
    from process_rmw [OF ok s(1) this buf al] obtain old be acc' where
      "sp_data_read ops s off (replicate (length buf) 0) (acc_be acc) = Some (0, 0, old, be)"
      "rmw_data_done ops s (off, buf) 0 old (acc\<lparr>acc_be := be\<rparr>) = Some (0, acc')"
      "process_result m S pid s (off, buf) acc acc'" by blast
    with True coh buf show ?thesis by (simp add: acc_process_stripe_def Let_def)
  next
    case False
    from process_renew [OF ok s buf] obtain data be acc' where
      "sp_data_read ops s 0 (replicate (sp_stripe_data_sz (acc_be acc)) 0) (acc_be acc) = Some (0, 0, data, be)"
      "renew_data_done ops s (off, buf) 0 data (acc\<lparr>acc_be := be\<rparr>) = Some (0, acc')"
      "process_result m S pid s (off, buf) acc acc'" by blast
    with True False buf show ?thesis by (simp add: acc_process_stripe_def Let_def)
  qed
next
  case False
  then have "length buf = sp_stripe_data_sz (acc_be acc)" "off = 0" using buf(2) by linarith+
  then show ?thesis using process_full_stripe [OF ok s, of buf] buf(1) by (simp add: acc_process_stripe_def Let_def)
qed

lemma acc_write_loop_ok:
  assumes "acc_ok good content m S pid acc" "D = sp_stripe_data_sz (acc_be acc)" "so < D" "wb \<le> length buf"
    and "s * D + so + (length buf - wb) \<le> m * D" "s * D + so + (length buf - wb) \<le> length (acc_lock acc) * D"
    and "length (acc_coherent acc) = length (acc_lock acc)" "\<forall>t. \<not> held (acc_lock acc) t"
    and "8 dvd so" "8 dvd wb" "8 dvd length buf"
  shows "\<exists>acc'. acc_write_loop ops buf s so wb 0 acc = Some (0, 0, acc') \<and> acc_ok good content m S pid acc' \<and>
    (\<forall>t. \<not> held (acc_lock acc') t) \<and> sp_stripe_data_sz (acc_be acc') = D \<and>
    acc_data content m S pid acc' = copy_at (acc_data content m S pid acc) (s * D + so) (drop wb buf)"
  using assms
proof (induction "length buf - wb" arbitrary: s so wb acc rule: less_induct)
  case less
  show ?case
  proof (cases "wb < length buf")
    case False
    then show ?thesis using less.prems by (subst acc_write_loop.simps) simp
  next
    case True
    define chunk where "chunk = min (D - so) (length buf - wb)"
    let ?sq = "subspan buf wb chunk" and ?V = "acc_data content m S pid acc"
    have ch: "0 < chunk" "so + chunk \<le> D" "wb + chunk \<le> length buf"
      using True less.prems(3) unfolding chunk_def by auto
    have nx: "length buf - (wb + chunk) = 0 \<or> Suc s * D = s * D + so + chunk"
      using next_chunk [OF less.prems(3) chunk_def, of "length buf - (wb + chunk)" s] by simp
    have inside: "s < N" if "s * D + so + (length buf - wb) \<le> N * D" for N
    proof (rule ccontr)
      assume "\<not> s < N"
      then have "N * D \<le> s * D" by simp
      then show False using that True by linarith
    qed
    have s: "s < m" "s < length (acc_lock acc)" using inside less.prems(5,6) by blast+
    have sq: "subquery buf wb chunk = Some ?sq" "length ?sq = chunk" "?sq \<noteq> []"
      using ch by (auto simp: subquery_eq subspan_def)
    let ?lk = "(acc_lock acc)[s := True]" let ?acc0 = "acc\<lparr>acc_lock := ?lk\<rparr>"
    have ok0: "acc_ok good content m S pid ?acc0"
      using less.prems(1) by (simp add: acc_ok_def Let_def is_stripe_parity_coherent_def)
    have S8: "8 dvd D" using less.prems(1,2) by (simp add: acc_ok_cfg sp_cfg_def)
    have al: "8 dvd chunk" using less.prems(9-11) S8 unfolding chunk_def min_def by (simp add: dvd_diff_nat)
    have c0: "s < length (acc_coherent ?acc0)" using s(2) less.prems(7) by simp
    have b0: "so + length ?sq \<le> sp_stripe_data_sz (acc_be ?acc0)" using ch(2) sq(2) less.prems(2) by simp
    from acc_process_stripe_ok [OF ok0 s(1) c0 sq(3) b0 less.prems(9)] al obtain acc1 where
      p: "acc_process_stripe ops s (so, ?sq) ?acc0 = Some (0, 0, acc1)" "process_result m S pid s (so, ?sq) ?acc0 acc1"
      unfolding sq(2) by blast
    have lk: "lk_try_lock (acc_lock acc) s = Some (True, ?lk)" "lk_unlock ?lk s = Some (acc_lock acc)"
      using s(2) less.prems(8) lock_unlock [OF s(2)] by (simp_all add: lk_try_lock_eq)
    let ?acc2 = "acc1\<lparr>acc_lock := acc_lock acc\<rparr>"
    have c: "acc_complete s acc1 = Some ?acc2" using p(2) lk(2) by (simp add: acc_complete_def process_result_def)
    have st: "acc_ok good content m S pid ?acc2" "sp_stripe_data_sz (acc_be ?acc2) = D"
      "length (acc_coherent ?acc2) = length (acc_lock ?acc2)"
      "acc_data content m S pid ?acc2 = copy_at ?V (s * D + so) ?sq"
      using p(2) less.prems(2,7)
      unfolding process_result_def by (auto simp: acc_ok_def Let_def is_stripe_parity_coherent_def acc_data_def)
    have next_le: "Suc s * D + 0 + (length buf - (wb + chunk)) \<le> N * D"
      if "s * D + so + (length buf - wb) \<le> N * D" for N
      using nx
    proof
      assume "length buf - (wb + chunk) = 0"
      moreover have "Suc s * D \<le> N * D" using inside [OF that] by (intro mult_le_mono1) simp
      ultimately show ?thesis by linarith
    next
      assume "Suc s * D = s * D + so + chunk"
      then show ?thesis using that ch(3) by linarith
    qed
    have "\<exists>acc'. acc_write_loop ops buf (Suc s) 0 (wb + chunk) 0 ?acc2 = Some (0, 0, acc') \<and> acc_ok good content m S pid acc' \<and>
      (\<forall>t. \<not> held (acc_lock acc') t) \<and> sp_stripe_data_sz (acc_be acc') = D \<and>
      acc_data content m S pid acc' = copy_at (acc_data content m S pid ?acc2) (Suc s * D + 0) (drop (wb + chunk) buf)"
    proof (rule less.hyps)
      show "length buf - (wb + chunk) < length buf - wb" using ch True by linarith
      show "Suc s * D + 0 + (length buf - (wb + chunk)) \<le> m * D" by (rule next_le [OF less.prems(5)])
      show "Suc s * D + 0 + (length buf - (wb + chunk)) \<le> length (acc_lock ?acc2) * D"
        using next_le [OF less.prems(6)] by simp
      show "8 dvd wb + chunk" using less.prems(10) al by simp
    qed (use st less.prems ch in simp_all)
    then obtain acc' where r: "acc_write_loop ops buf (Suc s) 0 (wb + chunk) 0 ?acc2 = Some (0, 0, acc')"
      "acc_ok good content m S pid acc'" "\<forall>t. \<not> held (acc_lock acc') t" "sp_stripe_data_sz (acc_be acc') = D"
      "acc_data content m S pid acc' = copy_at (copy_at ?V (s * D + so) ?sq) (Suc s * D) (drop (wb + chunk) buf)"
      unfolding st(4) by auto
    have lV: "length ?V = m * D" using less.prems(1,2) by (simp add: acc_data_def sp_data_def acc_ok_def Let_def)
    have cat: "?sq @ drop (wb + chunk) buf = drop wb buf"
      unfolding subspan_def by (metis append_take_drop_id drop_drop add.commute)
    have "copy_at (copy_at ?V (s * D + so) ?sq) (Suc s * D) (drop (wb + chunk) buf) =
        copy_at ?V (s * D + so) (?sq @ drop (wb + chunk) buf)"
    proof (rule copy_at_append_next)
      show "s * D + so + length (?sq @ drop (wb + chunk) buf) \<le> length ?V"
        unfolding cat lV using less.prems(5) by simp
      show "drop (wb + chunk) buf = [] \<or> Suc s * D = s * D + so + length ?sq"
        unfolding sq(2) using nx by (metis diff_is_0_eq drop_all)
    qed
    moreover have "acc_write_loop ops buf s so wb 0 acc = acc_write_loop ops buf (Suc s) 0 (wb + chunk) 0 ?acc2"
      using True sq(1) lk(1) p(1) c
      by (subst acc_write_loop.simps) (simp add: Let_def chunk_def [unfolded less.prems(2), symmetric])
    ultimately show ?thesis using r cat by simp
  qed
qed

lemma length_acc_data: "acc_ok good content m S pid acc \<Longrightarrow>
    length (acc_data content m S pid acc) = m * sp_stripe_data_sz (acc_be acc)"
  by (simp add: acc_data_def sp_data_def acc_ok_def Let_def)

lemma acc_D_pos: "acc_ok good content m S pid acc \<Longrightarrow> 0 < sp_stripe_data_sz (acc_be acc) \<and> 8 dvd sp_stripe_data_sz (acc_be acc)"
  using stripe_sizes(2) [of S "length (sp_hs (acc_be acc))"] by (auto simp: acc_ok_def Let_def sp_disks_ok_def)

lemma acc_resize_ok:
  assumes "acc_ok good content m S pid acc"
  shows "acc_ok good content m S pid (acc\<lparr>acc_lock := lk, acc_coherent := bs_resize (acc_coherent acc) n\<rparr>)"
proof -
  have "is_stripe_parity_coherent (acc\<lparr>acc_lock := lk, acc_coherent := bs_resize (acc_coherent acc) n\<rparr>) s \<Longrightarrow>
      is_stripe_parity_coherent acc s" for s
    by (auto simp: is_stripe_parity_coherent_def nth_bs_resize)
  then show ?thesis using assms by (simp add: acc_ok_def Let_def)
qed

lemma acc_write_ok:
  assumes "acc_idle good content m S pid acc" "buf \<noteq> []" "off + length buf \<le> length (acc_data content m S pid acc)"
    and al: "8 dvd off" "8 dvd length buf"
  shows "\<exists>acc'. acc_write ops off buf acc = Some (0, 0, acc') \<and> acc_idle good content m S pid acc' \<and>
    acc_data content m S pid acc' = copy_at (acc_data content m S pid acc) off buf"
proof -
  let ?D = "sp_stripe_data_sz (acc_be acc)"
  let ?lk = "lk_extend (acc_lock acc) (strips_round_up (off + length buf) ?D)"
  let ?acc = "acc\<lparr>acc_lock := ?lk, acc_coherent := bs_resize (acc_coherent acc) (length ?lk)\<rparr>"
  have ok: "acc_ok good content m S pid acc" and free: "\<forall>t. \<not> held (acc_lock acc) t"
    using assms(1) by (auto simp: acc_idle_def)
  have D: "0 < ?D" "8 dvd ?D" using acc_D_pos [OF ok] by auto
  have a: "off div ?D * ?D + off mod ?D = off" by simp
  have 1: "off div ?D * ?D + off mod ?D + (length buf - 0) \<le> m * ?D"
    unfolding a using assms(3) length_acc_data [OF ok] by simp
  have "off + length buf \<le> strips_round_up (off + length buf) ?D * ?D" by (rule strips_round_up_bounds(1) [OF D(1)])
  also have "\<dots> \<le> length ?lk * ?D" by (intro mult_le_mono1) simp
  finally have 2: "off div ?D * ?D + off mod ?D + (length buf - 0) \<le> length (acc_lock ?acc) * ?D"
    unfolding a by simp
  have 3: "length (acc_coherent ?acc) = length (acc_lock ?acc)" by simp
  have 4: "\<forall>t. \<not> held (acc_lock ?acc) t" using free by simp
  have 5: "8 dvd off mod ?D" using al(1) D(2) by (simp add: dvd_mod)
  have 6: "?D = sp_stripe_data_sz (acc_be ?acc)" "off mod ?D < ?D" using D(1) by simp_all
  have data: "acc_data content m S pid ?acc = acc_data content m S pid acc" by (simp add: acc_data_def)
  from acc_write_loop_ok [OF acc_resize_ok [OF ok] 6 le0 1 2 3 4 5 _ al(2)] obtain acc' where
    "acc_write_loop ops buf (off div ?D) (off mod ?D) 0 0 ?acc = Some (0, 0, acc')" "acc_idle good content m S pid acc'"
    "acc_data content m S pid acc' = copy_at (acc_data content m S pid acc) off buf"
    unfolding a data acc_idle_def by auto
  then show ?thesis using assms(2) by (simp add: acc_write_def Let_def)
qed

lemma acc_read_ok:
  assumes "acc_idle good content m S pid acc" "buf \<noteq> []" "off + length buf \<le> length (acc_data content m S pid acc)"
  shows "\<exists>acc'. acc_read ops off buf acc = Some (0, 0, subspan (acc_data content m S pid acc) off (length buf), acc') \<and>
    acc_idle good content m S pid acc' \<and> acc_data content m S pid acc' = acc_data content m S pid acc"
proof -
  let ?D = "sp_stripe_data_sz (acc_be acc)"
  have ok: "acc_ok good content m S pid acc" and free: "\<forall>t. \<not> held (acc_lock acc) t"
    using assms(1) by (auto simp: acc_idle_def)
  have D: "0 < ?D" using acc_D_pos [OF ok] by auto
  have a: "off div ?D * ?D + off mod ?D = off" by simp
  let ?n = "length (sp_hs (acc_be acc))"
  from ok have cfg: "sp_cfg good content m S pid ?n (acc_be acc)" and Deq: "?D = S * (?n - 1)"
    by (simp_all add: acc_ok_cfg sp_cfg_def)
  have lt: "off mod ?D < S * (?n - 1)" using D unfolding Deq [symmetric] by simp
  have le: "off div ?D * (S * (?n - 1)) + off mod ?D + length buf \<le> m * (S * (?n - 1))"
    unfolding Deq [symmetric] a using assms(3) length_acc_data [OF ok] by simp
  from sp_data_read_ok [OF cfg lt assms(2) le] obtain hs' where
    r: "sp_data_read ops (off div ?D) (off mod ?D) buf (acc_be acc) =
      Some (0, 0, subspan (acc_data content m S pid acc) off (length buf), (acc_be acc)\<lparr>sp_hs := hs'\<rparr>)"
    "sp_cfg good content m S pid ?n ((acc_be acc)\<lparr>sp_hs := hs'\<rparr>)" "sp_bytes m S pid hs' = sp_bytes m S pid (sp_hs (acc_be acc))"
    unfolding Deq [symmetric] a acc_data_def by auto
  note k = acc_ok_reread [OF ok r(2,3)]
  have l: "length (subspan (acc_data content m S pid acc) off (length buf)) = length buf" using assms(3) by simp
  show ?thesis
    using assms(2) r(1) k(1,2) free l
    by (intro exI [of _ "acc\<lparr>acc_be := (acc_be acc)\<lparr>sp_hs := hs'\<rparr>\<rparr>"])
      (simp add: acc_read_def Let_def subquery_eq acc_idle_def)
qed

end

end
