(* ===== verification/Raid45.thy ===== *)
theory Raid45
  imports Acceptor
begin

unbundle bit_operations_syntax

text \<open>
  \<open>ublk/raidsp/target.cpp\<close>, \<open>raidsp/fsm.hpp\<close>, \<open>raid4/target.cpp\<close> and \<open>raid5/target.cpp\<close>: the
  acceptor behind the state machine, and the two parity placements.
\<close>

subsection \<open>Parity placement\<close>

definition raid4_parity :: "nat \<Rightarrow> nat \<Rightarrow> nat" where
  "raid4_parity n stripe_id = n - 1"

definition raid5_parity :: "nat \<Rightarrow> nat \<Rightarrow> nat" where
  "raid5_parity n stripe_id = n - stripe_id mod n - 1"

definition raid4_create :: "nat \<Rightarrow> 'c option list \<Rightarrow> 'c acceptor option" where
  "raid4_create strip_sz hs = acceptor_create strip_sz hs (raid4_parity (length hs))"

definition raid5_create :: "nat \<Rightarrow> 'c option list \<Rightarrow> 'c acceptor option" where
  "raid5_create strip_sz hs = acceptor_create strip_sz hs (raid5_parity (length hs))"

lemma raid_parity_range: "0 < n \<Longrightarrow> raid4_parity n s < n" "0 < n \<Longrightarrow> raid5_parity n s < n"
  by (auto simp: raid4_parity_def raid5_parity_def)

text \<open>Any \<open>n\<close> consecutive numbers meet every residue once.\<close>

lemma residue_once:
  fixes k n r :: nat
  assumes "r < n"
  shows "\<exists>!s. k \<le> s \<and> s < k + n \<and> s mod n = r"
proof -
  have eq: "s = t" if "s \<in> {k..<k + n}" "t \<in> {k..<k + n}" "s mod n = t mod n" "s \<le> t" for s t
  proof -
    have "n dvd t - s" using that(3,4) by (metis mod_eq_dvd_iff_nat)
    moreover have "t - s < n" using that by auto
    ultimately show ?thesis using that(4) by (auto dest: nat_dvd_not_less)
  qed
  have inj: "inj_on (\<lambda>s. s mod n) {k..<k + n}"
  proof (rule inj_onI)
    fix s t assume "s \<in> {k..<k + n}" "t \<in> {k..<k + n}" "s mod n = t mod n"
    then show "s = t" using eq [of s t] eq [of t s] by (cases "s \<le> t") auto
  qed
  have "(\<lambda>s. s mod n) ` {k..<k + n} = {0..<n}"
    using assms by (intro card_subset_eq) (auto simp: card_image [OF inj])
  then have "r \<in> (\<lambda>s. s mod n) ` {k..<k + n}" using assms by simp
  then obtain s where "s \<in> {k..<k + n}" "s mod n = r" by auto
  moreover have "t = s" if "k \<le> t \<and> t < k + n \<and> t mod n = r" for t
    using inj that calculation by (auto simp: inj_on_def)
  ultimately show ?thesis by (intro ex1I [of _ s]) auto
qed

text \<open>
  RAID5 rotates the parity: in any \<open>n\<close> consecutive stripes every disk holds the parity exactly
  once.
\<close>

theorem raid5_parity_rotates:
  assumes "d < n"
  shows "\<exists>!s. k \<le> s \<and> s < k + n \<and> raid5_parity n s = d"
proof -
  have "n - q - 1 = d \<longleftrightarrow> q = n - 1 - d" if "q < n" for q using assms that by arith
  moreover have "s mod n < n" for s using assms by simp
  ultimately have "raid5_parity n s = d \<longleftrightarrow> s mod n = n - 1 - d" for s by (simp add: raid5_parity_def)
  then show ?thesis using residue_once [of "n - 1 - d" n k] assms by simp
qed

theorem raid5_parity_rotates_witness:
  "\<exists>!s. 4 \<le> s \<and> s < 4 + 3 \<and> raid5_parity 3 s = 1"
  by (rule raid5_parity_rotates) simp

subsection \<open>The targets\<close>

definition raidsp_ops :: "'c rw_handler \<Rightarrow> 'c acceptor rw_handler" where
  "raidsp_ops ops = \<lparr>submit_rd = acc_read ops, submit_wr = acc_write ops\<rparr>"

definition raidsp_target_read :: "'c rw_handler \<Rightarrow> 'c acceptor target read_fn" where
  "raidsp_target_read ops = target_read (acc_read ops)"

definition raidsp_target_write :: "'c rw_handler \<Rightarrow> 'c acceptor target write_fn" where
  "raidsp_target_write ops = target_write (acc_write ops)"

definition raidsp_coherency_check :: "'c acceptor target \<Rightarrow> nat \<Rightarrow> bool" where
  "raidsp_coherency_check t stripe_id =
     (case fsm t of Online \<Rightarrow> is_stripe_parity_coherent (backend t) stripe_id | Offline \<Rightarrow> False)"

context block_dev
begin

lemma raidsp_aligned_dev:
  "aligned_dev 8 (raidsp_ops ops) (acc_idle good content m S pid) (acc_data content m S pid)"
  by unfold_locales (simp_all add: raidsp_ops_def acc_read_ok acc_write_ok)

end

interpretation raidsp_inmem: aligned_dev 8 "raidsp_ops inmem_ops" "acc_idle inmem_good mem m S pid" "acc_data mem m S pid" for m S pid
  by (rule inmem.raidsp_aligned_dev)

text \<open>
  C7. Over any working disks a single-parity array is a linear volume for requests in multiples of
  eight bytes: a write changes exactly the addressed bytes, whichever mixture of full-stripe,
  read-modify-write and renewing stripe writes it takes; a read returns the stored bytes; and
  afterwards every stripe marked coherent still has the XOR of its data as parity (\<open>acc_idle\<close>).
\<close>

theorem raidsp_linear_volume:
  assumes "block_dev ops good content" "acc_idle good content m S pid acc" "buf \<noteq> []"
    and "off + length buf \<le> length (acc_data content m S pid acc)" "8 dvd off" "8 dvd length buf"
  shows "(\<exists>acc'. acc_read ops off buf acc = Some (0, 0, subspan (acc_data content m S pid acc) off (length buf), acc') \<and>
      acc_idle good content m S pid acc' \<and> acc_data content m S pid acc' = acc_data content m S pid acc) \<and>
    (\<exists>acc'. acc_write ops off buf acc = Some (0, 0, acc') \<and> acc_idle good content m S pid acc' \<and>
      acc_data content m S pid acc' = copy_at (acc_data content m S pid acc) off buf)"
  using aligned_dev.aligned_read_law [OF block_dev.raidsp_aligned_dev [OF assms(1)] assms(2-6)]
    aligned_dev.aligned_write_law [OF block_dev.raidsp_aligned_dev [OF assms(1)] assms(2-6)]
  by (simp add: raidsp_ops_def)

text \<open>A RAID5 array of three in-memory disks, two stripes, strips of eight bytes; no stripe is known to be coherent.\<close>

definition demo_raid5 :: "inmem acceptor" where
  "demo_raid5 = \<lparr>acc_be = \<lparr>sp_strip_sz = 8, sp_stripe_data_sz = 16, sp_stripe_sz = 24, sp_pid = raid5_parity 3,
       sp_hs = [\<lparr>mem = replicate 16 1, mem_sz = 16\<rparr>, \<lparr>mem = replicate 16 2, mem_sz = 16\<rparr>, \<lparr>mem = replicate 16 3, mem_sz = 16\<rparr>]\<rparr>,
     acc_lock = [], acc_coherent = []\<rparr>"

lemma demo_raid5_idle: "acc_idle inmem_good mem 2 8 (raid5_parity 3) demo_raid5"
proof -
  have "raid5_parity 3 s < Suc (Suc (Suc 0))" for s using raid_parity_range(2) [of 3 s] by (simp add: numeral_3_eq_3)
  then show ?thesis
    by (simp add: acc_idle_def acc_ok_def demo_raid5_def sp_disks_ok_def inmem_good_def
        is_stripe_parity_coherent_def held_def)
qed

lemma demo_raid5_data:
  "acc_data mem 2 8 (raid5_parity 3) demo_raid5 = replicate 8 1 @ replicate 8 2 @ replicate 8 1 @ replicate 8 3"
  by code_simp

theorem raidsp_linear_volume_witness:
  "\<exists>acc'. acc_write inmem_ops 8 (replicate 16 9) demo_raid5 = Some (0, 0, acc') \<and>
     acc_data mem 2 8 (raid5_parity 3) acc' = replicate 8 1 @ replicate 16 9 @ replicate 8 3"
proof -
  have "\<exists>acc'. acc_write inmem_ops 8 (replicate 16 9) demo_raid5 = Some (0, 0, acc') \<and>
      acc_data mem 2 8 (raid5_parity 3) acc' =
        copy_at (replicate 8 1 @ replicate 8 2 @ replicate 8 1 @ replicate 8 3) 8 (replicate 16 9)"
    using raidsp_linear_volume [OF inmem.block_dev_axioms demo_raid5_idle, of "replicate 16 9" 8]
    unfolding demo_raid5_data by auto
  moreover have "copy_at (replicate 8 1 @ replicate 8 2 @ replicate 8 1 @ replicate 8 (3 :: byte)) 8 (replicate 16 9) =
      replicate 8 1 @ replicate 16 9 @ replicate 8 3"
    by code_simp
  ultimately show ?thesis by simp
qed

subsection \<open>Errors\<close>

text \<open>
  C33. A stripe write whose data or parity query completes with an error leaves the stripe marked
  incoherent, on both paths.
\<close>

theorem parity_error_invalidates:
  assumes "stripe_write ops s wqd wqp acc = Some (res, ed, ep, acc')" "ed \<noteq> 0 \<or> ep \<noteq> 0"
  shows "\<not> is_stripe_parity_coherent acc' s"
  using assms
  by (auto simp: stripe_write_def stripe_coherent_parity_write_def stripe_incoherent_parity_write_def
      is_stripe_parity_coherent_def bind_eq_Some_conv expects_def split: if_splits)

text \<open>
  C34. The read-modify-write path drops the return value of its stripe write: when the backend refuses
  the write with \<open>res\<close>, the request is still reported as done without an error, and the stripe is
  still taken to be coherent.  (The renewing path hands the value to the query, see
  \<open>renew_refused_write_reported\<close>.)
\<close>

theorem rmw_refused_write_unreported:
  assumes "is_stripe_parity_coherent acc s" "buf \<noteq> []" "off + length buf \<le> sp_stripe_data_sz (acc_be acc)"
    and "length buf < sp_stripe_data_sz (acc_be acc)"
    and "sp_data_read ops s off (replicate (length buf) 0) (acc_be acc) = Some (0, 0, old, be1)"
    and "sp_parity_read ops s 0 (replicate (sp_strip_sz be1) 0) be1 = Some (0, 0, par, be2)"
    and "parity_to off (xor_to buf old) (sp_stripe_data_sz be2) par (off mod length par) = Some par'"
    and "sp_stripe_write ops s (off, buf) (0, par') be2 = Some (res, 0, 0, be3)" "res \<noteq> 0"
  shows "acc_process_stripe ops s (off, buf) acc = Some (0, 0, acc\<lparr>acc_be := be3\<rparr>) \<and>
    is_stripe_parity_coherent (acc\<lparr>acc_be := be3\<rparr>) s"
  using assms
  by (auto simp: acc_process_stripe_def Let_def rmw_data_done_def rmw_parity_done_def
      stripe_coherent_parity_write_def is_stripe_parity_coherent_def)

lemma renew_refused_write_reported:
  assumes "stripe_incoherent_parity_write ops s (off, buf) (0, par) acc = Some (res, ed, ep, acc')" "res \<noteq> 0"
    and "copy_stl 0 buf off (subspan data off (length buf)) = Some part"
    and "parity_renew 0 (copy_at data off part) (sp_stripe_data_sz (acc_be acc)) (replicate (sp_strip_sz (acc_be acc)) 0) = Some par"
  shows "renew_data_done ops s (off, buf) 0 data acc = Some (res, acc')"
  using assms by (simp add: renew_data_done_def Let_def)

text \<open>Disks that serve reads and refuse every write.\<close>

definition readonly_ops :: "byte list rw_handler" where
  "readonly_ops = \<lparr>submit_rd = (\<lambda>off buf t. Some (0, 0, subspan t off (length buf), t)),
     submit_wr = (\<lambda>off buf t. Some (EIO, 0, t))\<rparr>"

definition demo_readonly :: "byte list acceptor" where
  "demo_readonly = \<lparr>acc_be = \<lparr>sp_strip_sz = 8, sp_stripe_data_sz = 16, sp_stripe_sz = 24, sp_pid = raid5_parity 3,
       sp_hs = [replicate 8 1, replicate 8 2, replicate 8 3]\<rparr>,
     acc_lock = [], acc_coherent = [True]\<rparr>"

theorem rmw_refused_write_unreported_witness:
  "acc_process_stripe readonly_ops 0 (0, replicate 8 9) demo_readonly = Some (0, 0, demo_readonly)"
proof -
  let ?be = "acc_be demo_readonly"
  have be: "sp_stripe_data_sz ?be = 16" "sp_strip_sz ?be = 8" "sp_hs ?be = [replicate 8 1, replicate 8 2, replicate 8 3]"
    "sp_pid ?be = raid5_parity 3" by (simp_all add: demo_readonly_def)
  have p3: "raid5_parity 3 0 = 2" by (simp add: raid5_parity_def)
  have rd: "submit_rd readonly_ops off buf t = Some (0, 0, subspan t off (length buf), t)"
    and wr: "submit_wr readonly_ops off buf t = Some (EIO, 0, t)" for off buf t
    by (simp_all add: readonly_ops_def)
  have v: "handlers_data_view 3 2 0 (Suc 0) = Some [0]" by code_simp
  have ru: "strips_round_up 8 8 = Suc 0" by code_simp
  have "sp_data_read_loop readonly_ops ?be 8 0 0 0 0 (replicate 8 0) (sp_hs ?be) = Some (0, 0, replicate 8 1, sp_hs ?be)"
    by (simp add: sp_data_read_loop.simps be Let_def p3 numeral_3_eq_3 [symmetric] v ru rd subquery_eq copy_at_def subspan_def)
  then have r: "sp_data_read readonly_ops 0 0 (replicate 8 0) ?be = Some (0, 0, replicate 8 1, ?be)"
    by (simp add: sp_data_read_def be)
  have p: "sp_parity_read readonly_ops 0 0 (replicate 8 0) ?be = Some (0, 0, replicate 8 3, ?be)"
    by (simp add: sp_parity_read_def be Let_def p3 rd subquery_eq copy_at_def subspan_def)
  have x: "parity_to 0 (xor_to (replicate 8 9) (replicate 8 1)) 16 (replicate 8 3) (0 mod length (replicate 8 (3 :: byte))) =
      Some (replicate 8 11)"
  proof -
    have rep: "xor_to (replicate n a) (replicate n b) = replicate n (a XOR b)" for n and a b :: byte
      by (induction n) simp_all
    have "xor_cyclic 0 (replicate 8 (8 :: byte)) (replicate 8 3) = replicate 8 11"
      using xor_cyclic_block [of 0 "replicate 8 (3 :: byte)" "replicate 8 8"] by (simp add: rep)
    then show ?thesis
      using parity_to_cyclic [of 0 0 16 "replicate 8 8" "replicate 8 3"] by (simp add: rep)
  qed
  have w: "sp_stripe_write readonly_ops 0 (0, replicate 8 9) (0, replicate 8 11) ?be = Some (EIO, 0, 0, ?be)"
    by (simp add: sp_stripe_write_def be Let_def p3 numeral_3_eq_3 [symmetric] v ru wr subquery_eq)
  have c: "is_stripe_parity_coherent demo_readonly 0"
    by (simp add: is_stripe_parity_coherent_def demo_readonly_def)
  have "acc_process_stripe readonly_ops 0 (0, replicate 8 9) demo_readonly = Some (0, 0, demo_readonly\<lparr>acc_be := ?be\<rparr>) \<and>
    is_stripe_parity_coherent (demo_readonly\<lparr>acc_be := ?be\<rparr>) 0"
    by (rule rmw_refused_write_unreported [where old = "replicate 8 1" and par = "replicate 8 3" and
          par' = "replicate 8 11" and ?be1.0 = ?be and ?be2.0 = ?be and res = EIO])
      (use r p x w c in \<open>simp_all add: be\<close>)
  then show ?thesis by simp
qed

text \<open>Disks whose writes are accepted and complete with an error.\<close>

definition erring_ops :: "byte list rw_handler" where
  "erring_ops = \<lparr>submit_rd = (\<lambda>off buf t. Some (0, 0, subspan t off (length buf), t)),
     submit_wr = (\<lambda>off buf t. Some (0, EIO, t))\<rparr>"

theorem parity_error_invalidates_witness:
  "\<exists>acc'. stripe_write erring_ops 0 (0, replicate 8 9) (0, replicate 8 11) demo_readonly = Some (0, EIO, EIO, acc')
    \<and> \<not> is_stripe_parity_coherent acc' 0"
proof -
  let ?be = "acc_be demo_readonly"
  have be: "sp_stripe_data_sz ?be = 16" "sp_strip_sz ?be = 8" "sp_hs ?be = [replicate 8 1, replicate 8 2, replicate 8 3]"
    "sp_pid ?be = raid5_parity 3" by (simp_all add: demo_readonly_def)
  have p3: "raid5_parity 3 0 = 2" by (simp add: raid5_parity_def)
  have wr: "submit_wr erring_ops off buf t = Some (0, EIO, t)" for off buf t
    by (simp add: erring_ops_def)
  have v: "handlers_data_view 3 2 0 (Suc 0) = Some [0]" by code_simp
  have ru: "strips_round_up 8 8 = Suc 0" by code_simp
  have "sp_stripe_write erring_ops 0 (0, replicate 8 9) (0, replicate 8 11) ?be = Some (0, EIO, EIO, ?be)"
    by (simp add: sp_stripe_write_def be Let_def p3 numeral_3_eq_3 [symmetric] v ru wr subquery_eq)
  then have "\<exists>acc'. stripe_write erring_ops 0 (0, replicate 8 9) (0, replicate 8 11) demo_readonly = Some (0, EIO, EIO, acc')"
    by (simp add: stripe_write_def stripe_coherent_parity_write_def is_stripe_parity_coherent_def)
      (simp add: demo_readonly_def)
  then obtain acc' where "stripe_write erring_ops 0 (0, replicate 8 9) (0, replicate 8 11) demo_readonly = Some (0, EIO, EIO, acc')"
    by blast
  with parity_error_invalidates [OF this] show ?thesis by simp
qed

end
