(* ===== verification/Write_Serializer.thy ===== *)
theory Write_Serializer
  imports Bitset_Locker "HOL-Library.Multiset"
begin

text \<open>
  The per-stripe (\<open>raidsp/acceptor.cpp\<close>, \<open>acceptor::process\<close>) and per-chunk
  (\<open>cache/rwt_handler.cpp\<close>, \<open>RWTHandler::submit\<close>) serialisation of writes: the two functions
  share one scheme.  A write to a free position locks it and is processed at once; a write to a
  locked position waits in \<open>wqs_pending_\<close>; the completer of a write starts the next waiting write
  of its position, or unlocks it.

  What \<open>process(q)\<close> does is a parameter: it returns a code, and either the last reference to
  \<open>q\<close> is dropped before the caller is done with it (a synchronous back end, or a refused write),
  so that its completer runs nested, or \<open>q\<close> is in flight and its completer runs later.
  A \<open>ser option option\<close> is the result of an operation: \<open>None\<close> if it never returns,
  \<open>Some None\<close> if a contract terminates the process, \<open>Some (Some s)\<close> otherwise.
\<close>

datatype outcome = Outcome (ret_code: int) (finished: bool)

record 'q ser =
  w_locker :: locker
  wqs_pending :: "(nat \<times> 'q) list"
  in_flight :: "(nat \<times> 'q) list"
  started :: "'q list"

definition ser_init :: "'q ser" where
  "ser_init = \<lparr>w_locker = [], wqs_pending = [], in_flight = [], started = []\<rparr>"

text \<open>\<open>std::ranges::find\<close> on the first component, and \<open>iter_swap(it, end() - 1); pop_back()\<close>.\<close>

fun pending_index :: "nat \<Rightarrow> (nat \<times> 'q) list \<Rightarrow> nat option" where
  "pending_index pos [] = None"
| "pending_index pos ((p, q) # xs) =
     (if p = pos then Some 0 else map_option Suc (pending_index pos xs))"

definition swap_pop :: "nat \<Rightarrow> 'a list \<Rightarrow> 'a list" where
  "swap_pop i xs = butlast (xs[i := last xs])"

definition unlock_pos :: "nat \<Rightarrow> 'q ser \<Rightarrow> 'q ser option" where
  "unlock_pos pos s = map_option (\<lambda>lk. s\<lparr>w_locker := lk\<rparr>) (lk_unlock (w_locker s) pos)"

text \<open>
  The completer's loop.  \<open>finish = 0 == process(...)\<close> is computed before the entry leaves
  \<open>wqs_pending_\<close>; \<open>pop_back\<close> drops the vector's reference, so a finished write's own completer
  runs there, before the loop looks at \<open>finish\<close>.
\<close>

partial_function (option) drain ::
    "('q \<Rightarrow> outcome) \<Rightarrow> nat \<Rightarrow> 'q ser \<Rightarrow> 'q ser option option" where
  "drain process pos s = (case pending_index pos (wqs_pending s) of
     None \<Rightarrow> Some (unlock_pos pos s)
   | Some i \<Rightarrow>
      (let q = snd (wqs_pending s ! i);
           finish = (ret_code (process q) = 0);
           s1 = s\<lparr>wqs_pending := swap_pop i (wqs_pending s), started := started s @ [q]\<rparr>
       in if finished (process q)
          then Option.bind (drain process pos s1) (\<lambda>r.
            case r of None \<Rightarrow> Some None
            | Some s2 \<Rightarrow> if finish then Some (Some s2) else drain process pos s2)
          else (let s2 = s1\<lparr>in_flight := (pos, q) # in_flight s1\<rparr>
                in if finish then Some (Some s2) else drain process pos s2)))"

text \<open>One chunk of a submitted write, and the completion of a write in flight.\<close>

definition ser_submit ::
    "('q \<Rightarrow> outcome) \<Rightarrow> nat \<Rightarrow> 'q \<Rightarrow> 'q ser \<Rightarrow> (int \<times> 'q ser) option option" where
  "ser_submit process pos q s = (case lk_try_lock (w_locker s) pos of
     None \<Rightarrow> Some None
   | Some (acquired, lk) \<Rightarrow>
      (if \<not> acquired then Some (Some (0, s\<lparr>w_locker := lk, wqs_pending := wqs_pending s @ [(pos, q)]\<rparr>))
       else (let s1 = s\<lparr>w_locker := lk, started := started s @ [q]\<rparr>
             in if finished (process q)
                then map_option (map_option (Pair (ret_code (process q)))) (drain process pos s1)
                else Some (Some (ret_code (process q), s1\<lparr>in_flight := (pos, q) # in_flight s1\<rparr>)))))"

fun ser_loop :: "('q \<Rightarrow> outcome) \<Rightarrow> (nat \<times> 'q) list \<Rightarrow> 'q ser \<Rightarrow> (int \<times> 'q ser) option option" where
  "ser_loop process [] s = Some (Some (0, s))"
| "ser_loop process ((pos, q) # cs) s = (case ser_submit process pos q s of
     Some (Some (res, s')) \<Rightarrow> if res \<noteq> 0 then Some (Some (res, s')) else ser_loop process cs s'
   | r \<Rightarrow> r)"

definition ser_write ::
    "('q \<Rightarrow> outcome) \<Rightarrow> nat \<Rightarrow> (nat \<times> 'q) list \<Rightarrow> 'q ser \<Rightarrow> (int \<times> 'q ser) option option" where
  "ser_write process nr cs s = ser_loop process cs (s\<lparr>w_locker := lk_extend (w_locker s) nr\<rparr>)"

definition ser_complete :: "('q \<Rightarrow> outcome) \<Rightarrow> nat \<Rightarrow> 'q \<Rightarrow> 'q ser \<Rightarrow> 'q ser option option" where
  "ser_complete process pos q s = drain process pos (s\<lparr>in_flight := remove1 (pos, q) (in_flight s)\<rparr>)"

text \<open>
  A run of the serialiser: writes whose chunks lie below the extended length arrive, and writes in
  flight complete, in any order.
\<close>

inductive ser_step :: "('q \<Rightarrow> outcome) \<Rightarrow> 'q ser \<Rightarrow> 'q ser option \<Rightarrow> bool" for process where
  arrive: "\<forall>c\<in>set cs. fst c < nr \<Longrightarrow> ser_write process nr cs s = Some r
    \<Longrightarrow> ser_step process s (map_option snd r)"
| complete: "(pos, q) \<in> set (in_flight s) \<Longrightarrow> ser_complete process pos q s = Some r
    \<Longrightarrow> ser_step process s r"

inductive ser_reach :: "('q \<Rightarrow> outcome) \<Rightarrow> 'q ser \<Rightarrow> bool" for process where
  init: "ser_reach process ser_init"
| step: "ser_reach process s \<Longrightarrow> ser_step process s (Some s') \<Longrightarrow> ser_reach process s'"

subsection \<open>The waiting list\<close>

lemma pending_index_Some:
  "pending_index pos xs = Some i \<Longrightarrow> i < length xs \<and> fst (xs ! i) = pos"
  by (induction xs arbitrary: i) (auto split: if_splits)

lemma pending_index_None: "pending_index pos xs = None \<longleftrightarrow> pos \<notin> fst ` set xs"
proof (induction xs)
  case (Cons x xs)
  then show ?case by (cases x) simp
qed simp

lemma mset_swap_pop:
  assumes "i < length xs"
  shows "mset xs = add_mset (xs ! i) (mset (swap_pop i xs))"
proof (cases xs rule: rev_cases)
  case (snoc ys y)
  show ?thesis
  proof (cases "i < length ys")
    case True
    then have "swap_pop i xs = ys[i := y]" "xs ! i = ys ! i"
      using snoc by (simp_all add: swap_pop_def list_update_append nth_append butlast_append)
    moreover have "mset ys = add_mset (ys ! i) (mset ys - {#ys ! i#})" using True by simp
    ultimately show ?thesis using snoc mset_update [OF True, of y]
      by (metis add_mset_commute mset.simps(1) mset.simps(2) mset_append union_mset_add_mset_right
          add.right_neutral)
  next
    case False
    then have "i = length ys" using snoc assms by simp
    then show ?thesis using snoc by (simp add: swap_pop_def list_update_append)
  qed
qed (use assms in simp)

lemma length_swap_pop [simp]: "length (swap_pop i xs) = length xs - 1"
  by (simp add: swap_pop_def)

lemma set_swap_pop: "i < length xs \<Longrightarrow> set (swap_pop i xs) \<subseteq> set xs"
  using mset_swap_pop [of i xs] by (metis insert_subset mset_eq_setD order_refl set_mset_add_mset_insert set_mset_mset)

subsection \<open>The completer's loop returns\<close>

text \<open>Every iteration takes one write off the waiting list, whatever \<open>process\<close> does.\<close>

lemma drain_returns_le:
  "\<exists>r. drain process pos s = Some r \<and> (\<forall>s'. r = Some s' \<longrightarrow> length (wqs_pending s') \<le> length (wqs_pending s))"
proof (induction "length (wqs_pending s)" arbitrary: s rule: less_induct)
  case less
  show ?case
  proof (cases "pending_index pos (wqs_pending s)")
    case None
    then show ?thesis by (subst drain.simps) (auto simp: unlock_pos_def)
  next
    case (Some i)
    define q where "q = snd (wqs_pending s ! i)"
    define s1 where "s1 = s\<lparr>wqs_pending := swap_pop i (wqs_pending s), started := started s @ [q]\<rparr>"
    define s2 where "s2 = s1\<lparr>in_flight := (pos, q) # in_flight s1\<rparr>"
    have i: "i < length (wqs_pending s)" using pending_index_Some [OF Some] by simp
    have l: "length (wqs_pending s1) < length (wqs_pending s)" "length (wqs_pending s2) < length (wqs_pending s)"
      using i by (simp_all add: s1_def s2_def)
    have step: "drain process pos s = (if finished (process q)
          then Option.bind (drain process pos s1) (\<lambda>r. case r of None \<Rightarrow> Some None
            | Some s2 \<Rightarrow> if ret_code (process q) = 0 then Some (Some s2) else drain process pos s2)
          else if ret_code (process q) = 0 then Some (Some s2) else drain process pos s2)"
      using Some by (subst drain.simps) (simp add: Let_def q_def s1_def s2_def)
    obtain r1 where r1: "drain process pos s1 = Some r1"
      "\<And>s'. r1 = Some s' \<Longrightarrow> length (wqs_pending s') \<le> length (wqs_pending s1)"
      using less [OF l(1)] by blast
    show ?thesis
    proof (cases "finished (process q)")
      case False
      then show ?thesis using step less [OF l(2)] l by (auto intro: less_imp_le order_trans)
    next
      case True
      show ?thesis
      proof (cases r1)
        case None
        then show ?thesis using step r1(1) True by simp
      next
        case (Some s3)
        with r1(2) l have l3: "length (wqs_pending s3) < length (wqs_pending s)" by fastforce
        show ?thesis using step r1(1) True Some less [OF l3] l3 by (auto intro: less_imp_le order_trans)
      qed
    qed
  qed
qed

lemma drain_returns: "\<exists>r. drain process pos s = Some r"
  using drain_returns_le by blast

lemma ser_submit_returns: "\<exists>r. ser_submit process pos q s = Some r"
proof (cases "lk_try_lock (w_locker s) pos")
  case (Some al)
  obtain a lk where al: "al = (a, lk)" by (cases al)
  obtain r where "drain process pos (s\<lparr>w_locker := lk, started := started s @ [q]\<rparr>) = Some r"
    using drain_returns by blast
  then show ?thesis using Some al by (simp add: ser_submit_def Let_def)
qed (simp add: ser_submit_def)

lemma ser_loop_returns: "\<exists>r. ser_loop process cs s = Some r"
proof (induction cs arbitrary: s)
  case (Cons c cs)
  obtain pos q where c: "c = (pos, q)" by (cases c)
  obtain r where "ser_submit process pos q s = Some r" using ser_submit_returns [of process pos q s] by auto
  with c Cons show ?case by (cases r) auto
qed simp

subsection \<open>The invariant\<close>

definition ser_inv :: "'q ser \<Rightarrow> bool" where
  "ser_inv s \<longleftrightarrow> distinct (map fst (in_flight s))
     \<and> (\<forall>p. held (w_locker s) p \<longleftrightarrow> p \<in> fst ` set (in_flight s))
     \<and> fst ` set (wqs_pending s) \<subseteq> fst ` set (in_flight s)"

definition accepted :: "'q ser \<Rightarrow> 'q multiset" where
  "accepted s = mset (started s) + image_mset snd (mset (wqs_pending s))"

text \<open>While the completer of a write to \<open>pos\<close> runs, \<open>pos\<close> is locked with no write in flight.\<close>

definition ser_inv_at :: "nat \<Rightarrow> 'q ser \<Rightarrow> bool" where
  "ser_inv_at pos s \<longleftrightarrow> distinct (map fst (in_flight s)) \<and> pos \<notin> fst ` set (in_flight s)
     \<and> (\<forall>p. held (w_locker s) p \<longleftrightarrow> p = pos \<or> p \<in> fst ` set (in_flight s))
     \<and> fst ` set (wqs_pending s) \<subseteq> insert pos (fst ` set (in_flight s))"

lemma ser_inv_at_start:
  assumes "ser_inv_at pos s"
  shows "ser_inv (s\<lparr>in_flight := (pos, q) # in_flight s\<rparr>)"
  using assms by (auto simp: ser_inv_def ser_inv_at_def)

lemma ser_inv_complete:
  assumes "ser_inv s" "(pos, q) \<in> set (in_flight s)"
  shows "ser_inv_at pos (s\<lparr>in_flight := remove1 (pos, q) (in_flight s)\<rparr>)"
proof -
  have d: "distinct (in_flight s)" "distinct (map fst (in_flight s))" using assms by (auto simp: ser_inv_def distinct_map)
  have set: "set (remove1 (pos, q) (in_flight s)) = set (in_flight s) - {(pos, q)}"
    using d by simp
  have "fst ` (set (in_flight s) - {(pos, q)}) = fst ` set (in_flight s) - {pos}"
    using d assms(2) by (auto simp: distinct_map inj_on_def image_iff) (metis fst_conv snd_conv)
  moreover have "pos \<in> fst ` set (in_flight s)" using assms(2) by force
  moreover have "distinct (map fst (remove1 (pos, q) (in_flight s)))"
    using d by (simp add: distinct_map inj_on_def set)
  ultimately show ?thesis using assms(1)
    by (simp add: ser_inv_def ser_inv_at_def set del: set_remove1_eq) blast
qed

definition keeps :: "'q multiset \<Rightarrow> 'q ser \<Rightarrow> 'q ser \<Rightarrow> bool" where
  "keeps new s s' \<longleftrightarrow> ser_inv s' \<and> accepted s' = accepted s + new
     \<and> length (w_locker s') = length (w_locker s)"

lemma drain_ok:
  assumes ok: "\<And>q. ret_code (process q) = 0" and inv: "ser_inv_at pos s"
  shows "\<exists>s'. drain process pos s = Some (Some s') \<and> keeps {#} s s'"
  using inv
proof (induction "length (wqs_pending s)" arbitrary: s rule: less_induct)
  case less
  show ?case
  proof (cases "pending_index pos (wqs_pending s)")
    case None
    then have "pos \<notin> fst ` set (wqs_pending s)" "held (w_locker s) pos"
      using less.prems by (simp_all add: pending_index_None ser_inv_at_def)
    then show ?thesis using None less.prems
      by (subst drain.simps) (auto simp: unlock_pos_def lk_unlock_eq keeps_def ser_inv_def ser_inv_at_def accepted_def)
  next
    case (Some i)
    define q where "q = snd (wqs_pending s ! i)"
    define s1 where "s1 = s\<lparr>wqs_pending := swap_pop i (wqs_pending s), started := started s @ [q]\<rparr>"
    have i: "i < length (wqs_pending s)" using pending_index_Some [OF Some] by simp
    have inv1: "ser_inv_at pos s1"
      using less.prems order_trans [OF image_mono [OF set_swap_pop [OF i], of fst]]
      by (simp add: ser_inv_at_def s1_def)
    have acc: "accepted s1 = accepted s" "length (w_locker s1) = length (w_locker s)"
      using mset_swap_pop [OF i] by (simp_all add: accepted_def s1_def q_def)
    have step: "drain process pos s = (if finished (process q) then drain process pos s1
          else Some (Some (s1\<lparr>in_flight := (pos, q) # in_flight s1\<rparr>)))"
      using Some drain_returns [of process pos s1] ok
      by (subst drain.simps) (auto simp: Let_def q_def s1_def split: option.splits)
    show ?thesis
    proof (cases "finished (process q)")
      case True
      have "length (wqs_pending s1) < length (wqs_pending s)" using i by (simp add: s1_def)
      from less.hyps [OF this inv1] show ?thesis using True step acc by (simp add: keeps_def)
    next
      case False
      then show ?thesis using step acc ser_inv_at_start [OF inv1]
        by (simp add: keeps_def) (simp add: accepted_def)
    qed
  qed
qed

lemma ser_submit_ok:
  assumes ok: "\<And>q. ret_code (process q) = 0" and inv: "ser_inv s" and pos: "pos < length (w_locker s)"
  shows "\<exists>s'. ser_submit process pos q s = Some (Some (0, s')) \<and> keeps {#q#} s s'"
proof (cases "held (w_locker s) pos")
  case True
  then show ?thesis using inv pos
    by (auto simp: ser_submit_def lk_try_lock_eq keeps_def ser_inv_def accepted_def)
next
  case False
  define s1 where "s1 = s\<lparr>w_locker := (w_locker s)[pos := True], started := started s @ [q]\<rparr>"
  have inv1: "ser_inv_at pos s1" using inv pos False by (auto simp: ser_inv_def ser_inv_at_def s1_def)
  have acc: "accepted s1 = accepted s + {#q#}" "length (w_locker s1) = length (w_locker s)"
    by (simp_all add: accepted_def s1_def)
  have step: "ser_submit process pos q s = (if finished (process q)
      then map_option (map_option (Pair 0)) (drain process pos s1)
      else Some (Some (0, s1\<lparr>in_flight := (pos, q) # in_flight s1\<rparr>)))"
    using False pos ok by (simp add: ser_submit_def lk_try_lock_eq Let_def s1_def)
  show ?thesis
  proof (cases "finished (process q)")
    case True
    then show ?thesis using step drain_ok [of process, OF ok inv1] acc by (auto simp: keeps_def)
  next
    case False
    then show ?thesis using step ser_inv_at_start [OF inv1] acc
      by (simp add: keeps_def) (simp add: accepted_def)
  qed
qed

lemma ser_loop_ok:
  assumes ok: "\<And>q. ret_code (process q) = 0"
  shows "ser_inv s \<Longrightarrow> \<forall>c\<in>set cs. fst c < length (w_locker s) \<Longrightarrow>
    \<exists>s'. ser_loop process cs s = Some (Some (0, s')) \<and> keeps (image_mset snd (mset cs)) s s'"
proof (induction cs arbitrary: s)
  case Nil
  then show ?case by (simp add: keeps_def)
next
  case (Cons c cs)
  obtain pos q where c: "c = (pos, q)" by (cases c)
  obtain s1 where s1: "ser_submit process pos q s = Some (Some (0, s1))" "keeps {#q#} s s1"
    using ser_submit_ok [of process, OF ok Cons.prems(1)] Cons.prems(2) c by force
  with Cons.IH [of s1] Cons.prems obtain s2 where
    "ser_loop process cs s1 = Some (Some (0, s2))" "keeps (image_mset snd (mset cs)) s1 s2"
    by (auto simp: keeps_def)
  then show ?case using s1 c by (auto simp: keeps_def)
qed

lemma ser_inv_extend: "ser_inv (s\<lparr>w_locker := lk_extend (w_locker s) nr\<rparr>) \<longleftrightarrow> ser_inv s"
  by (simp add: ser_inv_def)

lemma ser_write_ok:
  assumes ok: "\<And>q. ret_code (process q) = 0" and "ser_inv s" and "\<forall>c\<in>set cs. fst c < nr"
  shows "\<exists>s'. ser_write process nr cs s = Some (Some (0, s')) \<and> ser_inv s'
    \<and> accepted s' = accepted s + image_mset snd (mset cs)"
proof -
  let ?s = "s\<lparr>w_locker := lk_extend (w_locker s) nr\<rparr>"
  have "ser_inv ?s" "\<forall>c\<in>set cs. fst c < length (w_locker ?s)"
    using assms by (auto simp: ser_inv_extend)
  from ser_loop_ok [of process, OF ok this] show ?thesis
    by (auto simp: ser_write_def keeps_def) (simp add: accepted_def)
qed

lemma ser_step_ok:
  assumes ok: "\<And>q. ret_code (process q) = 0" and inv: "ser_inv s" and st: "ser_step process s r"
  shows "\<exists>s'. r = Some s' \<and> ser_inv s'"
  using st
proof (cases rule: ser_step.cases)
  case (arrive cs nr r')
  then show ?thesis using ser_write_ok [of process, OF ok inv arrive(2)] by auto
next
  case (complete pos q)
  then show ?thesis using drain_ok [of process, OF ok ser_inv_complete [OF inv complete(1)]]
    by (auto simp: ser_complete_def keeps_def)
qed

lemma ser_reach_inv:
  assumes "ser_reach process s" and ok: "\<And>q. ret_code (process q) = 0"
  shows "ser_inv s"
  using assms(1)
proof induction
  case init
  then show ?case by (simp add: ser_inv_def ser_init_def held_def)
next
  case (step s s')
  then show ?case using ser_step_ok [of process, OF ok] by blast
qed

subsection \<open>Properties\<close>

lemma ser_step_total:
  assumes ok: "\<And>q. ret_code (process q) = 0" and "ser_reach process s"
  shows "ser_step process s r \<Longrightarrow> r \<noteq> None"
  using ser_step_ok [of process, OF ok ser_reach_inv [OF assms(2) ok]] by blast


definition demo_async :: "nat \<Rightarrow> outcome" where
  "demo_async q = Outcome 0 False"

lemma demo_write:
  "ser_write demo_async (Suc 0) [(0, q)] \<lparr>w_locker = lk, wqs_pending = p, in_flight = f, started = st\<rparr> =
    (if lk \<noteq> [] \<and> hd lk
     then Some (Some (0, \<lparr>w_locker = lk, wqs_pending = p @ [(0, q)], in_flight = f, started = st\<rparr>))
     else Some (Some (0, \<lparr>w_locker = True # tl lk, wqs_pending = p, in_flight = (0, q) # f, started = st @ [q]\<rparr>)))"
  by (cases lk) (auto simp: ser_write_def ser_submit_def lk_try_lock_def lk_extend_def bs_resize_def demo_async_def Let_def)

lemma demo_reach:
  "ser_reach demo_async \<lparr>w_locker = [True], wqs_pending = [(0, 8)], in_flight = [(0, 7)], started = [7]\<rparr>"
proof -
  have s: "ser_step demo_async s (Some s')" if "ser_write demo_async 1 [(0, q)] s = Some (Some (0, s'))" for q s s'
    using ser_step.arrive [of "[(0, q)]" 1 demo_async s, OF _ that] by simp
  show ?thesis
    by (rule ser_reach.step [OF ser_reach.step [OF ser_reach.init s [of 7]] s [of 8]])
      (auto simp: ser_init_def demo_write)
qed


text \<open>
  C31. The completer's loop returns: for every behaviour of \<open>process\<close>, refusals included, a
  completed write's completer ends after finitely many iterations, each of which takes one write
  off the waiting list.
\<close>

theorem drain_terminates:
  "\<exists>r. ser_complete process pos q s = Some r
    \<and> (\<forall>s'. r = Some s' \<longrightarrow> length (wqs_pending s') \<le> length (wqs_pending s))"
  using drain_returns_le [of process pos "s\<lparr>in_flight := remove1 (pos, q) (in_flight s)\<rparr>"]
  by (simp add: ser_complete_def)

lemma drain_terminates_witness:
  "\<exists>r. ser_complete (\<lambda>q. Outcome 5 True) 0 (7::nat)
     \<lparr>w_locker = [True], wqs_pending = [(0, 8), (0, 9)], in_flight = [(0, 7)], started = [7]\<rparr> = Some r"
  using drain_terminates [of "\<lambda>q. Outcome 5 True" 0 7
    "\<lparr>w_locker = [True], wqs_pending = [(0, 8), (0, 9)], in_flight = [(0, 7)], started = [7]\<rparr>"] by blast

lemma ser_complete_ok:
  assumes ok: "\<And>q. ret_code (process q) = 0" and inv: "ser_inv s" and q: "(pos, q) \<in> set (in_flight s)"
  shows "\<exists>s'. ser_complete process pos q s = Some (Some s') \<and> accepted s' = accepted s"
  using drain_ok [of process, OF ok ser_inv_complete [OF inv q]]
  by (auto simp: ser_complete_def keeps_def accepted_def)

text \<open>
  C13. No write is lost or started twice: when every \<open>process\<close> call is accepted, a submitted write
  returns 0 and adds exactly its chunks to the accepted ones (started or waiting), a completion
  changes nothing about them, and once nothing is in flight nothing waits and no position is locked.
\<close>

theorem serializer_conserves:
  assumes "\<And>q. ret_code (process q) = 0" and "ser_reach process s"
  shows "(\<forall>nr cs. (\<forall>c\<in>set cs. fst c < nr) \<longrightarrow>
        (\<exists>s'. ser_write process nr cs s = Some (Some (0, s')) \<and> accepted s' = accepted s + image_mset snd (mset cs)))
    \<and> (\<forall>pos q. (pos, q) \<in> set (in_flight s) \<longrightarrow>
        (\<exists>s'. ser_complete process pos q s = Some (Some s') \<and> accepted s' = accepted s))
    \<and> (in_flight s = [] \<longrightarrow> wqs_pending s = [] \<and> (\<forall>p. \<not> held (w_locker s) p))"
proof -
  note inv = ser_reach_inv [OF assms(2,1)]
  then have "in_flight s = [] \<longrightarrow> wqs_pending s = [] \<and> (\<forall>p. \<not> held (w_locker s) p)"
    by (auto simp: ser_inv_def)
  then show ?thesis
    using ser_write_ok [of process, OF assms(1) inv] ser_complete_ok [of process, OF assms(1) inv] by blast
qed

lemma serializer_conserves_witness:
  "\<exists>s'. ser_complete demo_async 0 7 \<lparr>w_locker = [True], wqs_pending = [(0, 8)], in_flight = [(0, 7)], started = [7]\<rparr>
     = Some (Some s') \<and> accepted s' = {#7, 8#}"
  using serializer_conserves [OF _ demo_reach] by (simp add: demo_async_def accepted_def add_mset_commute)



text \<open>
  The serialiser is not first-in-first-out: with one write of a stripe in flight and three
  waiting, the fourth is started before the third, because the last waiting write is swapped into
  the place of the removed one.
\<close>

theorem serializer_not_fifo:
  fixes a b c d :: 'q
  defines "p \<equiv> (\<lambda>_. Outcome 0 False)"
  shows "\<exists>s s1 s2 s3. ser_write p 1 [(0, a)] ser_init = Some (Some (0, s))
    \<and> ser_loop p [(0, b), (0, c), (0, d)] s = Some (Some (0, s1))
    \<and> ser_complete p 0 a s1 = Some (Some s2) \<and> ser_complete p 0 b s2 = Some (Some s3)
    \<and> started s3 = [a, b, d]"
  by (simp add: p_def ser_init_def ser_write_def ser_submit_def lk_try_lock_def lk_extend_def bs_resize_def Let_def
      ser_complete_def drain.simps swap_pop_def)

end
