(* ===== verification/Commands.thy ===== *)
theory Commands
  imports Target_Fsm
begin

text \<open>
  The path of a driver command: \<open>CmdHandler::handle\<close> makes a request, the handler of its operation
  turns the chain of cells into queries (\<open>for_each_celld.hpp\<close>), and the destructor of the request
  acknowledges the command with the error the request carries.

  The layouts and constants of \<open>linux/ublkdrv\<close> are not in the repository.  The operation codes are
  a parameter (\<open>cmd_ops\<close>); a cell descriptor and a command are read through the fields the sources
  use.  \<open>cmd_offset\<close> stands for the offset of a read, a write or a discard, whichever the command is.
  Queries complete before \<open>submit\<close> returns, as in theory Block_Dev, so a request is destroyed, and
  its command acknowledged, when its handler returns.
\<close>

subsection \<open>Cell chains\<close>

record celld =
  cd_offset :: nat
  cd_data_sz :: nat
  cd_ncelld :: nat

text \<open>
  The span over the cells is the shared memory; \<open>f\<close> gets the offset and the extent of a cell in it.
\<close>

fun for_each_celld ::
    "nat \<Rightarrow> nat \<Rightarrow> nat \<Rightarrow> celld list \<Rightarrow> nat \<Rightarrow> (nat \<Rightarrow> nat \<Rightarrow> nat \<Rightarrow> 's \<Rightarrow> (int \<times> 's) option) \<Rightarrow> 's
      \<Rightarrow> (int \<times> 's) option" where
  "for_each_celld off celldn 0 cellds cells_sz f s = Some (0, s)"
| "for_each_celld off celldn (Suc cellds_left) cellds cells_sz f s =
     (if celldn < length cellds then
        let cd = cellds ! celldn in
        if \<not> cd_offset cd + cd_data_sz cd \<le> cells_sz then Some (EINVAL, s)
        else do {
          (r, s') \<leftarrow> f off (cd_offset cd) (cd_data_sz cd) s;
          if r \<noteq> 0 then Some (r, s')
          else for_each_celld (u64_add off (cd_data_sz cd)) (cd_ncelld cd) cellds_left cellds cells_sz f s' }
      else Some (0, s))"

subsection \<open>Commands, requests and submitters\<close>

record cmd_ops =
  op_read :: nat
  op_write :: nat
  op_discard :: nat
  op_flush :: nat
  op_max :: nat

record cmd =
  cmd_id :: nat
  cmd_op :: nat
  cmd_offset :: nat
  cmd_fcdn :: nat
  cmd_cds_nr :: nat
  cmd_sz :: nat

record 'c submitters =
  reader :: "'c read_fn"
  writer :: "'c write_fn"
  flusher :: "'c \<Rightarrow> (int \<times> int \<times> 'c) option"
  discarder :: "nat \<Rightarrow> nat \<Rightarrow> 'c \<Rightarrow> (int \<times> int \<times> 'c) option"

text \<open>What a handler works on: the error of the request, the cells and the target's state.\<close>

record 'c io =
  req_err :: int
  cells :: "byte list"
  dev :: 'c

definition cmd_read_cell ::
    "'c submitters \<Rightarrow> nat \<Rightarrow> nat \<Rightarrow> nat \<Rightarrow> 'c io \<Rightarrow> (int \<times> 'c io) option" where
  "cmd_read_cell sub off cell_off sz io = do {
     let buf = subspan (cells io) cell_off sz;
     expects (buf \<noteq> []);
     (res, e, buf', d) \<leftarrow> reader sub off buf (dev io);
     Some (res, io\<lparr>req_err := merge_err (req_err io) e, cells := copy_at (cells io) cell_off buf', dev := d\<rparr>) }"

definition cmd_read_handle ::
    "'c submitters \<Rightarrow> celld list \<Rightarrow> cmd \<Rightarrow> 'c io \<Rightarrow> (int \<times> 'c io) option" where
  "cmd_read_handle sub cellds cmd io =
     for_each_celld (cmd_offset cmd) (cmd_fcdn cmd) (cmd_cds_nr cmd) cellds (length (cells io)) (cmd_read_cell sub) io"

definition cmd_write_cell ::
    "'c submitters \<Rightarrow> nat \<Rightarrow> nat \<Rightarrow> nat \<Rightarrow> 'c io \<Rightarrow> (int \<times> 'c io) option" where
  "cmd_write_cell sub off cell_off sz io = do {
     let buf = subspan (cells io) cell_off sz;
     expects (buf \<noteq> []);
     (res, e, d) \<leftarrow> writer sub off buf (dev io);
     Some (res, io\<lparr>req_err := merge_err (req_err io) e, dev := d\<rparr>) }"

definition cmd_write_handle ::
    "'c submitters \<Rightarrow> celld list \<Rightarrow> cmd \<Rightarrow> 'c io \<Rightarrow> (int \<times> 'c io) option" where
  "cmd_write_handle sub cellds cmd io =
     for_each_celld (cmd_offset cmd) (cmd_fcdn cmd) (cmd_cds_nr cmd) cellds (length (cells io)) (cmd_write_cell sub) io"

definition cmd_flush_handle :: "'c submitters \<Rightarrow> 'c io \<Rightarrow> (int \<times> 'c io) option" where
  "cmd_flush_handle sub io = do {
     (res, e, d) \<leftarrow> flusher sub (dev io);
     Some (res, io\<lparr>req_err := merge_err (req_err io) e, dev := d\<rparr>) }"

definition cmd_discard_handle :: "'c submitters \<Rightarrow> cmd \<Rightarrow> 'c io \<Rightarrow> (int \<times> 'c io) option" where
  "cmd_discard_handle sub cmd io = do {
     (res, e, d) \<leftarrow> discarder sub (cmd_offset cmd) (cmd_sz cmd) (dev io);
     Some (res, io\<lparr>req_err := merge_err (req_err io) e, dev := d\<rparr>) }"

text \<open>The submitters used when a target has none of its own, and the flusher of the arrays.\<close>

definition null_flush :: "'c \<Rightarrow> (int \<times> int \<times> 'c) option" where
  "null_flush d = Some (0, 0, d)"

definition null_discard :: "nat \<Rightarrow> nat \<Rightarrow> 'c \<Rightarrow> (int \<times> int \<times> 'c) option" where
  "null_discard off sz d = Some (0, 0, d)"

fun flq_loop :: "('c \<Rightarrow> (int \<times> int \<times> 'c) option) list \<Rightarrow> int \<Rightarrow> 'c \<Rightarrow> (int \<times> 'c) option" where
  "flq_loop [] e d = Some (e, d)"
| "flq_loop (h # hs) e d = do { (res, e', d') \<leftarrow> h d; flq_loop hs (merge_err e e') d' }"

definition flq_composite :: "('c \<Rightarrow> (int \<times> int \<times> 'c) option) list \<Rightarrow> 'c \<Rightarrow> (int \<times> int \<times> 'c) option" where
  "flq_composite hs d = do { (e, d') \<leftarrow> flq_loop hs 0 d; Some (0, e, d') }"

subsection \<open>The command handler\<close>

text \<open>
  The request handlers of a target: the four adaptors, and \<open>ReqOpErrHandler<eVal>\<close>.  An adaptor
  casts the request to its own type; a cast of another request is undefined (\<open>None\<close>).
\<close>

datatype req_handler = ReadAdaptor | WriteAdaptor | FlushAdaptor | DiscardAdaptor | OpErr int
datatype req_kind = ReadReq | WriteReq | DiscardReq | FlushReq | PlainReq

definition read_adaptor :: "'c submitters \<Rightarrow> celld list \<Rightarrow> cmd \<Rightarrow> 'c io \<Rightarrow> (int \<times> 'c io) option" where
  "read_adaptor sub cellds cmd io = do { (res, io') \<leftarrow> cmd_read_handle sub cellds cmd io; Some (0, io') }"

definition write_adaptor :: "'c submitters \<Rightarrow> celld list \<Rightarrow> cmd \<Rightarrow> 'c io \<Rightarrow> (int \<times> 'c io) option" where
  "write_adaptor sub cellds cmd io = do { (res, io') \<leftarrow> cmd_write_handle sub cellds cmd io; Some (0, io') }"

definition flush_adaptor :: "'c submitters \<Rightarrow> 'c io \<Rightarrow> (int \<times> 'c io) option" where
  "flush_adaptor sub io = do { (res, io') \<leftarrow> cmd_flush_handle sub io; Some (0, io') }"

definition discard_adaptor :: "'c submitters \<Rightarrow> cmd \<Rightarrow> 'c io \<Rightarrow> (int \<times> 'c io) option" where
  "discard_adaptor sub cmd io = do { (res, io') \<leftarrow> cmd_discard_handle sub cmd io; Some (0, io') }"

definition req_op_err :: "int \<Rightarrow> 'c io \<Rightarrow> (int \<times> 'c io) option" where
  "req_op_err eVal io = Some (0, io\<lparr>req_err := eVal\<rparr>)"

lemmas adaptor_defs = read_adaptor_def write_adaptor_def flush_adaptor_def discard_adaptor_def req_op_err_def

declare adaptor_defs [simp]

fun adaptor_handle ::
    "req_handler \<Rightarrow> req_kind \<Rightarrow> 'c submitters \<Rightarrow> celld list \<Rightarrow> cmd \<Rightarrow> 'c io \<Rightarrow> (int \<times> 'c io) option" where
  "adaptor_handle ReadAdaptor ReadReq sub cellds cmd io = read_adaptor sub cellds cmd io"
| "adaptor_handle WriteAdaptor WriteReq sub cellds cmd io = write_adaptor sub cellds cmd io"
| "adaptor_handle FlushAdaptor FlushReq sub cellds cmd io = flush_adaptor sub io"
| "adaptor_handle DiscardAdaptor DiscardReq sub cellds cmd io = discard_adaptor sub cmd io"
| "adaptor_handle (OpErr eVal) k sub cellds cmd io = req_op_err eVal io"
| "adaptor_handle _ _ sub cellds cmd io = None"

definition master_handlers :: "cmd_ops \<Rightarrow> (nat \<times> req_handler) list" where
  "master_handlers ops = [(op_read ops, ReadAdaptor), (op_write ops, WriteAdaptor),
     (op_flush ops, FlushAdaptor), (op_discard ops, DiscardAdaptor)]"

fun install_handlers :: "(nat \<times> req_handler) list \<Rightarrow> req_handler list \<Rightarrow> req_handler list option" where
  "install_handlers [] hs = Some hs"
| "install_handlers ((op, h) # maphs) hs = do {
     expects (op < length hs - 1);
     install_handlers maphs (hs[op := h]) }"

definition cmd_handler_create :: "cmd_ops \<Rightarrow> (nat \<times> req_handler) list \<Rightarrow> req_handler list option" where
  "cmd_handler_create ops maphs = install_handlers maphs (replicate (op_max ops + 2) (OpErr ENOTSUP))"

text \<open>The factory that \<open>Master::create\<close> puts into a target makes a handler over the same map for every slave.\<close>

definition factory_create_unique :: "cmd_ops \<Rightarrow> (nat \<times> req_handler) list \<Rightarrow> req_handler list option" where
  "factory_create_unique ops maphs = cmd_handler_create ops maphs"

text \<open>The requests check their operation, and those with data the spans they hold.\<close>

definition cells_holder :: "celld list \<Rightarrow> byte list \<Rightarrow> unit option" where
  "cells_holder cellds bytes = do { expects (cellds \<noteq> []); expects (bytes \<noteq> []) }"

definition read_req :: "cmd_ops \<Rightarrow> cmd \<Rightarrow> celld list \<Rightarrow> byte list \<Rightarrow> req_kind option" where
  "read_req ops cmd cellds bytes = do { cells_holder cellds bytes; expects (op_read ops = cmd_op cmd); Some ReadReq }"

definition write_req :: "cmd_ops \<Rightarrow> cmd \<Rightarrow> celld list \<Rightarrow> byte list \<Rightarrow> req_kind option" where
  "write_req ops cmd cellds bytes = do { cells_holder cellds bytes; expects (op_write ops = cmd_op cmd); Some WriteReq }"

definition discard_req :: "cmd_ops \<Rightarrow> cmd \<Rightarrow> req_kind option" where
  "discard_req ops cmd = do { expects (op_discard ops = cmd_op cmd); Some DiscardReq }"

definition flush_req :: "cmd_ops \<Rightarrow> cmd \<Rightarrow> req_kind option" where
  "flush_req ops cmd = do { expects (op_flush ops = cmd_op cmd); Some FlushReq }"

definition make_req :: "cmd_ops \<Rightarrow> cmd \<Rightarrow> celld list \<Rightarrow> byte list \<Rightarrow> req_kind option" where
  "make_req ops cmd cellds bytes =
     (if cmd_op cmd = op_read ops then read_req ops cmd cellds bytes
      else if cmd_op cmd = op_write ops then write_req ops cmd cellds bytes
      else if cmd_op cmd = op_discard ops then discard_req ops cmd
      else if cmd_op cmd = op_flush ops then flush_req ops cmd
      else Some PlainReq)"

lemma make_req_eq:
  "make_req ops cmd cellds bytes =
     (if cmd_op cmd = op_read ops then do { expects (cellds \<noteq> [] \<and> bytes \<noteq> []); Some ReadReq }
      else if cmd_op cmd = op_write ops then do { expects (cellds \<noteq> [] \<and> bytes \<noteq> []); Some WriteReq }
      else if cmd_op cmd = op_discard ops then Some DiscardReq
      else if cmd_op cmd = op_flush ops then Some FlushReq
      else Some PlainReq)"
  by (simp add: make_req_def read_req_def write_req_def discard_req_def flush_req_def cells_holder_def expects_def)

text \<open>An acknowledgement is the id of the command and the error cut to 16 bits.\<close>

type_synonym cmd_ack = "nat \<times> 16 word"

record 'c device =
  dv_cells :: "byte list"
  dv_target :: 'c
  dv_acks :: "cmd_ack list"

text \<open>The completer of every request.\<close>

definition acknowledgement :: "cmd \<Rightarrow> int \<Rightarrow> cmd_ack" where
  "acknowledgement cmd err = (cmd_id cmd, word_of_int err)"

declare acknowledgement_def [simp]

definition cmd_handle ::
    "cmd_ops \<Rightarrow> req_handler list \<Rightarrow> 'c submitters \<Rightarrow> celld list \<Rightarrow> cmd \<Rightarrow> 'c device \<Rightarrow> (int \<times> 'c device) option" where
  "cmd_handle ops hs sub cellds cmd dv = do {
     k \<leftarrow> make_req ops cmd cellds (dv_cells dv);
     let hid = min (cmd_op cmd) (length hs - 1);
     expects (hid < length hs);
     (r, io) \<leftarrow> adaptor_handle (hs ! hid) k sub cellds cmd
       \<lparr>req_err = 0, cells = dv_cells dv, dev = dv_target dv\<rparr>;
     Some (r, \<lparr>dv_cells = cells io, dv_target = dev io,
               dv_acks = dv_acks dv @ [acknowledgement cmd (req_err io)]\<rparr>) }"

subsection \<open>Dispatch and acknowledgement\<close>

definition cmd_ops_ok :: "cmd_ops \<Rightarrow> bool" where
  "cmd_ops_ok ops \<longleftrightarrow> distinct [op_read ops, op_write ops, op_discard ops, op_flush ops]
     \<and> (\<forall>op\<in>{op_read ops, op_write ops, op_discard ops, op_flush ops}. op \<le> op_max ops)"

definition handler_of :: "cmd_ops \<Rightarrow> nat \<Rightarrow> req_handler" where
  "handler_of ops op = (if op = op_read ops then ReadAdaptor else if op = op_write ops then WriteAdaptor
     else if op = op_discard ops then DiscardAdaptor else if op = op_flush ops then FlushAdaptor
     else OpErr ENOTSUP)"

lemma install_master:
  assumes "cmd_ops_ok ops" "length xs = op_max ops + 2" "\<forall>i < length xs. xs ! i = OpErr ENOTSUP"
  shows "\<exists>hs. install_handlers (master_handlers ops) xs = Some hs \<and> length hs = op_max ops + 2
    \<and> (\<forall>op. hs ! min op (op_max ops + 1) = handler_of ops op)"
proof -
  let ?hs = "xs[op_read ops := ReadAdaptor, op_write ops := WriteAdaptor,
    op_flush ops := FlushAdaptor, op_discard ops := DiscardAdaptor]"
  have "?hs ! min op (op_max ops + 1) = handler_of ops op" for op
    using assms by (cases "op \<le> op_max ops") (auto simp: cmd_ops_ok_def handler_of_def nth_list_update min_def)
  moreover have "install_handlers (master_handlers ops) xs = Some ?hs"
    using assms(1,2) by (simp add: master_handlers_def cmd_ops_ok_def less_Suc_eq_le)
  ultimately show ?thesis using assms(2) by simp
qed

lemma cmd_handler_create_eq:
  assumes "cmd_ops_ok ops"
  shows "\<exists>hs. cmd_handler_create ops (master_handlers ops) = Some hs \<and> length hs = op_max ops + 2
    \<and> (\<forall>op. hs ! min op (op_max ops + 1) = handler_of ops op)"
  unfolding cmd_handler_create_def
proof (rule install_master [OF assms length_replicate], intro allI impI)
  fix i assume "i < length (replicate (op_max ops + 2) (OpErr ENOTSUP))"
  then show "replicate (op_max ops + 2) (OpErr ENOTSUP) ! i = OpErr ENOTSUP"
    unfolding length_replicate by (rule nth_replicate)
qed

definition master_hs :: "cmd_ops \<Rightarrow> req_handler list" where
  "master_hs ops = the (cmd_handler_create ops (master_handlers ops))"

lemma master_hs:
  assumes "cmd_ops_ok ops"
  shows "length (master_hs ops) = op_max ops + 2" "master_hs ops ! min op (op_max ops + 1) = handler_of ops op"
  using cmd_handler_create_eq [OF assms] by (auto simp: master_hs_def)

lemma cmd_handle_eq:
  assumes "cmd_ops_ok ops"
  shows "cmd_handle ops (master_hs ops) sub cellds cmd dv = do {
     k \<leftarrow> make_req ops cmd cellds (dv_cells dv);
     (r, io) \<leftarrow> adaptor_handle (handler_of ops (cmd_op cmd)) k sub cellds cmd
       \<lparr>req_err = 0, cells = dv_cells dv, dev = dv_target dv\<rparr>;
     Some (r, \<lparr>dv_cells = cells io, dv_target = dev io,
               dv_acks = dv_acks dv @ [(cmd_id cmd, word_of_int (req_err io))]\<rparr>) }"
  using master_hs [OF assms] by (simp add: cmd_handle_def Let_def min_def)

lemma adaptor_returns_zero:
  "adaptor_handle h k sub cellds cmd io = Some (r, io') \<Longrightarrow> r = 0"
  by (cases "(h, k, sub, cellds, cmd, io)" rule: adaptor_handle.cases) (auto simp: bind_eq_Some_conv)

lemma cmd_handle_one_ack:
  assumes "cmd_handle ops hs sub cellds cmd dv = Some (r, dv')"
  shows "r = 0 \<and> (\<exists>e. dv_acks dv' = dv_acks dv @ [(cmd_id cmd, e)])"
  using assms adaptor_returns_zero
  by (fastforce simp: cmd_handle_def bind_eq_Some_conv Let_def)


definition demo_ops :: cmd_ops where
  "demo_ops = \<lparr>op_read = 0, op_write = 1, op_discard = 3, op_flush = 2, op_max = 3\<rparr>"

definition inmem_subs :: "inmem submitters" where
  "inmem_subs = \<lparr>reader = inmem_read, writer = inmem_write, flusher = null_flush, discarder = null_discard\<rparr>"

lemma demo_ops_ok: "cmd_ops_ok demo_ops"
  by (simp add: cmd_ops_ok_def demo_ops_def)


text \<open>
  A command whose operation the target has no handler for is acknowledged \<open>ENOTSUP\<close> and
  touches neither the cells nor the target: the handlers installed by \<open>Master::create\<close> cover the
  four operations, and every other code, however large, falls on the not-supported handler.
\<close>

theorem unsupported_refused:
  assumes "cmd_ops_ok ops" "cmd_op cmd \<notin> {op_read ops, op_write ops, op_discard ops, op_flush ops}"
  shows "cmd_handle ops (master_hs ops) sub cellds cmd dv =
    Some (0, dv\<lparr>dv_acks := dv_acks dv @ [(cmd_id cmd, word_of_int ENOTSUP)]\<rparr>)"
  using assms(2) by (simp add: cmd_handle_eq [OF assms(1)] make_req_eq handler_of_def)

lemma unsupported_refused_witness:
  "cmd_handle demo_ops (master_hs demo_ops) inmem_subs []
      \<lparr>cmd_id = 5, cmd_op = 77, cmd_offset = 0, cmd_fcdn = 0, cmd_cds_nr = 0, cmd_sz = 0\<rparr>
      \<lparr>dv_cells = [9], dv_target = \<lparr>mem = [], mem_sz = 0\<rparr>, dv_acks = []\<rparr> =
    Some (0, \<lparr>dv_cells = [9], dv_target = \<lparr>mem = [], mem_sz = 0\<rparr>, dv_acks = [(5, 95)]\<rparr>)"
  by (subst unsupported_refused [OF demo_ops_ok]) (simp_all add: demo_ops_def ENOTSUP_def)

end
