(* ===== verification/Command_Io.thy ===== *)
theory Command_Io
  imports Commands Raid0
begin

text \<open>
  What a read or a write command does to a working device: its cells, in the order of their chain,
  stand for consecutive bytes of the device.
\<close>

subsection \<open>The cells of a chain\<close>

fun cell_chain :: "celld list \<Rightarrow> nat \<Rightarrow> nat \<Rightarrow> celld list" where
  "cell_chain cellds celldn 0 = []"
| "cell_chain cellds celldn (Suc n) =
     (if celldn < length cellds
      then cellds ! celldn # cell_chain cellds (cd_ncelld (cellds ! celldn)) n else [])"

definition chain_sz :: "celld list \<Rightarrow> nat" where
  "chain_sz cds = sum_list (map cd_data_sz cds)"

definition cell_bytes :: "byte list \<Rightarrow> celld \<Rightarrow> byte list" where
  "cell_bytes mm cd = subspan mm (cd_offset cd) (cd_data_sz cd)"

definition chain_bytes :: "byte list \<Rightarrow> celld list \<Rightarrow> byte list" where
  "chain_bytes mm cds = concat (map (cell_bytes mm) cds)"

definition cells_in :: "nat \<Rightarrow> celld list \<Rightarrow> bool" where
  "cells_in n cds \<longleftrightarrow> (\<forall>cd\<in>set cds. cd_data_sz cd \<noteq> 0 \<and> cd_offset cd + cd_data_sz cd \<le> n)"

definition cells_apart :: "celld list \<Rightarrow> bool" where
  "cells_apart cds \<longleftrightarrow> sorted_wrt (\<lambda>a b. cd_offset a + cd_data_sz a \<le> cd_offset b
     \<or> cd_offset b + cd_data_sz b \<le> cd_offset a) cds"

lemma chain_sz_simps [simp]:
  "chain_sz [] = 0" "chain_sz (cd # cds) = cd_data_sz cd + chain_sz cds"
  by (simp_all add: chain_sz_def)

lemma chain_bytes_simps [simp]:
  "chain_bytes mm [] = []" "chain_bytes mm (cd # cds) = cell_bytes mm cd @ chain_bytes mm cds"
  by (simp_all add: chain_bytes_def)

lemma cells_in_simps [simp]:
  "cells_in n []"
  "cells_in n (cd # cds) \<longleftrightarrow> cd_data_sz cd \<noteq> 0 \<and> cd_offset cd + cd_data_sz cd \<le> n \<and> cells_in n cds"
  by (auto simp: cells_in_def)

lemma length_cell_bytes [simp]:
  "cd_offset cd + cd_data_sz cd \<le> length mm \<Longrightarrow> length (cell_bytes mm cd) = cd_data_sz cd"
  by (simp add: cell_bytes_def)

lemma length_chain_bytes [simp]: "cells_in (length mm) cds \<Longrightarrow> length (chain_bytes mm cds) = chain_sz cds"
  by (induction cds) simp_all

text \<open>Writing the bytes \<open>bs\<close> into the cells one after the other.\<close>

fun scatter :: "byte list \<Rightarrow> celld list \<Rightarrow> byte list \<Rightarrow> byte list" where
  "scatter mm [] bs = mm"
| "scatter mm (cd # cds) bs =
     scatter (copy_at mm (cd_offset cd) (take (cd_data_sz cd) bs)) cds (drop (cd_data_sz cd) bs)"

lemma length_scatter [simp]:
  "cells_in (length mm) cds \<Longrightarrow> length bs = chain_sz cds \<Longrightarrow> length (scatter mm cds bs) = length mm"
  by (induction mm cds bs rule: scatter.induct) simp_all

lemma nth_scatter_out:
  assumes "cells_in (length mm) cds" "length bs = chain_sz cds" "i < length mm"
    and "\<forall>cd\<in>set cds. \<not> (cd_offset cd \<le> i \<and> i < cd_offset cd + cd_data_sz cd)"
  shows "scatter mm cds bs ! i = mm ! i"
  using assms
proof (induction mm cds bs rule: scatter.induct)
  case (2 mm cd cds bs)
  have "length (take (cd_data_sz cd) bs) = cd_data_sz cd" using 2(3) by simp
  then show ?case using 2 by (simp add: nth_copy_at_out)
qed simp

lemma cell_bytes_scatter_apart:
  assumes "cells_in (length mm) cds" "length bs = chain_sz cds" "cd_offset cd + cd_data_sz cd \<le> length mm"
    and "\<forall>b\<in>set cds. cd_offset cd + cd_data_sz cd \<le> cd_offset b \<or> cd_offset b + cd_data_sz b \<le> cd_offset cd"
  shows "cell_bytes (scatter mm cds bs) cd = cell_bytes mm cd"
proof (rule nth_equalityI)
  have l: "cd_offset cd + cd_data_sz cd \<le> length (scatter mm cds bs)" using assms(1-3) by simp
  then show "length (cell_bytes (scatter mm cds bs) cd) = length (cell_bytes mm cd)" using assms(3) by simp
  fix i assume "i < length (cell_bytes (scatter mm cds bs) cd)"
  then have i: "i < cd_data_sz cd" using l by simp
  then have "scatter mm cds bs ! (cd_offset cd + i) = mm ! (cd_offset cd + i)"
    using assms by (intro nth_scatter_out) fastforce+
  then show "cell_bytes (scatter mm cds bs) cd ! i = cell_bytes mm cd ! i"
    using i l assms(3) by (simp add: cell_bytes_def nth_subspan)
qed

lemma chain_bytes_scatter:
  assumes "cells_in (length mm) cds" "length bs = chain_sz cds" "cells_apart cds"
  shows "chain_bytes (scatter mm cds bs) cds = bs"
  using assms
proof (induction mm cds bs rule: scatter.induct)
  case (2 mm cd cds bs)
  let ?m = "copy_at mm (cd_offset cd) (take (cd_data_sz cd) bs)"
  have l: "length (take (cd_data_sz cd) bs) = cd_data_sz cd" "length ?m = length mm" using 2(2,3) by simp_all
  have "cell_bytes (scatter ?m cds (drop (cd_data_sz cd) bs)) cd = cell_bytes ?m cd"
    by (rule cell_bytes_scatter_apart) (use 2(2-4) l in \<open>auto simp: cells_apart_def\<close>)
  also have "\<dots> = take (cd_data_sz cd) bs" using l 2(2) by (simp add: cell_bytes_def)
  finally show ?case using 2 l by (simp add: cells_apart_def)
qed simp

subsection \<open>Commands over a working device\<close>

text \<open>Cells whose sizes are multiples of a block size.\<close>

definition cells_aligned :: "nat \<Rightarrow> celld list \<Rightarrow> bool" where
  "cells_aligned al ch \<longleftrightarrow> (\<forall>cd \<in> set ch. al dvd cd_data_sz cd)"

lemma cells_aligned_simps [simp]:
  "cells_aligned al []" "cells_aligned al (cd # ch) \<longleftrightarrow> al dvd cd_data_sz cd \<and> cells_aligned al ch" "cells_aligned (Suc 0) ch"
  by (simp_all add: cells_aligned_def)

context aligned_dev
begin

lemma cmd_write_chain:
  assumes "writer sub = submit_wr ops" "good (dev io)" "length (content (dev io)) < u64_limit"
    and "cells_in (length (cells io)) (cell_chain cellds i n)"
    and "off + chain_sz (cell_chain cellds i n) \<le> length (content (dev io))"
    and "al dvd off" "cells_aligned al (cell_chain cellds i n)"
  shows "\<exists>d. for_each_celld off i n cellds (length (cells io)) (cmd_write_cell sub) io = Some (0, io\<lparr>dev := d\<rparr>)
    \<and> good d \<and> content d = copy_at (content (dev io)) off (chain_bytes (cells io) (cell_chain cellds i n))"
  using assms
proof (induction n arbitrary: i off io)
  case 0
  then show ?case by (intro exI [of _ "dev io"]) simp
next
  case (Suc n)
  show ?case
  proof (cases "i < length cellds")
    case True
    define cd where "cd = cellds ! i"
    let ?rest = "cell_chain cellds (cd_ncelld cd) n"
    have c: "cd_data_sz cd \<noteq> 0" "cd_offset cd + cd_data_sz cd \<le> length (cells io)" "cells_in (length (cells io)) ?rest"
      "off + (cd_data_sz cd + chain_sz ?rest) \<le> length (content (dev io))"
      using Suc.prems(4,5) True by (simp_all add: cd_def)
    have al: "al dvd off" "al dvd cd_data_sz cd" "al dvd off + cd_data_sz cd" "cells_aligned al ?rest"
      using Suc.prems(6,7) True by (simp_all add: cd_def)
    let ?buf = "subspan (cells io) (cd_offset cd) (cd_data_sz cd)"
    have b: "length ?buf = cd_data_sz cd" "?buf \<noteq> []" using c(1,2) by (simp, fastforce dest: arg_cong [of _ _ length])
    obtain d1 where d1: "submit_wr ops off ?buf (dev io) = Some (0, 0, d1)" "good d1"
      "content d1 = copy_at (content (dev io)) off ?buf"
      using aligned_write_law [OF Suc.prems(2) b(2), of off] b(1) c(4) al(1,2) by auto
    have l1: "length (content d1) = length (content (dev io))" using d1(3) b c(4) by simp
    have nw: "u64_add off (cd_data_sz cd) = off + cd_data_sz cd" using c(4) Suc.prems(3) by simp
    obtain d2 where d2: "for_each_celld (off + cd_data_sz cd) (cd_ncelld cd) n cellds (length (cells io)) (cmd_write_cell sub) (io\<lparr>dev := d1\<rparr>)
        = Some (0, io\<lparr>dev := d2\<rparr>)" "good d2"
      "content d2 = copy_at (content d1) (off + cd_data_sz cd) (chain_bytes (cells io) ?rest)"
      using Suc.IH [of "io\<lparr>dev := d1\<rparr>" "cd_ncelld cd" "off + cd_data_sz cd"] Suc.prems(1,3) d1(2) c l1 al(3,4) by auto
    have "content d2 = copy_at (content (dev io)) off (?buf @ chain_bytes (cells io) ?rest)"
      using d2(3) d1(3) b c by (simp add: copy_at_append_next)
    moreover have "cmd_write_cell sub off (cd_offset cd) (cd_data_sz cd) io = Some (0, io\<lparr>dev := d1\<rparr>)"
      using b(2) d1(1) Suc.prems(1) by (simp add: cmd_write_cell_def Let_def)
    ultimately show ?thesis using True c d2(1,2) nw
      by (intro exI [of _ d2]) (simp add: cd_def [symmetric] Let_def cell_bytes_def)
  qed (intro exI [of _ "dev io"], use Suc.prems in simp)
qed

lemma cmd_read_chain:
  assumes "reader sub = submit_rd ops" "good (dev io)" "length (content (dev io)) < u64_limit"
    and "cells_in (length (cells io)) (cell_chain cellds i n)"
    and "off + chain_sz (cell_chain cellds i n) \<le> length (content (dev io))"
    and "al dvd off" "cells_aligned al (cell_chain cellds i n)"
  shows "\<exists>d. for_each_celld off i n cellds (length (cells io)) (cmd_read_cell sub) io =
      Some (0, io\<lparr>cells := scatter (cells io) (cell_chain cellds i n)
          (subspan (content (dev io)) off (chain_sz (cell_chain cellds i n))), dev := d\<rparr>)
    \<and> good d \<and> content d = content (dev io)"
  using assms
proof (induction n arbitrary: i off io)
  case 0
  then show ?case by (intro exI [of _ "dev io"]) simp
next
  case (Suc n)
  show ?case
  proof (cases "i < length cellds")
    case True
    define cd where "cd = cellds ! i"
    let ?rest = "cell_chain cellds (cd_ncelld cd) n"
    have c: "cd_data_sz cd \<noteq> 0" "cd_offset cd + cd_data_sz cd \<le> length (cells io)" "cells_in (length (cells io)) ?rest"
      "off + (cd_data_sz cd + chain_sz ?rest) \<le> length (content (dev io))"
      using Suc.prems(4,5) True by (simp_all add: cd_def)
    have al: "al dvd off" "al dvd cd_data_sz cd" "al dvd off + cd_data_sz cd" "cells_aligned al ?rest"
      using Suc.prems(6,7) True by (simp_all add: cd_def)
    let ?buf = "subspan (cells io) (cd_offset cd) (cd_data_sz cd)"
    let ?got = "subspan (content (dev io)) off (cd_data_sz cd)"
    have b: "length ?buf = cd_data_sz cd" "?buf \<noteq> []" using c(1,2) by (simp, fastforce dest: arg_cong [of _ _ length])
    have g: "length ?got = cd_data_sz cd" using c(4) by simp
    obtain d1 where d1: "submit_rd ops off ?buf (dev io) = Some (0, 0, ?got, d1)" "good d1"
      "content d1 = content (dev io)"
      using aligned_read_law [OF Suc.prems(2) b(2), of off] b(1) c(4) al(1,2) by auto
    let ?io1 = "io\<lparr>cells := copy_at (cells io) (cd_offset cd) ?got, dev := d1\<rparr>"
    have l1: "length (cells ?io1) = length (cells io)" using g c(2) by simp
    have nw: "u64_add off (cd_data_sz cd) = off + cd_data_sz cd" using c(4) Suc.prems(3) by simp
    let ?bs = "subspan (content (dev io)) (off + cd_data_sz cd) (chain_sz ?rest)"
    obtain d2 where d2: "for_each_celld (off + cd_data_sz cd) (cd_ncelld cd) n cellds (length (cells io)) (cmd_read_cell sub) ?io1
        = Some (0, ?io1\<lparr>cells := scatter (cells ?io1) ?rest ?bs, dev := d2\<rparr>)" "good d2" "content d2 = content (dev io)"
      using Suc.IH [of ?io1 "cd_ncelld cd" "off + cd_data_sz cd"] Suc.prems(1,3) d1(2,3) c l1 al(3,4) by auto
    have bs: "subspan (content (dev io)) off (cd_data_sz cd + chain_sz ?rest) = ?got @ ?bs"
      by (simp add: subspan_append)
    have "cmd_read_cell sub off (cd_offset cd) (cd_data_sz cd) io = Some (0, ?io1)"
      using b(2) d1(1) Suc.prems(1) by (simp add: cmd_read_cell_def Let_def)
    then show ?thesis using True c d2 nw g
      by (intro exI [of _ d2]) (simp add: cd_def [symmetric] Let_def bs)
  qed (intro exI [of _ "dev io"], use Suc.prems in simp)
qed

lemma write_command_eq:
  assumes "cmd_ops_ok os" "cmd_op cmd = op_write os" "writer sub = submit_wr ops"
    and "good (dv_target dv)" "length (content (dv_target dv)) < u64_limit"
    and "ch = cell_chain cellds (cmd_fcdn cmd) (cmd_cds_nr cmd)" "ch \<noteq> []" "cells_in (length (dv_cells dv)) ch"
    and "cmd_offset cmd + chain_sz ch \<le> length (content (dv_target dv))"
    and "al dvd cmd_offset cmd" "cells_aligned al ch"
  shows "\<exists>d. cmd_handle os (master_hs os) sub cellds cmd dv =
      Some (0, dv\<lparr>dv_target := d, dv_acks := dv_acks dv @ [(cmd_id cmd, 0)]\<rparr>)
    \<and> good d \<and> content d = copy_at (content (dv_target dv)) (cmd_offset cmd) (chain_bytes (dv_cells dv) ch)"
proof -
  have ne: "cellds \<noteq> []" "dv_cells dv \<noteq> []"
    using assms(6-8) by (cases "cmd_cds_nr cmd"; auto split: if_splits)+
  obtain d where "for_each_celld (cmd_offset cmd) (cmd_fcdn cmd) (cmd_cds_nr cmd) cellds (length (dv_cells dv))
      (cmd_write_cell sub) \<lparr>req_err = 0, cells = dv_cells dv, dev = dv_target dv\<rparr> =
      Some (0, \<lparr>req_err = 0, cells = dv_cells dv, dev = d\<rparr>)"
    "good d" "content d = copy_at (content (dv_target dv)) (cmd_offset cmd) (chain_bytes (dv_cells dv) ch)"
    using cmd_write_chain [of sub "\<lparr>req_err = 0, cells = dv_cells dv, dev = dv_target dv\<rparr>"
        cellds "cmd_fcdn cmd" "cmd_cds_nr cmd" "cmd_offset cmd"] assms by auto
  then show ?thesis using assms(1,2) ne
    by (intro exI [of _ d])
      (auto simp: cmd_handle_eq [OF assms(1)] make_req_eq handler_of_def cmd_ops_ok_def cmd_write_handle_def)
qed

lemma read_command_eq:
  assumes "cmd_ops_ok os" "cmd_op cmd = op_read os" "reader sub = submit_rd ops"
    and "good (dv_target dv)" "length (content (dv_target dv)) < u64_limit"
    and "ch = cell_chain cellds (cmd_fcdn cmd) (cmd_cds_nr cmd)" "ch \<noteq> []" "cells_in (length (dv_cells dv)) ch"
    and "cmd_offset cmd + chain_sz ch \<le> length (content (dv_target dv))"
    and "al dvd cmd_offset cmd" "cells_aligned al ch"
  shows "\<exists>d. cmd_handle os (master_hs os) sub cellds cmd dv =
      Some (0, \<lparr>dv_cells = scatter (dv_cells dv) ch (subspan (content (dv_target dv)) (cmd_offset cmd) (chain_sz ch)),
        dv_target = d, dv_acks = dv_acks dv @ [(cmd_id cmd, 0)]\<rparr>)
    \<and> good d \<and> content d = content (dv_target dv)"
proof -
  have ne: "cellds \<noteq> []" "dv_cells dv \<noteq> []"
    using assms(6-8) by (cases "cmd_cds_nr cmd"; auto split: if_splits)+
  obtain d where "for_each_celld (cmd_offset cmd) (cmd_fcdn cmd) (cmd_cds_nr cmd) cellds (length (dv_cells dv))
      (cmd_read_cell sub) \<lparr>req_err = 0, cells = dv_cells dv, dev = dv_target dv\<rparr> =
      Some (0, \<lparr>req_err = 0, cells = scatter (dv_cells dv) ch
        (subspan (content (dv_target dv)) (cmd_offset cmd) (chain_sz ch)), dev = d\<rparr>)"
    "good d" "content d = content (dv_target dv)"
    using cmd_read_chain [of sub "\<lparr>req_err = 0, cells = dv_cells dv, dev = dv_target dv\<rparr>"
        cellds "cmd_fcdn cmd" "cmd_cds_nr cmd" "cmd_offset cmd"] assms by auto
  then show ?thesis using assms(1,2) ne
    by (intro exI [of _ d])
      (auto simp: cmd_handle_eq [OF assms(1)] make_req_eq handler_of_def cmd_ops_ok_def cmd_read_handle_def)
qed

end

text \<open>
  C5. A write command whose chain of nonempty cells lies inside the shared memory and whose range
  lies inside the device stores the bytes of the cells, in chain order, at its offset, changes
  nothing else, and is acknowledged without error; over any working device.
\<close>

theorem write_command_stores:
  assumes "block_dev ops good content" "cmd_ops_ok os" "cmd_op cmd = op_write os" "writer sub = submit_wr ops"
    and "good (dv_target dv)" "length (content (dv_target dv)) < u64_limit"
    and "ch = cell_chain cellds (cmd_fcdn cmd) (cmd_cds_nr cmd)" "ch \<noteq> []" "cells_in (length (dv_cells dv)) ch"
    and "cmd_offset cmd + chain_sz ch \<le> length (content (dv_target dv))"
  shows "\<exists>d. cmd_handle os (master_hs os) sub cellds cmd dv =
      Some (0, dv\<lparr>dv_target := d, dv_acks := dv_acks dv @ [(cmd_id cmd, 0)]\<rparr>)
    \<and> good d \<and> content d = copy_at (content (dv_target dv)) (cmd_offset cmd) (chain_bytes (dv_cells dv) ch)"
  using aligned_dev.write_command_eq [OF assms(1) [unfolded block_dev_aligned] assms(2-10)] by simp

definition demo_cellds :: "celld list" where
  "demo_cellds = [\<lparr>cd_offset = 2, cd_data_sz = 2, cd_ncelld = 9\<rparr>, \<lparr>cd_offset = 0, cd_data_sz = 1, cd_ncelld = 0\<rparr>]"

definition demo_cmd :: "nat \<Rightarrow> cmd" where
  "demo_cmd op = \<lparr>cmd_id = 5, cmd_op = op, cmd_offset = 1, cmd_fcdn = 1, cmd_cds_nr = 2, cmd_sz = 0\<rparr>"

lemma demo_chain: "cell_chain demo_cellds (cmd_fcdn (demo_cmd op)) (cmd_cds_nr (demo_cmd op)) =
    [\<lparr>cd_offset = 0, cd_data_sz = 1, cd_ncelld = 0\<rparr>, \<lparr>cd_offset = 2, cd_data_sz = 2, cd_ncelld = 9\<rparr>]"
  by (simp add: demo_cellds_def demo_cmd_def numeral_2_eq_2)

lemma write_command_stores_witness:
  "\<exists>d. cmd_handle demo_ops (master_hs demo_ops) inmem_subs demo_cellds (demo_cmd 1)
      \<lparr>dv_cells = [7, 0, 8, 9], dv_target = \<lparr>mem = [1, 2, 3, 4, 5], mem_sz = 5\<rparr>, dv_acks = []\<rparr> =
      Some (0, \<lparr>dv_cells = [7, 0, 8, 9], dv_target = d, dv_acks = [(5, 0)]\<rparr>)
    \<and> mem d = [1, 7, 8, 9, 5]"
proof -
  have "\<exists>d. cmd_handle demo_ops (master_hs demo_ops) inmem_subs demo_cellds (demo_cmd 1)
      \<lparr>dv_cells = [7, 0, 8, 9], dv_target = \<lparr>mem = [1, 2, 3, 4, 5], mem_sz = 5\<rparr>, dv_acks = []\<rparr> =
      Some (0, \<lparr>dv_cells = [7, 0, 8, 9], dv_target = \<lparr>mem = [1, 2, 3, 4, 5], mem_sz = 5\<rparr>, dv_acks = []\<rparr>
        \<lparr>dv_target := d, dv_acks := dv_acks \<lparr>dv_cells = [7, 0, 8, 9], dv_target = \<lparr>mem = [1, 2, 3, 4, 5], mem_sz = 5\<rparr>, dv_acks = []\<rparr>
          @ [(cmd_id (demo_cmd 1), 0)]\<rparr>)
    \<and> inmem_good d \<and> mem d = copy_at [1, 2, 3, 4, 5] 1 [7, 8, 9]"
    using write_command_stores [OF inmem.block_dev_axioms demo_ops_ok, of "demo_cmd 1" inmem_subs
        "\<lparr>dv_cells = [7, 0, 8, 9], dv_target = \<lparr>mem = [1, 2, 3, 4, 5], mem_sz = 5\<rparr>, dv_acks = []\<rparr>" _ demo_cellds, OF _ _ _ _ refl]
    unfolding demo_chain
    by (simp add: demo_ops_def inmem_subs_def inmem_ops_def inmem_good_def cell_bytes_def subspan_def demo_cmd_def)
  then show ?thesis by (auto simp: demo_cmd_def copy_at_def)
qed

text \<open>
  C6. A read command over any working device fills its cells, which must not overlap, with the
  consecutive bytes of its range, leaves every byte of the shared memory outside them and the
  content of the device as they were, and is acknowledged without error.
\<close>

theorem read_command_fills:
  assumes "block_dev ops good content" "cmd_ops_ok os" "cmd_op cmd = op_read os" "reader sub = submit_rd ops"
    and "good (dv_target dv)" "length (content (dv_target dv)) < u64_limit"
    and "ch = cell_chain cellds (cmd_fcdn cmd) (cmd_cds_nr cmd)" "ch \<noteq> []" "cells_in (length (dv_cells dv)) ch"
    and "cmd_offset cmd + chain_sz ch \<le> length (content (dv_target dv))" "cells_apart ch"
  shows "\<exists>bs d. cmd_handle os (master_hs os) sub cellds cmd dv =
      Some (0, \<lparr>dv_cells = bs, dv_target = d, dv_acks = dv_acks dv @ [(cmd_id cmd, 0)]\<rparr>)
    \<and> chain_bytes bs ch = subspan (content (dv_target dv)) (cmd_offset cmd) (chain_sz ch)
    \<and> length bs = length (dv_cells dv)
    \<and> (\<forall>i < length bs. (\<forall>cd\<in>set ch. \<not> (cd_offset cd \<le> i \<and> i < cd_offset cd + cd_data_sz cd)) \<longrightarrow> bs ! i = dv_cells dv ! i)
    \<and> good d \<and> content d = content (dv_target dv)"
proof -
  let ?bs = "scatter (dv_cells dv) ch (subspan (content (dv_target dv)) (cmd_offset cmd) (chain_sz ch))"
  have l: "length (subspan (content (dv_target dv)) (cmd_offset cmd) (chain_sz ch)) = chain_sz ch"
    using assms(10) by simp
  then show ?thesis
    using aligned_dev.read_command_eq [OF assms(1) [unfolded block_dev_aligned] assms(2-10)] chain_bytes_scatter [OF assms(9) l assms(11)]
      length_scatter [OF assms(9) l] nth_scatter_out [OF assms(9) l]
    by (intro exI [of _ ?bs]) auto
qed

lemma read_command_fills_witness:
  "\<exists>bs d. cmd_handle demo_ops (master_hs demo_ops) inmem_subs demo_cellds (demo_cmd 0)
      \<lparr>dv_cells = [7, 0, 8, 9], dv_target = \<lparr>mem = [1, 2, 3, 4, 5], mem_sz = 5\<rparr>, dv_acks = []\<rparr> =
      Some (0, \<lparr>dv_cells = bs, dv_target = d, dv_acks = [(5, 0)]\<rparr>)
    \<and> take 1 bs @ drop 2 bs = [2, 3, 4] \<and> mem d = [1, 2, 3, 4, 5]"
proof -
  let ?dv = "\<lparr>dv_cells = [7, 0, 8, 9], dv_target = \<lparr>mem = [1, 2, 3, 4, 5], mem_sz = 5\<rparr>, dv_acks = []\<rparr>"
  let ?ch = "cell_chain demo_cellds (cmd_fcdn (demo_cmd 0)) (cmd_cds_nr (demo_cmd 0))"
  have p: "cmd_op (demo_cmd 0) = op_read demo_ops" "reader inmem_subs = submit_rd inmem_ops"
    "inmem_good (dv_target ?dv)" "length (mem (dv_target ?dv)) < u64_limit"
    by (simp_all add: demo_cmd_def demo_ops_def inmem_subs_def inmem_ops_def inmem_good_def)
  have q: "?ch \<noteq> []" "cells_in (length (dv_cells ?dv)) ?ch"
    "cmd_offset (demo_cmd 0) + chain_sz ?ch \<le> length (mem (dv_target ?dv))" "cells_apart ?ch"
    unfolding demo_chain by (simp_all add: demo_cmd_def cells_apart_def)
  obtain bs d where b: "cmd_handle demo_ops (master_hs demo_ops) inmem_subs demo_cellds (demo_cmd 0) ?dv =
      Some (0, \<lparr>dv_cells = bs, dv_target = d, dv_acks = dv_acks ?dv @ [(cmd_id (demo_cmd 0), 0)]\<rparr>)"
    "chain_bytes bs ?ch = subspan (mem (dv_target ?dv)) (cmd_offset (demo_cmd 0)) (chain_sz ?ch)"
    "length bs = length (dv_cells ?dv)" "mem d = mem (dv_target ?dv)"
    using read_command_fills [OF inmem.block_dev_axioms demo_ops_ok p refl q] by blast
  have "subspan [1, 2, 3, 4, 5 :: byte] 1 3 = [2, 3, 4]" by (simp add: subspan_def)
  then have "take 1 bs @ drop 2 bs = [2, 3, 4]" using b(2,3)
    unfolding demo_chain by (simp add: cell_bytes_def subspan_def demo_cmd_def)
  moreover have "cmd_handle demo_ops (master_hs demo_ops) inmem_subs demo_cellds (demo_cmd 0) ?dv =
      Some (0, \<lparr>dv_cells = bs, dv_target = d, dv_acks = [(5, 0)]\<rparr>)"
    using b(1) by (simp add: demo_cmd_def)
  ultimately show ?thesis using b(4) by auto
qed

subsection \<open>Errors that are not reported\<close>

lemma offline_cell:
  assumes "writer sub = target_write w" "reader sub = target_read r" "fsm (dev io) = Offline"
    and "sz \<noteq> 0" "o' + sz \<le> length (cells io)"
  shows "cmd_write_cell sub off o' sz io = Some (EIO, io)" "cmd_read_cell sub off o' sz io = Some (EIO, io)"
proof -
  have "subspan (cells io) o' sz \<noteq> []" using assms(4,5) by (fastforce dest: arg_cong [of _ _ length])
  then show "cmd_write_cell sub off o' sz io = Some (EIO, io)" "cmd_read_cell sub off o' sz io = Some (EIO, io)"
    using assms by (simp_all add: cmd_write_cell_def cmd_read_cell_def target_offline Let_def)
qed

text \<open>
  C35. What a submitter returns does not reach the acknowledgement, only the error of a completed
  query does.  A target that has gone offline refuses every request by its return value alone; a
  write command to it changes nothing and a read command fills nothing, yet both are acknowledged
  as successful.
\<close>

theorem offline_target_acked_ok:
  assumes "cmd_ops_ok os" "cmd_op cmd \<in> {op_read os, op_write os}"
    and "writer sub = target_write w" "reader sub = target_read r" "fsm (dv_target dv) = Offline"
    and "cell_chain cellds (cmd_fcdn cmd) (cmd_cds_nr cmd) \<noteq> []"
    and "cells_in (length (dv_cells dv)) (cell_chain cellds (cmd_fcdn cmd) (cmd_cds_nr cmd))"
  shows "cmd_handle os (master_hs os) sub cellds cmd dv =
    Some (0, dv\<lparr>dv_acks := dv_acks dv @ [(cmd_id cmd, 0)]\<rparr>)"
proof -
  obtain n where n: "cmd_cds_nr cmd = Suc n" "cmd_fcdn cmd < length cellds"
    using assms(6) by (cases "cmd_cds_nr cmd"; auto split: if_splits)
  define cd where "cd = cellds ! cmd_fcdn cmd"
  have c: "cd_data_sz cd \<noteq> 0" "cd_offset cd + cd_data_sz cd \<le> length (dv_cells dv)"
    using assms(7) n by (simp_all add: cd_def)
  then have ne: "dv_cells dv \<noteq> []" "cellds \<noteq> []" using n by auto
  let ?io = "\<lparr>req_err = 0, cells = dv_cells dv, dev = dv_target dv\<rparr>"
  have "cmd_write_handle sub cellds cmd ?io = Some (EIO, ?io)" "cmd_read_handle sub cellds cmd ?io = Some (EIO, ?io)"
    using n c offline_cell [OF assms(3,4), of ?io "cd_data_sz cd" "cd_offset cd"] assms(5)
    by (simp_all add: cmd_write_handle_def cmd_read_handle_def cd_def [symmetric] Let_def)
  then show ?thesis using assms(1,2) ne
    by (auto simp: cmd_handle_eq [OF assms(1)] make_req_eq handler_of_def cmd_ops_ok_def)
qed

lemma offline_target_acked_ok_witness:
  "cmd_handle demo_ops (master_hs demo_ops)
      \<lparr>reader = target_read inmem_read, writer = target_write inmem_write, flusher = null_flush, discarder = null_discard\<rparr>
      demo_cellds (demo_cmd 1)
      \<lparr>dv_cells = [7, 0, 8, 9], dv_target = \<lparr>fsm = Offline, backend = \<lparr>mem = [1, 2], mem_sz = 2\<rparr>\<rparr>, dv_acks = []\<rparr> =
    Some (0, \<lparr>dv_cells = [7, 0, 8, 9], dv_target = \<lparr>fsm = Offline, backend = \<lparr>mem = [1, 2], mem_sz = 2\<rparr>\<rparr>, dv_acks = [(5, 0)]\<rparr>)"
  by (subst offline_target_acked_ok [OF demo_ops_ok, of _ _ inmem_write inmem_read])
    (simp_all add: demo_chain, simp_all add: demo_cmd_def demo_ops_def)

end
