(* ===== verification/Cache_Store.thy ===== *)
theory Cache_Store
  imports Prelude
begin

text \<open>
  What the cached request handlers (\<open>ublk/cache/rwi_handler.cpp\<close>, \<open>rwt_handler.cpp\<close>) rely on when
  they talk to their cache: a partial map whose entries may disappear at any update but are never
  wrong.  The operations return \<open>None\<close> for a contract violation; the laws say there is none.
\<close>

locale lossy_cache =
  fixes wf :: "'c \<Rightarrow> bool"
    and contents :: "'c \<Rightarrow> 'k::linorder \<Rightarrow> 'd option"
    and find :: "'c \<Rightarrow> 'k \<Rightarrow> ('d option \<times> 'c) option"
    and update :: "'c \<Rightarrow> 'k \<Rightarrow> 'd option \<Rightarrow> (('k \<times> 'd) option \<times> 'c) option"
    and invalidate :: "'c \<Rightarrow> 'k \<Rightarrow> 'c"
    and invalidate_range :: "'c \<Rightarrow> 'k \<times> 'k \<Rightarrow> 'c option"
  assumes find_law: "wf c \<Longrightarrow> \<exists>c'. find c k = Some (contents c k, c') \<and> wf c' \<and> contents c' = contents c"
    and update_law: "wf c \<Longrightarrow> \<exists>ev c' lost. update c k (Some d) = Some (ev, c') \<and> wf c' \<and>
      contents c' = (\<lambda>k'. if k' = k then Some d else if lost = Some k' then None else contents c k')"
    and invalidate_law: "wf c \<Longrightarrow> wf (invalidate c k) \<and> contents (invalidate c k) = (contents c)(k := None)"
    and invalidate_range_law: "wf c \<Longrightarrow> a < b \<Longrightarrow> \<exists>c'. invalidate_range c (a, b) = Some c' \<and> wf c' \<and>
      contents c' = (\<lambda>k. if a \<le> k \<and> k < b then None else contents c k)"
begin

text \<open>\<open>coherent c s\<close>: whatever the cache holds for a key is what the store \<open>s\<close> holds.\<close>

definition coherent :: "'c \<Rightarrow> ('k \<Rightarrow> 'd) \<Rightarrow> bool" where
  "coherent c s \<longleftrightarrow> wf c \<and> (\<forall>k d. contents c k = Some d \<longrightarrow> d = s k)"

lemma coherentD: "coherent c s \<Longrightarrow> contents c k = Some d \<Longrightarrow> d = s k"
  and coherent_wf: "coherent c s \<Longrightarrow> wf c"
  by (simp_all add: coherent_def)

lemma coherent_find:
  assumes "coherent c s"
  obtains (hit) c' where "find c k = Some (Some (s k), c')" "coherent c' s" "contents c' = contents c"
    | (miss) c' where "find c k = Some (None, c')" "coherent c' s" "contents c' = contents c"
proof -
  obtain c' where "find c k = Some (contents c k, c')" "wf c'" "contents c' = contents c"
    using find_law coherent_wf [OF assms] by blast
  then show ?thesis using assms that by (cases "contents c k") (auto simp: coherent_def)
qed

lemma coherent_update:
  assumes "coherent c s"
  shows "\<exists>ev c'. update c k (Some d) = Some (ev, c') \<and> coherent c' (s(k := d)) \<and> contents c' k = Some d"
proof -
  obtain ev c' lost where "update c k (Some d) = Some (ev, c')" "wf c'"
    "contents c' = (\<lambda>k'. if k' = k then Some d else if lost = Some k' then None else contents c k')"
    using update_law coherent_wf [OF assms] by blast
  moreover from this assms have "coherent c' (s(k := d))" by (auto simp: coherent_def split: if_splits)
  ultimately show ?thesis by auto
qed

lemma coherent_invalidate:
  assumes "coherent c s" and "\<And>k'. k' \<noteq> k \<Longrightarrow> s' k' = s k'"
  shows "coherent (invalidate c k) s'"
proof -
  have "wf (invalidate c k)" "contents (invalidate c k) = (contents c)(k := None)"
    using invalidate_law coherent_wf [OF assms(1)] by auto
  then show ?thesis using assms by (auto simp: coherent_def split: if_splits)
qed

lemma coherent_invalidate_range:
  assumes "coherent c s" "a < b" and "\<And>k. \<not> (a \<le> k \<and> k < b) \<Longrightarrow> s' k = s k"
  shows "\<exists>c'. invalidate_range c (a, b) = Some c' \<and> coherent c' s'"
proof -
  obtain c' where "invalidate_range c (a, b) = Some c'" "wf c'"
    "contents c' = (\<lambda>k. if a \<le> k \<and> k < b then None else contents c k)"
    using invalidate_range_law [OF coherent_wf [OF assms(1)] assms(2)] by blast
  moreover from this assms have "coherent c' s'" by (fastforce simp: coherent_def split: if_splits)
  ultimately show ?thesis by blast
qed

end

text \<open>
  What the cached handlers need on top: the items of the cache have a size that never changes, and
  the span \<open>find_mutable\<close> returns is written in place.
\<close>

locale chunk_cache = lossy_cache wf contents find update invalidate invalidate_range
  for wf :: "'c \<Rightarrow> bool" and contents :: "'c \<Rightarrow> 'k::linorder \<Rightarrow> 'd option"
    and find update invalidate invalidate_range +
  fixes item_sz :: "'c \<Rightarrow> nat" and modify :: "'c \<Rightarrow> 'k \<Rightarrow> ('d \<Rightarrow> 'd) \<Rightarrow> 'c"
  assumes modify_law: "wf c \<Longrightarrow> contents c k = Some d \<Longrightarrow>
      wf (modify c k f) \<and> contents (modify c k f) = (contents c)(k := Some (f d))"
    and find_sz: "find c k = Some (r, c') \<Longrightarrow> item_sz c' = item_sz c"
    and update_sz: "update c k x = Some (ev, c') \<Longrightarrow> item_sz c' = item_sz c"
    and invalidate_sz: "item_sz (invalidate c k) = item_sz c"
    and invalidate_range_sz: "invalidate_range c ab = Some c' \<Longrightarrow> item_sz c' = item_sz c"
    and modify_sz: "item_sz (modify c k f) = item_sz c"
begin

lemma coherent_modify:
  assumes "coherent c s" "contents c k = Some d"
  shows "coherent (modify c k f) (s(k := f (s k)))"
proof -
  have "d = s k" using assms by (rule coherentD)
  then have "wf (modify c k f)" "contents (modify c k f) = (contents c)(k := Some (f (s k)))"
    using modify_law [OF coherent_wf [OF assms(1)] assms(2)] by simp_all
  then show ?thesis using assms(1) by (auto simp: coherent_def split: if_splits)
qed

end

end
