(* ===== verification/Flat_Lru.thy ===== *)
theory Flat_Lru
  imports Cache_Store "HOL-Library.Multiset"
begin

text \<open>
  \<open>ublk/cache/flat_lru.hpp\<close>: a cache of at most \<open>len_max\<close> items kept in one vector sorted by
  key.  Every item carries an age \<open>refs\<close>: 0 for the item touched last, larger for older ones; an
  item whose age is \<open>len_max\<close> is invalid.  \<open>touch\<close> makes an item the youngest and ages the items
  that were younger than it.  \<open>update\<close> stores a value under a key, reusing an invalid slot at the
  insertion point, or evicting the oldest item of a full vector.

  \<open>ldata\<close> is the owning pointer \<open>uptrwd<T[]>\<close>: \<open>None\<close> is the null pointer.  The standard
  algorithms are modelled by their contract: \<open>lower_bound\<close> is the first position whose key is not
  below the searched one, \<open>rotate_range xs f m l\<close> is \<open>std::rotate\<close> of the range \<open>[f, l)\<close>
  around \<open>m\<close>.  An operation that violates an \<open>Expects\<close> is \<open>None\<close>.
\<close>

subsection \<open>State\<close>

record ('k, 'd) lru_item =
  lkey :: 'k
  ldata :: "'d option"
  lrefs :: nat

record ('k, 'd) flat_lru =
  cache_len_max :: nat
  cache_item_sz :: nat
  lcache :: "('k, 'd) lru_item list"

definition lru_create :: "nat \<Rightarrow> nat \<Rightarrow> ('k, 'd) flat_lru option" where
  "lru_create cache_len item_sz =
     (if cache_len \<noteq> 0 \<and> item_sz \<noteq> 0
      then Some \<lparr>cache_len_max = cache_len, cache_item_sz = item_sz, lcache = []\<rparr> else None)"

subsection \<open>Private operations\<close>

definition is_valid :: "('k, 'd) flat_lru \<Rightarrow> ('k, 'd) lru_item \<Rightarrow> bool" where
  "is_valid c v = (lrefs v \<noteq> cache_len_max c)"

definition invalidate_item :: "('k, 'd) flat_lru \<Rightarrow> ('k, 'd) lru_item \<Rightarrow> ('k, 'd) lru_item" where
  "invalidate_item c v = v\<lparr>lrefs := cache_len_max c, ldata := None\<rparr>"

definition lower_bound :: "('k::linorder, 'd) lru_item list \<Rightarrow> 'k \<Rightarrow> nat" where
  "lower_bound vs k = length (takeWhile (\<lambda>v. lkey v < k) vs)"

definition lower_bound_find :: "('k::linorder, 'd) flat_lru \<Rightarrow> 'k \<Rightarrow> nat \<times> bool" where
  "lower_bound_find c k =
     (let i = lower_bound (lcache c) k
      in (i, i < length (lcache c) \<and> k = lkey (lcache c ! i) \<and> is_valid c (lcache c ! i)))"

definition range_find :: "('k::linorder, 'd) flat_lru \<Rightarrow> 'k \<times> 'k \<Rightarrow> nat list option" where
  "range_find c r = do {
     expects (fst r < snd r);
     let first = lower_bound (lcache c) (fst r);
     let last = first + lower_bound (drop first (lcache c)) (snd r);
     Some [first..<last] }"

definition bump :: "nat \<Rightarrow> ('k, 'd) lru_item \<Rightarrow> ('k, 'd) lru_item" where
  "bump eo v = (if lrefs v < eo then v\<lparr>lrefs := lrefs v + 1\<rparr> else v)"

definition touch :: "('k, 'd) flat_lru \<Rightarrow> nat \<Rightarrow> ('k, 'd) flat_lru option" where
  "touch c index = do {
     expects (index < length (lcache c));
     let eo = lrefs (lcache c ! index);
     Some (c\<lparr>lcache := (map (bump eo) (lcache c))[index := (lcache c ! index)\<lparr>lrefs := 0\<rparr>]\<rparr>) }"

fun evict_scan :: "('k, 'd) flat_lru \<Rightarrow> nat \<Rightarrow> nat list \<Rightarrow> nat" where
  "evict_scan c ev [] = ev"
| "evict_scan c ev (i # is) =
     (if lrefs (lcache c ! ev) < lrefs (lcache c ! i)
      then (if \<not> is_valid c (lcache c ! i) then i else evict_scan c i is)
      else evict_scan c ev is)"

definition evict_index_find :: "('k, 'd) flat_lru \<Rightarrow> nat" where
  "evict_index_find c =
     (if is_valid c (lcache c ! 0) then evict_scan c 0 [1..<length (lcache c)] else 0)"

definition rotate_range :: "'a list \<Rightarrow> nat \<Rightarrow> nat \<Rightarrow> nat \<Rightarrow> 'a list" where
  "rotate_range xs f m l =
     take f xs @ drop m (take l xs) @ drop f (take m xs) @ drop l xs"

definition replace_at ::
  "('k, 'd) flat_lru \<Rightarrow> nat \<Rightarrow> 'k \<Rightarrow> 'd option \<Rightarrow> (('k \<times> 'd) option \<times> ('k, 'd) flat_lru) option"
where
  "replace_at c index k d = do {
     let prev = lcache c ! index;
     c' \<leftarrow> touch (c\<lparr>lcache := (lcache c)[index := prev\<lparr>lkey := k, ldata := d\<rparr>]\<rparr>) index;
     Some (map_option (Pair (lkey prev)) (ldata prev), c') }"

subsection \<open>Public operations\<close>

definition lru_find :: "('k::linorder, 'd) flat_lru \<Rightarrow> 'k \<Rightarrow> ('d option \<times> ('k, 'd) flat_lru) option"
where
  "lru_find c k =
     (case lower_bound_find c k of
        (index, exact_match) \<Rightarrow>
          if exact_match
          then do { c' \<leftarrow> touch c index; Some (ldata (lcache c ! index), c') }
          else Some (None, c))"

definition lru_exists :: "('k::linorder, 'd) flat_lru \<Rightarrow> 'k \<Rightarrow> bool" where
  "lru_exists c k = snd (lower_bound_find c k)"

definition invalidate_index :: "('k, 'd) flat_lru \<Rightarrow> nat \<Rightarrow> ('k, 'd) flat_lru" where
  "invalidate_index c i = c\<lparr>lcache := (lcache c)[i := invalidate_item c (lcache c ! i)]\<rparr>"

definition lru_invalidate :: "('k::linorder, 'd) flat_lru \<Rightarrow> 'k \<Rightarrow> ('k, 'd) flat_lru" where
  "lru_invalidate c k =
     (case lower_bound_find c k of
        (index, exact_match) \<Rightarrow> if exact_match then invalidate_index c index else c)"

definition lru_invalidate_range ::
  "('k::linorder, 'd) flat_lru \<Rightarrow> 'k \<times> 'k \<Rightarrow> ('k, 'd) flat_lru option"
where
  "lru_invalidate_range c r = do { is \<leftarrow> range_find c r; Some (foldl invalidate_index c is) }"

text \<open>\<open>find_mutable\<close> returns a span of the found item; this is a write through it.\<close>

definition lru_modify :: "('k::linorder, 'd) flat_lru \<Rightarrow> 'k \<Rightarrow> ('d \<Rightarrow> 'd) \<Rightarrow> ('k, 'd) flat_lru" where
  "lru_modify c k f =
     (case lower_bound_find c k of
        (index, exact_match) \<Rightarrow>
          if exact_match
          then c\<lparr>lcache := (lcache c)[index := (lcache c ! index)\<lparr>ldata := map_option f (ldata (lcache c ! index))\<rparr>]\<rparr>
          else c)"

definition lru_update ::
  "('k::linorder, 'd) flat_lru \<Rightarrow> 'k \<Rightarrow> 'd option \<Rightarrow> (('k \<times> 'd) option \<times> ('k, 'd) flat_lru) option"
where
  "lru_update c k d =
     (let vs = lcache c; (index, exact_match) = lower_bound_find c k
      in if \<not> exact_match \<and> (\<not> index < length vs \<or> is_valid c (vs ! index))
         then if \<not> length vs < cache_len_max c
              then let ev = evict_index_find c
                   in if ev < index
                      then replace_at (c\<lparr>lcache := rotate_range vs ev (ev + 1) index\<rparr>)
                             (ev + (index - (ev + 1))) k d
                      else replace_at (c\<lparr>lcache := rotate_range vs index ev (ev + 1)\<rparr>) index k d
              else do {
                let v = (invalidate_item c \<lparr>lkey = k, ldata = None, lrefs = 0\<rparr>)\<lparr>ldata := d\<rparr>;
                c' \<leftarrow> touch (c\<lparr>lcache := take index vs @ v # drop index vs\<rparr>) index;
                Some (None, c') }
         else replace_at c index k d)"

subsection \<open>Well-formedness and the map a cache stands for\<close>

definition refs_distinct :: "nat \<Rightarrow> ('k, 'd) lru_item list \<Rightarrow> bool" where
  "refs_distinct n vs = distinct (filter (\<lambda>r. r \<noteq> n) (map lrefs vs))"

definition items_ok :: "nat \<Rightarrow> ('k::linorder, 'd) lru_item list \<Rightarrow> bool" where
  "items_ok n vs \<longleftrightarrow> sorted_wrt (<) (map lkey vs) \<and> refs_distinct n vs \<and>
     (\<forall>v \<in> set vs. lrefs v \<le> n \<and> (lrefs v \<noteq> n \<longrightarrow> ldata v \<noteq> None))"

definition lru_wf :: "('k::linorder, 'd) flat_lru \<Rightarrow> bool" where
  "lru_wf c \<longleftrightarrow> 0 < cache_len_max c \<and> 0 < cache_item_sz c \<and>
     length (lcache c) \<le> cache_len_max c \<and> items_ok (cache_len_max c) (lcache c)"

definition lru_map :: "('k, 'd) flat_lru \<Rightarrow> 'k \<Rightarrow> 'd option" where
  "lru_map c k =
     (case List.find (\<lambda>v. lkey v = k \<and> is_valid c v) (lcache c) of
        None \<Rightarrow> None | Some v \<Rightarrow> ldata v)"

subsection \<open>The shape of touch, rotate and replace\<close>

lemma sorted_keys_lower_bound:
  assumes "sorted_wrt (<) (map lkey vs)"
  shows "lower_bound vs k \<le> length vs"
    and "v \<in> set (take (lower_bound vs k) vs) \<Longrightarrow> lkey v < k"
    and "v \<in> set (drop (lower_bound vs k) vs) \<Longrightarrow> k \<le> lkey v"
proof -
  show "lower_bound vs k \<le> length vs" by (simp add: lower_bound_def length_takeWhile_le)
  show "v \<in> set (take (lower_bound vs k) vs) \<Longrightarrow> lkey v < k"
    by (auto simp: lower_bound_def takeWhile_eq_take [symmetric] dest: set_takeWhileD)
  have d: "drop (lower_bound vs k) vs = dropWhile (\<lambda>v. lkey v < k) vs"
    by (simp add: lower_bound_def dropWhile_eq_drop)
  show "v \<in> set (drop (lower_bound vs k) vs) \<Longrightarrow> k \<le> lkey v"
    unfolding d using assms
  proof (induction vs)
    case Nil
    then show ?case by simp
  next
    case (Cons w ws)
    then show ?case by (auto split: if_splits)
  qed
qed

lemma touch_append:
  "touch (c\<lparr>lcache := P @ v # Q\<rparr>) (length P) =
     Some (c\<lparr>lcache := map (bump (lrefs v)) P @ v\<lparr>lrefs := 0\<rparr> # map (bump (lrefs v)) Q\<rparr>)"
  by (simp add: touch_def Let_def list_update_append)

lemma item_overwrite:
  "(v :: ('k, 'd) lru_item)\<lparr>lkey := k, ldata := d, lrefs := r\<rparr> = \<lparr>lkey = k, ldata = d, lrefs = r\<rparr>"
  by (cases v) simp

lemma replace_at_append:
  "replace_at (c\<lparr>lcache := P @ v # Q\<rparr>) (length P) k d =
     Some (map_option (Pair (lkey v)) (ldata v),
           c\<lparr>lcache := map (bump (lrefs v)) P @ \<lparr>lkey = k, ldata = d, lrefs = 0\<rparr> # map (bump (lrefs v)) Q\<rparr>)"
  using touch_append [where c = c and P = P and v = "v\<lparr>lkey := k, ldata := d\<rparr>" and Q = Q]
  by (simp add: replace_at_def Let_def item_overwrite)

lemma rotate_right_part:
  assumes "length X < i" and "i \<le> Suc (length X + length Y)"
  shows "rotate_range (X @ e # Y) (length X) (length X + 1) i =
     (X @ take (i - Suc (length X)) Y) @ e # drop (i - Suc (length X)) Y"
  using assms by (simp add: rotate_range_def take_Cons' drop_Cons')

lemma rotate_left_part:
  assumes "i \<le> length X"
  shows "rotate_range (X @ e # Y) i (length X) (length X + 1) = take i X @ e # (drop i X @ Y)"
  using assms by (simp add: rotate_range_def)

lemma evict_scan_in:
  assumes "\<forall>i \<in> set is. i < length (lcache c)" and "ev < length (lcache c)"
  shows "evict_scan c ev is < length (lcache c)"
  using assms by (induction c ev "is" rule: evict_scan.induct) auto

lemma evict_index_find_in:
  "lcache c \<noteq> [] \<Longrightarrow> evict_index_find c < length (lcache c)"
  by (auto simp: evict_index_find_def intro: evict_scan_in)

text \<open>The scan stops at an invalid item or at an item of greatest age.\<close>

lemma evict_scan_max:
  assumes "\<forall>i \<in> set is. lrefs (lcache c ! i) \<le> cache_len_max c"
    and "lrefs (lcache c ! ev) \<le> cache_len_max c"
  shows "lrefs (lcache c ! ev) \<le> lrefs (lcache c ! evict_scan c ev is) \<and>
     (\<forall>i \<in> set is. lrefs (lcache c ! i) \<le> lrefs (lcache c ! evict_scan c ev is))"
  using assms
proof (induction c ev "is" rule: evict_scan.induct)
  case (1 c ev)
  then show ?case by simp
next
  case (2 c ev i "is")
  then show ?case by (auto simp: is_valid_def split: if_splits)
qed

lemma evict_index_find_max:
  assumes "\<forall>v \<in> set (lcache c). lrefs v \<le> cache_len_max c" and "v \<in> set (lcache c)"
  shows "lrefs v \<le> lrefs (lcache c ! evict_index_find c)"
proof -
  from assms(2) obtain i where i: "i < length (lcache c)" "v = lcache c ! i"
    by (auto simp: in_set_conv_nth)
  have le: "\<forall>j < length (lcache c). lrefs (lcache c ! j) \<le> cache_len_max c"
    using assms(1) by simp
  show ?thesis
  proof (cases "is_valid c (lcache c ! 0)")
    case True
    have "lrefs (lcache c ! i) \<le> lrefs (lcache c ! evict_scan c 0 [1..<length (lcache c)])"
      using evict_scan_max [of "[1..<length (lcache c)]" c 0] le le [rule_format, of 0] i(1)
      by (cases "i = 0") fastforce+
    with True i show ?thesis by (simp add: evict_index_find_def)
  next
    case False
    then show ?thesis using le i by (simp add: evict_index_find_def is_valid_def)
  qed
qed

subsection \<open>What an update does to the vector\<close>

text \<open>
  Every branch of \<open>lru_update\<close> ends in one shape: some slot \<open>e\<close> is taken out of the vector (or
  a new one is opened), the new item is put where its key belongs, and all items younger than the
  slot's age \<open>r\<close> become one older.
\<close>

definition updated ::
  "('k, 'd) flat_lru \<Rightarrow> ('k, 'd) lru_item list \<Rightarrow> nat \<Rightarrow> 'k \<Rightarrow> 'd option \<Rightarrow> ('k, 'd) lru_item list \<Rightarrow> ('k, 'd) flat_lru"
where
  "updated c P r k d Q =
     c\<lparr>lcache := map (bump r) P @ \<lparr>lkey = k, ldata = d, lrefs = 0\<rparr> # map (bump r) Q\<rparr>"

lemma list_split_at:
  assumes "i < length xs"
  shows "xs = take i xs @ xs ! i # drop (Suc i) xs" "length (take i xs) = i"
  using assms by (auto simp: id_take_nth_drop)

lemma lru_update_replace:
  assumes "snd (lower_bound_find c k) \<or>
      lower_bound (lcache c) k < length (lcache c) \<and> \<not> is_valid c (lcache c ! lower_bound (lcache c) k)"
  shows "lru_update c k d = replace_at c (lower_bound (lcache c) k) k d"
  using assms by (auto simp: lru_update_def lower_bound_find_def Let_def)

lemma lru_update_evict:
  assumes "\<not> snd (lower_bound_find c k)" "i = lower_bound (lcache c) k"
    and "\<not> i < length (lcache c) \<or> is_valid c (lcache c ! i)"
    and "i \<le> length (lcache c)"
    and full: "\<not> length (lcache c) < cache_len_max c" "lcache c \<noteq> []"
    and split: "lcache c = X @ e # Y" "length X = evict_index_find c"
  shows "\<exists>P Q. P @ Q = X @ Y \<and> set P \<subseteq> set (take i (lcache c)) \<and> set Q \<subseteq> set (drop i (lcache c)) \<and>
    lru_update c k d = Some (map_option (Pair (lkey e)) (ldata e), updated c P (lrefs e) k d Q)"
proof (cases "length X < i")
  case True
  let ?j = "i - Suc (length X)"
  have "lru_update c k d = replace_at
      (c\<lparr>lcache := (X @ take ?j Y) @ e # drop ?j Y\<rparr>) (length X + ?j) k d"
    using assms True rotate_right_part [of X i Y e]
    by (simp add: lru_update_def lower_bound_find_def Let_def)
  moreover have "length (X @ take ?j Y) = length X + ?j"
    using assms(4) split(1) True by simp
  ultimately have "lru_update c k d = Some (map_option (Pair (lkey e)) (ldata e),
      updated c (X @ take ?j Y) (lrefs e) k d (drop ?j Y))"
    using replace_at_append [where c = c and P = "X @ take ?j Y" and v = e and Q = "drop ?j Y"]
    by (simp add: updated_def)
  moreover have "set (X @ take ?j Y) \<subseteq> set (take i (lcache c))" "set (drop ?j Y) \<subseteq> set (drop i (lcache c))"
    using True split(1) by (auto simp: take_Cons' drop_Cons')
  moreover have "(X @ take ?j Y) @ drop ?j Y = X @ Y" by simp
  ultimately show ?thesis by blast
next
  case False
  then have le: "i \<le> length X" by simp
  have "lru_update c k d = replace_at (c\<lparr>lcache := take i X @ e # (drop i X @ Y)\<rparr>) i k d"
    using assms le rotate_left_part [of i X e Y]
    by (simp add: lru_update_def lower_bound_find_def Let_def)
  then have "lru_update c k d = Some (map_option (Pair (lkey e)) (ldata e),
      updated c (take i X) (lrefs e) k d (drop i X @ Y))"
    using replace_at_append [where c = c and P = "take i X" and v = e and Q = "drop i X @ Y"] le
    by (simp add: updated_def)
  moreover have "set (take i X) \<subseteq> set (take i (lcache c))" "set (drop i X @ Y) \<subseteq> set (drop i (lcache c))"
    using le split(1) by auto
  moreover have "take i X @ (drop i X @ Y) = X @ Y" by simp
  ultimately show ?thesis by blast
qed

lemma lru_update_grow:
  assumes "\<not> snd (lower_bound_find c k)" "i = lower_bound (lcache c) k"
    and "\<not> i < length (lcache c) \<or> is_valid c (lcache c ! i)"
    and "i \<le> length (lcache c)" and "length (lcache c) < cache_len_max c"
  shows "lru_update c k d =
    Some (None, updated c (take i (lcache c)) (cache_len_max c) k d (drop i (lcache c)))"
proof -
  let ?v = "\<lparr>lkey = k, ldata = d, lrefs = cache_len_max c\<rparr>"
  have "touch (c\<lparr>lcache := take i (lcache c) @ ?v # drop i (lcache c)\<rparr>) i =
      Some (updated c (take i (lcache c)) (cache_len_max c) k d (drop i (lcache c)))"
    using touch_append [where c = c and P = "take i (lcache c)" and v = ?v and Q = "drop i (lcache c)"] assms(4)
    by (simp add: updated_def)
  then show ?thesis
    using assms by (simp add: lru_update_def lower_bound_find_def Let_def invalidate_item_def)
qed

text \<open>
  The four ways an update can go, over a vector sorted by key.  The removed slot \<open>e\<close> is the item
  of the same key (hit), an invalid slot where the key belongs (reuse), or the slot the eviction
  scan chose (evict); \<open>grow\<close> opens a new slot.
\<close>

lemma lru_update_shape:
  assumes wf: "lru_wf c"
  obtains (slot) P Q X e Y where
      "lcache c = X @ e # Y" "P @ Q = X @ Y"
      "\<forall>v \<in> set P. lkey v < k" "\<forall>v \<in> set Q. k < lkey v"
      "lru_update c k d = Some (map_option (Pair (lkey e)) (ldata e), updated c P (lrefs e) k d Q)"
      "lkey e = k \<and> is_valid c e \<or> \<not> is_valid c e \<or>
       length (lcache c) = cache_len_max c \<and> e = lcache c ! evict_index_find c \<and> k \<notin> lkey ` set (lcache c)"
  | (grow) P Q where
      "lcache c = P @ Q" "\<forall>v \<in> set P. lkey v < k" "\<forall>v \<in> set Q. k < lkey v"
      "lru_update c k d = Some (None, updated c P (cache_len_max c) k d Q)"
      "length (lcache c) < cache_len_max c"
proof -
  let ?vs = "lcache c" and ?i = "lower_bound (lcache c) k"
  have srt: "sorted_wrt (<) (map lkey ?vs)" using wf by (simp add: lru_wf_def items_ok_def)
  note lb = sorted_keys_lower_bound [OF srt, where k = k]
  show ?thesis
  proof (cases "snd (lower_bound_find c k) \<or> ?i < length ?vs \<and> \<not> is_valid c (?vs ! ?i)")
    case True
    then have i: "?i < length ?vs" by (auto simp: lower_bound_find_def Let_def)
    let ?P = "take ?i ?vs" and ?e = "?vs ! ?i" and ?Q = "drop (Suc ?i) ?vs"
    note s = list_split_at [OF i]
    have "lru_update c k d = Some (map_option (Pair (lkey ?e)) (ldata ?e), updated c ?P (lrefs ?e) k d ?Q)"
      using replace_at_append [where c = c and P = ?P and v = ?e and Q = ?Q] s lru_update_replace [OF True, of d]
      by (simp add: updated_def)
    moreover have "k \<le> lkey ?e"
      using lb(3) i by (metis Cons_nth_drop_Suc list.set_intros(1))
    moreover have "\<forall>v \<in> set ?Q. lkey ?e < lkey v"
    proof -
      have "sorted_wrt (<) (map lkey (?P @ ?e # ?Q))" using srt s(1) by simp
      then show ?thesis by (simp add: sorted_wrt_append)
    qed
    ultimately show ?thesis
      using True s(1) lb(2) by (intro slot [of ?P ?e ?Q ?P ?Q]) (auto simp: lower_bound_find_def Let_def)
  next
    case False
    then have nf: "\<not> snd (lower_bound_find c k)" and sl: "\<not> ?i < length ?vs \<or> is_valid c (?vs ! ?i)" by auto
    have gt: "k < lkey v" if v: "v \<in> set (drop ?i ?vs)" for v
    proof -
      from v have i: "?i < length ?vs" by (cases "?i < length ?vs") auto
      have ne: "lkey (?vs ! ?i) \<noteq> k" using nf sl i by (auto simp: lower_bound_find_def Let_def)
      have d: "drop ?i ?vs = ?vs ! ?i # drop (Suc ?i) ?vs" using i by (simp add: Cons_nth_drop_Suc)
      have "sorted_wrt (<) (map lkey (drop ?i ?vs))" using srt by (simp add: drop_map [symmetric] sorted_wrt_drop)
      then have "v = ?vs ! ?i \<or> lkey (?vs ! ?i) < lkey v" using v d by auto
      moreover have "k \<le> lkey (?vs ! ?i)" using lb(3) d by simp
      ultimately show ?thesis using ne by auto
    qed
    have kn: "k \<notin> lkey ` set ?vs"
    proof
      assume "k \<in> lkey ` set ?vs"
      then obtain v where v: "v \<in> set ?vs" "lkey v = k" by auto
      have "set ?vs = set (take ?i ?vs) \<union> set (drop ?i ?vs)"
        by (metis append_take_drop_id set_append)
      with v lb(2) [of v] gt [of v] show False by auto
    qed
    show ?thesis
    proof (cases "length ?vs < cache_len_max c")
      case True
      then show ?thesis
        using lru_update_grow [OF nf refl sl lb(1) True, of d] lb(2) gt
        by (intro grow [of "take ?i ?vs" "drop ?i ?vs"]) auto
    next
      case full: False
      have ne: "?vs \<noteq> []" using full wf by (auto simp: lru_wf_def)
      note s = list_split_at [OF evict_index_find_in [OF ne]]
      from lru_update_evict [OF nf refl sl lb(1) full ne s] obtain P Q where
        "P @ Q = take (evict_index_find c) ?vs @ drop (Suc (evict_index_find c)) ?vs"
        "set P \<subseteq> set (take ?i ?vs)" "set Q \<subseteq> set (drop ?i ?vs)"
        "lru_update c k d = Some (map_option (Pair (lkey (?vs ! evict_index_find c))) (ldata (?vs ! evict_index_find c)),
            updated c P (lrefs (?vs ! evict_index_find c)) k d Q)"
        by blast
      then show ?thesis
        using s(1) lb(2) gt full wf kn by (intro slot [of _ _ _ P Q]) (auto simp: lru_wf_def)
    qed
  qed
qed

subsection \<open>Invariants of the vector\<close>

definition bump_nat :: "nat \<Rightarrow> nat \<Rightarrow> nat" where
  "bump_nat eo r = (if r < eo then r + 1 else r)"

lemma bump_sel [simp]:
  "lkey (bump eo v) = lkey v" "ldata (bump eo v) = ldata v" "lrefs (bump eo v) = bump_nat eo (lrefs v)"
  by (simp_all add: bump_def bump_nat_def)

lemma map_bump_sel [simp]:
  "map (lkey \<circ> bump eo) vs = map lkey vs" "map (lrefs \<circ> bump eo) vs = map (bump_nat eo) (map lrefs vs)"
  by simp_all

lemma bump_nat_le: "x \<le> n \<Longrightarrow> r \<le> n \<Longrightarrow> bump_nat r x \<le> n"
  by (simp add: bump_nat_def)

lemma bump_nat_mono_neq:
  assumes "x \<noteq> r" "y \<noteq> r" "x < y"
  shows "bump_nat r x < bump_nat r y"
  using assms by (auto simp: bump_nat_def)

lemma distinct_bump_nat:
  assumes "distinct (filter (\<lambda>x. x \<noteq> n) R)" "\<forall>x \<in> set R. x \<le> n" "r \<le> n" "r \<noteq> n \<longrightarrow> r \<notin> set R"
  shows "distinct (filter (\<lambda>x. x \<noteq> n) (map (bump_nat r) R))"
  using assms
proof (induction R)
  case Nil
  then show ?case by simp
next
  case (Cons x R)
  have "bump_nat r x \<notin> bump_nat r ` set R" if "bump_nat r x \<noteq> n"
  proof
    assume "bump_nat r x \<in> bump_nat r ` set R"
    then obtain y where y: "y \<in> set R" "bump_nat r x = bump_nat r y" by auto
    have "x \<noteq> r" "y \<noteq> r" using that y Cons.prems(4) by (auto simp: bump_nat_def)
    then have "x = y" using bump_nat_mono_neq y(2) by (metis nat_neq_iff)
    moreover have "x \<noteq> n" using that Cons.prems(3) by (auto simp: bump_nat_def)
    ultimately show False using y Cons.prems(1) by auto
  qed
  with Cons show ?case by (auto split: if_splits)
qed

lemma refs_distinct_append_Cons:
  "refs_distinct n (P @ v # Q) \<longleftrightarrow>
     refs_distinct n (P @ Q) \<and> (lrefs v \<noteq> n \<longrightarrow> lrefs v \<notin> lrefs ` set (P @ Q))"
  by (auto simp: refs_distinct_def)

lemma items_ok_remove:
  assumes "items_ok n (X @ e # Y)"
  shows "items_ok n (X @ Y)" "lrefs e \<le> n" "lrefs e \<noteq> n \<longrightarrow> lrefs e \<notin> lrefs ` set (X @ Y)"
  using assms by (auto simp: items_ok_def refs_distinct_append_Cons sorted_wrt_append)

lemma items_ok_insert:
  assumes ok: "items_ok n (P @ Q)" and keys: "\<forall>v \<in> set P. lkey v < k" "\<forall>v \<in> set Q. k < lkey v"
    and r: "r \<le> n" "r \<noteq> n \<longrightarrow> r \<notin> lrefs ` set (P @ Q)" and n: "0 < n"
  shows "items_ok n (map (bump r) P @ \<lparr>lkey = k, ldata = Some d, lrefs = 0\<rparr> # map (bump r) Q)"
proof -
  have le: "\<forall>v \<in> set (P @ Q). lrefs v \<le> n" using ok by (auto simp: items_ok_def)
  have "refs_distinct n (map (bump r) (P @ Q))"
    using distinct_bump_nat [of n "map lrefs (P @ Q)" r] ok r le
    by (auto simp: items_ok_def refs_distinct_def simp del: map_append)
  moreover have "0 \<notin> lrefs ` set (map (bump r) (P @ Q))"
  proof
    assume "0 \<in> lrefs ` set (map (bump r) (P @ Q))"
    then obtain v where "v \<in> set (P @ Q)" "bump_nat r (lrefs v) = 0" by force
    then have "r = 0" "r \<in> lrefs ` set (P @ Q)" by (force simp: bump_nat_def split: if_splits)+
    with r(2) n show False by simp
  qed
  moreover have "sorted_wrt (<) (map lkey (map (bump r) P @ \<lparr>lkey = k, ldata = Some d, lrefs = 0\<rparr> # map (bump r) Q))"
    using ok keys by (force simp: items_ok_def sorted_wrt_append)
  moreover have "\<forall>v \<in> set (P @ Q). lrefs v = n \<longrightarrow> bump_nat r (lrefs v) = n"
    using r by (simp add: bump_nat_def)
  ultimately show ?thesis
    using ok r le n unfolding items_ok_def
    by (auto simp: refs_distinct_append_Cons bump_nat_le)
qed

lemma updated_wf:
  assumes wf: "lru_wf c" and keys: "\<forall>v \<in> set P. lkey v < k" "\<forall>v \<in> set Q. k < lkey v"
    and ok: "items_ok (cache_len_max c) (P @ Q)" "Suc (length (P @ Q)) \<le> cache_len_max c"
    and r: "r \<le> cache_len_max c" "r \<noteq> cache_len_max c \<longrightarrow> r \<notin> lrefs ` set (P @ Q)"
  shows "lru_wf (updated c P r k (Some d) Q)"
  using wf items_ok_insert [OF ok(1) keys r, of d] ok(2) by (simp add: lru_wf_def updated_def)

subsection \<open>The map of a well-formed cache\<close>

lemma sorted_keys_unique:
  assumes "sorted_wrt (<) (map lkey vs)" "v \<in> set vs" "w \<in> set vs" "lkey v = (lkey w :: 'k::linorder)"
  shows "v = w"
  using assms by (induction vs) auto

lemma lru_map_iff:
  assumes "lru_wf c"
  shows "lru_map c k = Some d \<longleftrightarrow>
    (\<exists>v \<in> set (lcache c). lkey v = k \<and> is_valid c v \<and> ldata v = Some d)" (is "_ \<longleftrightarrow> ?r")
proof (cases "List.find (\<lambda>v. lkey v = k \<and> is_valid c v) (lcache c)")
  case None
  then have "lru_map c k = None" by (simp add: lru_map_def)
  then show ?thesis using None by (auto simp: find_None_iff)
next
  case (Some v)
  then have "v \<in> set (lcache c)" "lkey v = k" "is_valid c v"
    by (auto simp: find_Some_iff)
  moreover have "w = v" if "w \<in> set (lcache c)" "lkey w = k" for w
    using sorted_keys_unique [of "lcache c" w v] assms that calculation by (simp add: lru_wf_def items_ok_def)
  moreover have "lru_map c k = ldata v" using Some by (simp add: lru_map_def)
  ultimately show ?thesis by metis
qed

lemma lru_map_eqI:
  assumes "\<And>d. lru_map c k = Some d \<longleftrightarrow> m = Some d"
  shows "lru_map c k = m"
proof (cases m)
  case None
  then have "\<forall>d. lru_map c k \<noteq> Some d" using assms by simp
  with None show ?thesis by simp
qed (use assms in simp)

lemma lru_map_None_iff:
  assumes "lru_wf c"
  shows "lru_map c k = None \<longleftrightarrow> (\<forall>v \<in> set (lcache c). lkey v = k \<longrightarrow> \<not> is_valid c v)"
proof -
  have "is_valid c v \<Longrightarrow> v \<in> set (lcache c) \<Longrightarrow> \<exists>d. ldata v = Some d" for v
    using assms by (auto simp: lru_wf_def items_ok_def is_valid_def)
  then show ?thesis using lru_map_iff [OF assms, of k] by (metis not_None_eq)
qed

lemma lower_bound_find_hit:
  assumes wf: "lru_wf c" and hit: "snd (lower_bound_find c k)"
  shows "fst (lower_bound_find c k) < length (lcache c)"
    and "lkey (lcache c ! fst (lower_bound_find c k)) = k"
    and "is_valid c (lcache c ! fst (lower_bound_find c k))"
    and "lru_map c k = ldata (lcache c ! fst (lower_bound_find c k))"
    and "lru_map c k \<noteq> None"
proof -
  let ?v = "lcache c ! fst (lower_bound_find c k)"
  show i: "fst (lower_bound_find c k) < length (lcache c)" and k: "lkey ?v = k" and v: "is_valid c ?v"
    using hit by (auto simp: lower_bound_find_def Let_def)
  obtain d where d: "ldata ?v = Some d"
    using wf i v by (fastforce simp: lru_wf_def items_ok_def is_valid_def)
  then have "lru_map c k = Some d" using lru_map_iff [OF wf] i k v by fastforce
  with d show "lru_map c k = ldata ?v" "lru_map c k \<noteq> None" by simp_all
qed

lemma lower_bound_find_exact_iff:
  assumes wf: "lru_wf c"
  shows "snd (lower_bound_find c k) \<longleftrightarrow> lru_map c k \<noteq> None"
proof
  assume "snd (lower_bound_find c k)"
  then show "lru_map c k \<noteq> None" using lower_bound_find_hit(5) [OF wf] by simp
next
  let ?i = "lower_bound (lcache c) k"
  assume "lru_map c k \<noteq> None"
  then obtain v where v: "v \<in> set (lcache c)" "lkey v = k" "is_valid c v"
    using lru_map_None_iff [OF wf, of k] by auto
  have srt: "sorted_wrt (<) (map lkey (lcache c))" using wf by (simp add: lru_wf_def items_ok_def)
  note lb = sorted_keys_lower_bound [OF srt, where k = k]
  have "v \<notin> set (take ?i (lcache c))" using lb(2) v(2) by auto
  then have vd: "v \<in> set (drop ?i (lcache c))" using v(1) by (metis UnE append_take_drop_id set_append)
  then have i: "?i < length (lcache c)" by (cases "?i < length (lcache c)") auto
  have d: "drop ?i (lcache c) = lcache c ! ?i # drop (Suc ?i) (lcache c)" using i by (simp add: Cons_nth_drop_Suc)
  have "sorted_wrt (<) (map lkey (drop ?i (lcache c)))" using srt by (simp add: drop_map [symmetric] sorted_wrt_drop)
  then have "v = lcache c ! ?i \<or> lkey (lcache c ! ?i) < k" using vd d v(2) by auto
  moreover have "k \<le> lkey (lcache c ! ?i)" using lb(3) d by simp
  ultimately show "snd (lower_bound_find c k)" using i v by (auto simp: lower_bound_find_def Let_def)
qed

subsection \<open>Lookup and invalidation\<close>

lemma items_ok_touch:
  assumes ok: "items_ok n (P @ e # Q)" and n: "0 < n"
  shows "items_ok n (map (bump (lrefs e)) P @ e\<lparr>lrefs := 0\<rparr> # map (bump (lrefs e)) Q) \<or> ldata e = None"
proof (cases "ldata e")
  case (Some d)
  note rm = items_ok_remove [OF ok]
  have "\<forall>v \<in> set P. lkey v < lkey e" "\<forall>v \<in> set Q. lkey e < lkey v"
    using ok by (auto simp: items_ok_def sorted_wrt_append)
  then have "items_ok n (map (bump (lrefs e)) P @ \<lparr>lkey = lkey e, ldata = Some d, lrefs = 0\<rparr> # map (bump (lrefs e)) Q)"
    using items_ok_insert [OF rm(1) _ _ rm(2,3) n] by blast
  moreover have "e\<lparr>lrefs := 0\<rparr> = \<lparr>lkey = lkey e, ldata = Some d, lrefs = 0\<rparr>"
    using Some by (cases e) simp
  ultimately show ?thesis by simp
qed simp

text \<open>A valid slot keeps its validity when others are touched; only age \<open>len_max - 1\<close> can expire.\<close>

lemma bump_valid:
  assumes "x \<noteq> n" "r < n" "x \<le> n"
  shows "bump_nat r x \<noteq> n"
  using assms by (auto simp: bump_nat_def)

lemma lru_find_shape:
  assumes wf: "lru_wf c"
  obtains (miss) "lru_map c k = None" "lru_find c k = Some (None, c)"
  | (hit) P e Q where
      "lcache c = P @ e # Q" "lkey e = k" "is_valid c e" "lru_map c k = ldata e" "ldata e \<noteq> None"
      "lru_find c k = Some (ldata e,
         c\<lparr>lcache := map (bump (lrefs e)) P @ e\<lparr>lrefs := 0\<rparr> # map (bump (lrefs e)) Q\<rparr>)"
proof (cases "snd (lower_bound_find c k)")
  case False
  then have "lru_find c k = Some (None, c)" by (simp add: lru_find_def case_prod_beta')
  with False show ?thesis using lower_bound_find_exact_iff [OF wf, of k] miss by simp
next
  case True
  note h = lower_bound_find_hit [OF wf True]
  let ?i = "fst (lower_bound_find c k)"
  note s = list_split_at [OF h(1)]
  have c: "c\<lparr>lcache := take ?i (lcache c) @ lcache c ! ?i # drop (Suc ?i) (lcache c)\<rparr> = c" using s(1) by simp
  have "touch c ?i = Some (c\<lparr>lcache := map (bump (lrefs (lcache c ! ?i))) (take ?i (lcache c)) @
      (lcache c ! ?i)\<lparr>lrefs := 0\<rparr> # map (bump (lrefs (lcache c ! ?i))) (drop (Suc ?i) (lcache c))\<rparr>)"
    using touch_append [where c = c and P = "take ?i (lcache c)" and v = "lcache c ! ?i" and Q = "drop (Suc ?i) (lcache c)"]
    unfolding c s(2) .
  then have "lru_find c k = Some (ldata (lcache c ! ?i), c\<lparr>lcache := map (bump (lrefs (lcache c ! ?i))) (take ?i (lcache c)) @
      (lcache c ! ?i)\<lparr>lrefs := 0\<rparr> # map (bump (lrefs (lcache c ! ?i))) (drop (Suc ?i) (lcache c))\<rparr>)"
    using True by (simp add: lru_find_def case_prod_beta')
  note f = this
  show ?thesis using h(4,5) by (intro hit [OF s(1) h(2,3,4) _ f]) simp
qed

lemma lru_find_wf_map:
  assumes wf: "lru_wf c"
  shows "\<exists>c'. lru_find c k = Some (lru_map c k, c') \<and> lru_wf c' \<and> lru_map c' = lru_map c"
  using wf
proof (cases rule: lru_find_shape [where k = k, consumes 1])
  case miss
  then show ?thesis using wf by simp
next
  case (hit P e Q)
  let ?c = "c\<lparr>lcache := map (bump (lrefs e)) P @ e\<lparr>lrefs := 0\<rparr> # map (bump (lrefs e)) Q\<rparr>"
  have ok: "items_ok (cache_len_max c) (P @ e # Q)" and n: "0 < cache_len_max c"
    using wf hit(1) by (auto simp: lru_wf_def)
  have wf': "lru_wf ?c" using items_ok_touch [OF ok n] wf hit(1,5) by (simp add: lru_wf_def)
  have r: "lrefs e < cache_len_max c" using ok hit(3) by (auto simp: items_ok_def is_valid_def)
  have le: "\<forall>v \<in> set (P @ e # Q). lrefs v \<le> cache_len_max c" using ok by (auto simp: items_ok_def)
  have "is_valid ?c (bump (lrefs e) v) \<longleftrightarrow> is_valid c v" if "v \<in> set (P @ e # Q)" for v
    using that le r by (auto simp: is_valid_def bump_nat_def)
  then have "lru_map ?c k' = Some d \<longleftrightarrow> lru_map c k' = Some d" for k' d
    unfolding lru_map_iff [OF wf] lru_map_iff [OF wf'] using hit(1,3) n
    by (simp add: is_valid_def bex_Un cong: bex_cong_simp)
  then have "lru_map ?c = lru_map c" by (intro ext lru_map_eqI) auto
  with wf' hit(4,6) show ?thesis by auto
qed

lemma invalidate_index_ok:
  assumes wf: "lru_wf c" and i: "i < length (lcache c)"
  shows "lru_wf (invalidate_index c i)"
    and "lru_map (invalidate_index c i) k = (if k = lkey (lcache c ! i) then None else lru_map c k)"
    and "map lkey (lcache (invalidate_index c i)) = map lkey (lcache c)"
proof -
  obtain P e Q where s: "lcache c = P @ e # Q" "length P = i" using list_split_at [OF i] by metis
  have e: "lcache c ! i = e" using s by (simp add: nth_append)
  have l: "lcache (invalidate_index c i) = P @ invalidate_item c e # Q"
    using s e by (simp add: invalidate_index_def list_update_append)
  have n: "cache_len_max (invalidate_index c i) = cache_len_max c" "cache_item_sz (invalidate_index c i) = cache_item_sz c"
    by (simp_all add: invalidate_index_def)
  have ie: "lkey (invalidate_item c e) = lkey e" "lrefs (invalidate_item c e) = cache_len_max c"
    by (simp_all add: invalidate_item_def)
  have ok: "items_ok (cache_len_max c) (P @ e # Q)" using wf s(1) by (simp add: lru_wf_def)
  then have "items_ok (cache_len_max c) (P @ invalidate_item c e # Q)"
    by (auto simp: items_ok_def refs_distinct_append_Cons ie)
  then show wf': "lru_wf (invalidate_index c i)" using wf s(1) by (simp add: lru_wf_def l n)
  have ne: "\<forall>v \<in> set (P @ Q). lkey v \<noteq> lkey e" using ok by (auto simp: items_ok_def sorted_wrt_append)
  have v: "is_valid (invalidate_index c i) = is_valid c" "\<not> is_valid c (invalidate_item c e)"
    by (auto simp: fun_eq_iff is_valid_def n ie)
  show "lru_map (invalidate_index c i) k = (if k = lkey (lcache c ! i) then None else lru_map c k)"
  proof (rule lru_map_eqI)
    fix d
    show "lru_map (invalidate_index c i) k = Some d \<longleftrightarrow> (if k = lkey (lcache c ! i) then None else lru_map c k) = Some d"
      using ne v(2) by (simp add: lru_map_iff [OF wf'] lru_map_iff [OF wf] v l s(1) ie e[unfolded s(1)])
  qed
  show "map lkey (lcache (invalidate_index c i)) = map lkey (lcache c)" by (simp add: l s(1) ie)
qed

lemma lru_invalidate_store:
  assumes "lru_wf c"
  shows "lru_wf (lru_invalidate c k) \<and> lru_map (lru_invalidate c k) = (lru_map c)(k := None)"
proof (cases "snd (lower_bound_find c k)")
  case True
  note h = lower_bound_find_hit [OF assms True]
  have "lru_invalidate c k = invalidate_index c (fst (lower_bound_find c k))"
    using True by (simp add: lru_invalidate_def case_prod_beta')
  then show ?thesis using invalidate_index_ok [OF assms h(1)] h(2) by (auto simp: fun_eq_iff)
next
  case False
  then have "lru_invalidate c k = c" by (simp add: lru_invalidate_def case_prod_beta')
  moreover have "lru_map c k = None" using False lower_bound_find_exact_iff [OF assms] by auto
  ultimately show ?thesis using assms by (auto simp: fun_eq_iff)
qed

lemma fold_invalidate_index:
  assumes "lru_wf c" "\<forall>i \<in> set is. i < length (lcache c)"
  shows "lru_wf (foldl invalidate_index c is) \<and>
    lru_map (foldl invalidate_index c is) =
      (\<lambda>k. if \<exists>i \<in> set is. k = lkey (lcache c ! i) then None else lru_map c k)"
  using assms
proof (induction "is" arbitrary: c)
  case (Cons i "is")
  then have i: "i < length (lcache c)" by simp
  note ii = invalidate_index_ok [OF Cons.prems(1) i]
  have "length (lcache (invalidate_index c i)) = length (lcache c)"
    using ii(3) by (metis length_map)
  moreover have "lkey (lcache (invalidate_index c i) ! j) = lkey (lcache c ! j)" if "j < length (lcache c)" for j
    using ii(3) that calculation by (metis nth_map)
  ultimately show ?case using Cons.IH [OF ii(1)] Cons.prems(2) ii(2) by (auto simp: fun_eq_iff)
qed simp

lemma lower_bound_nth:
  assumes "sorted_wrt (<) (map lkey vs)" "i < length vs"
  shows "i < lower_bound vs k \<longleftrightarrow> lkey (vs ! i) < k"
proof
  assume l: "i < lower_bound vs k"
  then have "vs ! i \<in> set (take (lower_bound vs k) vs)" using assms(2) by (auto simp: in_set_conv_nth)
  then show "lkey (vs ! i) < k" using sorted_keys_lower_bound(2) [OF assms(1)] by blast
next
  assume l: "lkey (vs ! i) < k"
  show "i < lower_bound vs k"
  proof (rule ccontr)
    assume "\<not> i < lower_bound vs k"
    then have "vs ! i \<in> set (drop (lower_bound vs k) vs)"
      using assms(2) by (auto simp: in_set_conv_nth intro: exI [of _ "i - lower_bound vs k"])
    then show False using sorted_keys_lower_bound(3) [OF assms(1)] l by fastforce
  qed
qed

lemma range_find_indices:
  assumes srt: "sorted_wrt (<) (map lkey (lcache c))" and lt: "a < b"
  shows "\<exists>is. range_find c (a, b) = Some is \<and>
    set is = {i. i < length (lcache c) \<and> a \<le> lkey (lcache c ! i) \<and> lkey (lcache c ! i) < b}"
proof -
  let ?f = "lower_bound (lcache c) a"
  let ?g = "lower_bound (drop ?f (lcache c)) b"
  have f: "?f \<le> length (lcache c)" using sorted_keys_lower_bound(1) [OF srt] .
  have srt': "sorted_wrt (<) (map lkey (drop ?f (lcache c)))" using srt by (simp add: drop_map [symmetric] sorted_wrt_drop)
  have g: "?g \<le> length (lcache c) - ?f" using sorted_keys_lower_bound(1) [OF srt'] by simp
  have "(?f \<le> i \<and> i < ?f + ?g) = (i < length (lcache c) \<and> a \<le> lkey (lcache c ! i) \<and> lkey (lcache c ! i) < b)" for i
  proof (cases "?f \<le> i \<and> i < length (lcache c)")
    case True
    then have "i - ?f < length (drop ?f (lcache c))" by (simp add: diff_less_mono)
    then have "i - ?f < ?g \<longleftrightarrow> lkey (lcache c ! i) < b"
      using lower_bound_nth [OF srt', of "i - ?f" b] True by simp
    moreover have "i < ?f \<longleftrightarrow> lkey (lcache c ! i) < a" using lower_bound_nth [OF srt] True by blast
    ultimately show ?thesis using True by auto
  next
    case False
    then show ?thesis using lower_bound_nth [OF srt, of i a] f g by auto
  qed
  then have "set [?f..<?f + ?g] = {i. i < length (lcache c) \<and> a \<le> lkey (lcache c ! i) \<and> lkey (lcache c ! i) < b}"
    by (intro set_eqI) (simp only: set_upt atLeastLessThan_iff mem_Collect_eq)
  moreover have "range_find c (a, b) = Some [?f..<?f + ?g]" using lt by (simp add: range_find_def Let_def)
  ultimately show ?thesis by blast
qed

lemma lru_invalidate_range_store:
  assumes "lru_wf c" and "a < b"
  shows "\<exists>c'. lru_invalidate_range c (a, b) = Some c' \<and> lru_wf c' \<and>
    lru_map c' = (\<lambda>k. if a \<le> k \<and> k < b then None else lru_map c k)"
proof -
  have "sorted_wrt (<) (map lkey (lcache c))" using assms(1) by (simp add: lru_wf_def items_ok_def)
  from range_find_indices [OF this assms(2)] obtain "is" where r: "range_find c (a, b) = Some is"
    and s: "set is = {i. i < length (lcache c) \<and> a \<le> lkey (lcache c ! i) \<and> lkey (lcache c ! i) < b}" by blast
  have f: "lru_wf (foldl invalidate_index c is)" "lru_map (foldl invalidate_index c is) =
      (\<lambda>k. if \<exists>i \<in> set is. k = lkey (lcache c ! i) then None else lru_map c k)"
    using fold_invalidate_index [OF assms(1), of "is"] s by auto
  have "lru_map c k = None" if "a \<le> k" "k < b" "\<not> (\<exists>i \<in> set is. k = lkey (lcache c ! i))" for k
  proof -
    have "lkey v \<noteq> k" if v: "v \<in> set (lcache c)" for v
    proof -
      from v obtain i where "i < length (lcache c)" "v = lcache c ! i" by (auto simp: in_set_conv_nth)
      then show ?thesis using \<open>a \<le> k\<close> \<open>k < b\<close> \<open>\<not> (\<exists>i \<in> set is. k = lkey (lcache c ! i))\<close> s by blast
    qed
    then show ?thesis using lru_map_None_iff [OF assms(1), of k] by blast
  qed
  then have "lru_map (foldl invalidate_index c is) = (\<lambda>k. if a \<le> k \<and> k < b then None else lru_map c k)"
    unfolding f(2) using s by (auto simp: fun_eq_iff)
  then show ?thesis using r f(1) by (simp add: lru_invalidate_range_def)
qed

subsection \<open>What an update does to the map\<close>

lemma lru_map_updated:
  assumes wf': "lru_wf (updated c P r k (Some d) Q)" and keys: "\<forall>v \<in> set (P @ Q). lkey v \<noteq> k"
  shows "lru_map (updated c P r k (Some d) Q) k' = Some d' \<longleftrightarrow>
    (if k' = k then d' = d
     else \<exists>v \<in> set (P @ Q). lkey v = k' \<and> bump_nat r (lrefs v) \<noteq> cache_len_max c \<and> ldata v = Some d')"
proof -
  have "cache_len_max c \<noteq> 0" using wf' by (simp add: lru_wf_def updated_def)
  then show ?thesis using keys unfolding lru_map_iff [OF wf']
    by (auto simp: updated_def is_valid_def bex_Un)
qed

lemma refs_distinct_unique:
  assumes "refs_distinct n vs" "v \<in> set vs" "w \<in> set vs" "lrefs v = lrefs w" "lrefs v \<noteq> n"
  shows "v = w"
proof -
  have "distinct (map lrefs (filter (\<lambda>v. lrefs v \<noteq> n) vs))"
    using assms(1) by (simp add: refs_distinct_def filter_map comp_def)
  then have "inj_on lrefs (set (filter (\<lambda>v. lrefs v \<noteq> n) vs))" by (simp add: distinct_map)
  then show ?thesis by (rule inj_onD [where f = lrefs]) (use assms in simp_all)
qed

text \<open>Ageing everything by one (\<open>r = n\<close>) expires at most the item of age \<open>n - 1\<close>.\<close>

lemma expire_at_most_one:
  assumes ok: "items_ok n vs"
  shows "\<exists>lost. \<forall>v \<in> set vs. lrefs v \<noteq> n \<longrightarrow> (bump_nat n (lrefs v) = n \<longleftrightarrow> lost = Some (lkey v))"
proof -
  have b: "bump_nat n (lrefs v) = n \<longleftrightarrow> Suc (lrefs v) = n" if "v \<in> set vs" "lrefs v \<noteq> n" for v
    using that ok by (auto simp: items_ok_def bump_nat_def)
  show ?thesis
  proof (cases "\<exists>v \<in> set vs. Suc (lrefs v) = n")
    case True
    then obtain w where w: "w \<in> set vs" "Suc (lrefs w) = n" by blast
    have "Suc (lrefs v) = n \<longleftrightarrow> lkey w = lkey v" if "v \<in> set vs" for v
      using that w refs_distinct_unique [of n vs v w] sorted_keys_unique [of vs v w] ok
      by (metis items_ok_def n_not_Suc_n nat.inject)
    with b show ?thesis by (intro exI [of _ "Some (lkey w)"]) auto
  next
    case False
    with b show ?thesis by (intro exI [of _ None]) auto
  qed
qed


lemma lru_map_updated_lost:
  assumes wf: "lru_wf c" and wf': "lru_wf (updated c P r k (Some d) Q)" and r: "r \<le> cache_len_max c"
    and keys: "\<forall>v \<in> set (P @ Q). lkey v \<noteq> k" and sub: "set (P @ Q) \<subseteq> set (lcache c)"
    and rest: "\<forall>v \<in> set (lcache c). is_valid c v \<longrightarrow> v \<in> set (P @ Q) \<or> lkey v = k \<or> lost = Some (lkey v)"
    and lost: "\<forall>v \<in> set (P @ Q). is_valid c v \<longrightarrow> (bump_nat r (lrefs v) = cache_len_max c \<longleftrightarrow> lost = Some (lkey v))"
  shows "lru_map (updated c P r k (Some d) Q) =
    (\<lambda>k'. if k' = k then Some d else if lost = Some k' then None else lru_map c k')"
proof (intro ext lru_map_eqI)
  fix k' d'
  have inv: "\<not> is_valid c v \<Longrightarrow> bump_nat r (lrefs v) = cache_len_max c" for v
    using r by (simp add: is_valid_def bump_nat_def)
  show "lru_map (updated c P r k (Some d) Q) k' = Some d' \<longleftrightarrow>
      (if k' = k then Some d else if lost = Some k' then None else lru_map c k') = Some d'"
  proof (cases "k' = k \<or> lost = Some k'")
    case True
    then show ?thesis using lost inv by (auto simp: lru_map_updated [OF wf' keys])
  next
    case False
    have "(\<exists>v \<in> set (P @ Q). lkey v = k' \<and> bump_nat r (lrefs v) \<noteq> cache_len_max c \<and> ldata v = Some d') \<longleftrightarrow>
        (\<exists>v \<in> set (lcache c). lkey v = k' \<and> is_valid c v \<and> ldata v = Some d')"
      (is "?l = ?r")
    proof
      assume ?l
      then show ?r using inv sub by blast
    next
      assume ?r
      then show ?l using False rest lost by metis
    qed
    then show ?thesis using False by (simp add: lru_map_updated [OF wf' keys] lru_map_iff [OF wf])
  qed
qed

lemma lru_update_slot:
  assumes wf: "lru_wf c" and split: "lcache c = X @ e # Y" "P @ Q = X @ Y"
    and keys: "\<forall>v \<in> set P. lkey v < k" "\<forall>v \<in> set Q. k < lkey v"
  shows "lru_wf (updated c P (lrefs e) k (Some d) Q) \<and>
    (\<exists>lost. lru_map (updated c P (lrefs e) k (Some d) Q) =
      (\<lambda>k'. if k' = k then Some d else if lost = Some k' then None else lru_map c k'))"
proof -
  let ?n = "cache_len_max c" and ?c = "updated c P (lrefs e) k (Some d) Q"
  have ok: "items_ok ?n (X @ e # Y)" using wf split(1) by (simp add: lru_wf_def)
  note rm = items_ok_remove [OF this]
  have "length (P @ Q) = length (X @ Y)" using split(2) by simp
  with wf split(1) have "Suc (length (P @ Q)) \<le> ?n" by (simp add: lru_wf_def)
  with rm split(2) keys have wf': "lru_wf ?c" by (intro updated_wf [OF wf]) auto
  have ne: "\<forall>v \<in> set (P @ Q). lkey v \<noteq> k" using keys by auto
  have PQ: "set (P @ Q) = set (X @ Y)" using split(2) by simp
  have ek: "\<forall>v \<in> set (X @ Y). lkey v \<noteq> lkey e" using ok by (auto simp: items_ok_def sorted_wrt_append)
  have "\<exists>lost. (\<forall>v \<in> set (X @ Y). is_valid c v \<longrightarrow> (bump_nat (lrefs e) (lrefs v) = ?n \<longleftrightarrow> lost = Some (lkey v))) \<and>
      (is_valid c e \<longrightarrow> lost = Some (lkey e))"
  proof (cases "is_valid c e")
    case True
    then have "\<forall>v \<in> set (X @ Y). is_valid c v \<longrightarrow> bump_nat (lrefs e) (lrefs v) \<noteq> ?n"
      using rm(2) by (auto simp: bump_nat_def is_valid_def)
    with ek show ?thesis by (metis option.inject)
  next
    case False
    then show ?thesis using expire_at_most_one [OF rm(1)] by (simp add: is_valid_def)
  qed
  then obtain lost where "\<forall>v \<in> set (X @ Y). is_valid c v \<longrightarrow> (bump_nat (lrefs e) (lrefs v) = ?n \<longleftrightarrow> lost = Some (lkey v))"
    "is_valid c e \<longrightarrow> lost = Some (lkey e)" by blast
  then have "lru_map ?c = (\<lambda>k'. if k' = k then Some d else if lost = Some k' then None else lru_map c k')"
    using split(1) PQ by (intro lru_map_updated_lost [OF wf wf' rm(2) ne]) auto
  with wf' show ?thesis by blast
qed

lemma lru_update_new:
  assumes wf: "lru_wf c" and split: "lcache c = P @ Q" "length (lcache c) < cache_len_max c"
    and keys: "\<forall>v \<in> set P. lkey v < k" "\<forall>v \<in> set Q. k < lkey v"
  shows "lru_wf (updated c P (cache_len_max c) k (Some d) Q) \<and>
    (\<exists>lost. lru_map (updated c P (cache_len_max c) k (Some d) Q) =
      (\<lambda>k'. if k' = k then Some d else if lost = Some k' then None else lru_map c k'))"
proof -
  let ?n = "cache_len_max c"
  have ok: "items_ok ?n (P @ Q)" using wf split(1) by (simp add: lru_wf_def)
  then have wf': "lru_wf (updated c P ?n k (Some d) Q)"
    using split keys by (intro updated_wf [OF wf]) auto
  have ne: "\<forall>v \<in> set (P @ Q). lkey v \<noteq> k" using keys by auto
  obtain lost where "\<forall>v \<in> set (P @ Q). lrefs v \<noteq> ?n \<longrightarrow> (bump_nat ?n (lrefs v) = ?n \<longleftrightarrow> lost = Some (lkey v))"
    using expire_at_most_one [OF ok] by blast
  then have "lru_map (updated c P ?n k (Some d) Q) =
      (\<lambda>k'. if k' = k then Some d else if lost = Some k' then None else lru_map c k')"
    using split(1) by (intro lru_map_updated_lost [OF wf wf' order_refl ne]) (auto simp: is_valid_def)
  with wf' show ?thesis by blast
qed

lemma lru_update_store:
  assumes "lru_wf c"
  shows "\<exists>ev c' lost. lru_update c k (Some d) = Some (ev, c') \<and> lru_wf c' \<and>
    lru_map c' = (\<lambda>k'. if k' = k then Some d else if lost = Some k' then None else lru_map c k')"
  using assms
proof (cases rule: lru_update_shape [where k = k and d = "Some d", consumes 1])
  case (slot P Q X e Y)
  then show ?thesis using lru_update_slot [OF assms slot(1-4), of d] by blast
next
  case (grow P Q)
  then show ?thesis using lru_update_new [OF assms grow(1,5,2,3), of d] by blast
qed

subsection \<open>Refinement of a recency list\<close>

text \<open>
  As long as nothing is invalidated, the ages of the items are \<open>0, 1, \<dots>, length - 1\<close>, and the
  cache is a recency list of \<open>(key, value)\<close> pairs, youngest first.
\<close>

definition lru_dense :: "('k::linorder, 'd) flat_lru \<Rightarrow> bool" where
  "lru_dense c \<longleftrightarrow> lru_wf c \<and> lrefs ` set (lcache c) = {0..<length (lcache c)}"

definition item_pair :: "('k, 'd) lru_item \<Rightarrow> 'k \<times> 'd" where
  "item_pair v = (lkey v, the (ldata v))"

definition recency_list :: "('k, 'd) flat_lru \<Rightarrow> ('k \<times> 'd) list" where
  "recency_list c = map item_pair (sort_key lrefs (lcache c))"

text \<open>The textbook recency list.\<close>

definition rl_remove :: "'k \<Rightarrow> ('k \<times> 'd) list \<Rightarrow> ('k \<times> 'd) list" where
  "rl_remove k l = filter (\<lambda>p. fst p \<noteq> k) l"

definition rl_get :: "'k \<Rightarrow> ('k \<times> 'd) list \<Rightarrow> ('k \<times> 'd) list" where
  "rl_get k l = (case map_of l k of None \<Rightarrow> l | Some d \<Rightarrow> (k, d) # rl_remove k l)"

definition rl_put :: "nat \<Rightarrow> 'k \<Rightarrow> 'd \<Rightarrow> ('k \<times> 'd) list \<Rightarrow> ('k \<times> 'd) option \<times> ('k \<times> 'd) list" where
  "rl_put n k d l =
     (case map_of l k of
        Some d' \<Rightarrow> (Some (k, d'), (k, d) # rl_remove k l)
      | None \<Rightarrow> if length l < n then (None, (k, d) # l) else (Some (last l), (k, d) # butlast l))"

lemma item_pair_bump [simp]: "item_pair (bump r v) = item_pair v"
  by (simp add: item_pair_def)

lemma sort_key_lrefs_eqI:
  assumes "mset ys = mset xs" "distinct (map lrefs xs)" "sorted (map lrefs ys)"
  shows "sort_key lrefs xs = ys"
proof -
  have "inj_on lrefs (set xs)" using assms(2) by (simp add: distinct_map)
  then show ?thesis using assms(1,3) by (intro sort_key_inj_key_eq) auto
qed

lemma bump_sorted:
  assumes "sorted (map lrefs xs)" "distinct (map lrefs xs)" "r \<notin> lrefs ` set xs"
  shows "sorted (map lrefs (map (bump r) xs))"
  using assms
proof (induction xs)
  case (Cons x xs)
  have "bump_nat r (lrefs x) \<le> bump_nat r (lrefs y)" if y: "y \<in> set xs" for y
  proof -
    have "lrefs x < lrefs y" "lrefs x \<noteq> r" "lrefs y \<noteq> r"
      using y Cons.prems by (auto simp: image_iff order.strict_iff_order)
    then show ?thesis using bump_nat_mono_neq by fastforce
  qed
  with Cons show ?case by auto
qed simp

lemma bump_distinct:
  assumes "distinct (map lrefs xs)" "r \<notin> lrefs ` set xs"
  shows "distinct (map lrefs (map (bump r) xs))"
  using assms
proof (induction xs)
  case (Cons x xs)
  have "bump_nat r (lrefs x) \<noteq> bump_nat r (lrefs y)" if "y \<in> set xs" for y
    using that Cons.prems bump_nat_mono_neq [of "lrefs x" r "lrefs y"] bump_nat_mono_neq [of "lrefs y" r "lrefs x"]
    by (metis image_eqI list.set_intros linorder_neqE_nat nat_neq_iff set_map distinct.simps(2) list.simps(9) list.set_intros(2))
  with Cons show ?case by auto
qed simp

text \<open>The list after a touch: the touched item in front, the others in their old order.\<close>

lemma sort_key_updated:
  assumes d: "distinct (map lrefs (P @ Q))" and r: "r \<notin> lrefs ` set (P @ Q)" and v: "lrefs v = 0"
  shows "map item_pair (sort_key lrefs (map (bump r) P @ v # map (bump r) Q)) =
    item_pair v # map item_pair (sort_key lrefs (P @ Q))"
proof -
  let ?s = "sort_key lrefs (P @ Q)"
  have ds: "distinct (map lrefs ?s)" using d
    by (metis distinct_map distinct_sort mset_sort set_sort)
  have ss: "set ?s = set (P @ Q)" by simp
  have pos: "bump_nat r x \<noteq> 0" if "x \<in> lrefs ` set (P @ Q)" for x
    using r that by (auto simp: bump_nat_def)
  have "distinct (map lrefs (map (bump r) (P @ Q)))" using bump_distinct [OF d r] .
  then have "distinct (map lrefs (map (bump r) P @ v # map (bump r) Q))"
    using pos v by (auto simp: image_iff)
  moreover have "mset (v # map (bump r) ?s) = mset (map (bump r) P @ v # map (bump r) Q)" by simp
  moreover have "sorted (map lrefs (v # map (bump r) ?s))"
    using bump_sorted [OF _ ds, of r] r v ss by simp
  ultimately have "sort_key lrefs (map (bump r) P @ v # map (bump r) Q) = v # map (bump r) ?s"
    by (intro sort_key_lrefs_eqI)
  then show ?thesis by simp
qed

lemma sort_key_remove_slot:
  assumes "distinct (map lrefs (X @ e # Y))" "\<forall>v \<in> set (X @ Y). lkey v \<noteq> lkey e"
  shows "map item_pair (sort_key lrefs (X @ Y)) = rl_remove (lkey e) (map item_pair (sort_key lrefs (X @ e # Y)))"
proof -
  have "X @ Y = filter (\<lambda>v. lkey v \<noteq> lkey e) (X @ e # Y)" using assms(2) by (simp add: filter_id_conv [symmetric])
  then have "sort_key lrefs (X @ Y) = filter (\<lambda>v. lkey v \<noteq> lkey e) (sort_key lrefs (X @ e # Y))"
    by (simp add: filter_sort)
  then show ?thesis by (simp add: rl_remove_def filter_map comp_def item_pair_def)
qed

lemma lru_dense_facts:
  assumes "lru_dense c"
  shows "lru_wf c" "distinct (map lrefs (lcache c))"
    "\<And>v. v \<in> set (lcache c) \<Longrightarrow> lrefs v < length (lcache c)"
    "\<And>v. v \<in> set (lcache c) \<Longrightarrow> is_valid c v"
    "\<And>v. v \<in> set (lcache c) \<Longrightarrow> \<exists>d. ldata v = Some d"
proof -
  show wf: "lru_wf c" using assms by (simp add: lru_dense_def)
  show lt: "\<And>v. v \<in> set (lcache c) \<Longrightarrow> lrefs v < length (lcache c)"
    using assms by (auto simp: lru_dense_def)
  then show val: "\<And>v. v \<in> set (lcache c) \<Longrightarrow> is_valid c v"
    using wf by (fastforce simp: lru_wf_def is_valid_def)
  then show "\<And>v. v \<in> set (lcache c) \<Longrightarrow> \<exists>d. ldata v = Some d"
    using wf by (auto simp: lru_wf_def items_ok_def is_valid_def)
  have "card (set (map lrefs (lcache c))) = length (map lrefs (lcache c))"
    using assms by (simp add: lru_dense_def)
  then show "distinct (map lrefs (lcache c))" by (rule card_distinct)
qed

lemma recency_list_keys:
  assumes "lru_wf c"
  shows "distinct (map fst (recency_list c))"
proof -
  have "map fst (recency_list c) = map lkey (sort_key lrefs (lcache c))"
    by (simp add: recency_list_def item_pair_def comp_def)
  moreover have "distinct (map lkey (lcache c))"
    using assms by (auto simp: lru_wf_def items_ok_def strict_sorted_iff)
  ultimately show ?thesis by (metis distinct_map distinct_sort set_sort)
qed

lemma map_of_recency_list:
  assumes "lru_dense c"
  shows "map_of (recency_list c) = lru_map c"
proof
  note d = lru_dense_facts [OF assms]
  fix k
  show "map_of (recency_list c) k = lru_map c k"
  proof (rule sym, rule lru_map_eqI)
    fix x
    have "map_of (recency_list c) k = Some x \<longleftrightarrow> (k, x) \<in> set (recency_list c)"
      using recency_list_keys [OF d(1)] by simp
    also have "\<dots> \<longleftrightarrow> (\<exists>v \<in> set (lcache c). lkey v = k \<and> the (ldata v) = x)"
      by (auto simp: recency_list_def item_pair_def)
    also have "\<dots> \<longleftrightarrow> (\<exists>v \<in> set (lcache c). lkey v = k \<and> is_valid c v \<and> ldata v = Some x)"
      using d(4,5) by (metis option.sel)
    finally show "lru_map c k = Some x \<longleftrightarrow> map_of (recency_list c) k = Some x"
      using lru_map_iff [OF d(1)] by simp
  qed
qed

lemma length_recency_list [simp]: "length (recency_list c) = length (lcache c)"
  by (simp add: recency_list_def)

lemma dense_refs_slot:
  assumes "lrefs ` set (X @ e # Y) = {0..<length (X @ e # Y)}" "lrefs e \<notin> lrefs ` set (X @ Y)"
  shows "insert 0 (bump_nat (lrefs e) ` lrefs ` set (X @ Y)) = {0..<length (X @ e # Y)}"
proof -
  let ?L = "length (X @ e # Y)"
  have r: "lrefs e < ?L" using assms(1) by auto
  have "insert (lrefs e) (lrefs ` set (X @ Y)) = {0..<?L}" using assms(1) by simp
  then have "lrefs ` set (X @ Y) = {0..<?L} - {lrefs e}" using assms(2) by (metis Diff_insert_absorb)
  moreover have "insert 0 (bump_nat r ` ({0..<L} - {r})) = {0..<L}" if "r < L" for r L :: nat
  proof (intro set_eqI iffI)
    fix x assume "x \<in> insert 0 (bump_nat r ` ({0..<L} - {r}))"
    then show "x \<in> {0..<L}" using that by (auto simp: bump_nat_def)
  next
    fix x assume x: "x \<in> {0..<L}"
    then consider "x = 0" | y where "x = Suc y" "y < r" | "r < x"
      by (metis Suc_leI less_Suc_eq_le linorder_not_le not0_implies_Suc)
    then show "x \<in> insert 0 (bump_nat r ` ({0..<L} - {r}))"
    proof cases
      case 2
      then show ?thesis using that by (auto simp: bump_nat_def intro!: image_eqI [of _ _ y])
    next
      case 3
      then show ?thesis using x by (auto simp: bump_nat_def intro!: image_eqI [of _ _ x])
    qed simp
  qed
  ultimately show ?thesis using r by simp
qed

lemma dense_slot:
  assumes d: "lru_dense c" and split: "lcache c = X @ e # Y"
  shows "lrefs e \<notin> lrefs ` set (X @ Y)" "\<forall>v \<in> set (X @ Y). lkey v \<noteq> lkey e"
    and "distinct (map lrefs (X @ Y))"
  using lru_dense_facts(1,2) [OF d] split by (auto simp: lru_wf_def items_ok_def sorted_wrt_append)

lemma dense_updated_slot:
  assumes d: "lru_dense c" and split: "lcache c = X @ e # Y" "P @ Q = X @ Y"
    and keys: "\<forall>v \<in> set P. lkey v < k" "\<forall>v \<in> set Q. k < lkey v"
  shows "lru_dense (updated c P (lrefs e) k (Some x) Q)"
    and "recency_list (updated c P (lrefs e) k (Some x) Q) = (k, x) # rl_remove (lkey e) (recency_list c)"
proof -
  let ?c = "updated c P (lrefs e) k (Some x) Q"
  note s = dense_slot [OF d split(1)] lru_dense_facts(2) [OF d, unfolded split(1)]
  have "lru_wf ?c" using lru_update_slot [OF lru_dense_facts(1) [OF d] split keys] by blast
  moreover have "lrefs ` set (lcache ?c) = insert 0 (bump_nat (lrefs e) ` lrefs ` set (P @ Q))"
    by (simp add: updated_def image_Un image_image)
  moreover have "\<dots> = {0..<length (lcache c)}"
    using dense_refs_slot [OF _ s(1)] d split by (simp add: lru_dense_def del: length_append)
  moreover have "length (lcache ?c) = length (lcache c)"
    using arg_cong [OF split(2), of length] split(1) by (simp add: updated_def)
  ultimately show "lru_dense ?c" by (simp add: lru_dense_def)
  show "recency_list ?c = (k, x) # rl_remove (lkey e) (recency_list c)"
    using sort_key_updated [of P Q "lrefs e" "\<lparr>lkey = k, ldata = Some x, lrefs = 0\<rparr>"] s split
      sort_key_remove_slot [of X e Y]
    by (simp add: recency_list_def updated_def item_pair_def del: map_append set_append)
qed

lemma dense_updated_new:
  assumes d: "lru_dense c" and split: "lcache c = P @ Q" "length (lcache c) < cache_len_max c"
    and keys: "\<forall>v \<in> set P. lkey v < k" "\<forall>v \<in> set Q. k < lkey v"
  shows "lru_dense (updated c P (cache_len_max c) k (Some x) Q)"
    and "recency_list (updated c P (cache_len_max c) k (Some x) Q) = (k, x) # recency_list c"
proof -
  let ?n = "cache_len_max c" and ?c = "updated c P (cache_len_max c) k (Some x) Q"
  note f = lru_dense_facts [OF d]
  have lt: "\<forall>v \<in> set (P @ Q). lrefs v < ?n" using f(3) split by fastforce
  have "lru_wf ?c" using lru_update_new [OF f(1) split keys] by blast
  moreover have "lrefs ` set (lcache ?c) = insert 0 (bump_nat ?n ` lrefs ` set (P @ Q))"
    by (simp add: updated_def image_Un image_image)
  moreover have "bump_nat ?n ` lrefs ` set (P @ Q) = Suc ` lrefs ` set (P @ Q)"
    using lt by (intro image_cong) (auto simp: bump_nat_def)
  moreover have "lrefs ` set (P @ Q) = {0..<length (P @ Q)}" using d split(1) by (simp add: lru_dense_def)
  moreover have "insert 0 (Suc ` {0..<length (P @ Q)}) = {0..<Suc (length (P @ Q))}"
    by (simp add: atLeast0_lessThan_Suc_eq_insert_0 lessThan_atLeast0)
  moreover have "length (lcache ?c) = Suc (length (P @ Q))" by (simp add: updated_def)
  ultimately show "lru_dense ?c" by (simp add: lru_dense_def)
  have "?n \<notin> lrefs ` set (P @ Q)" using lt by auto
  then show "recency_list ?c = (k, x) # recency_list c"
    using sort_key_updated [of P Q ?n "\<lparr>lkey = k, ldata = Some x, lrefs = 0\<rparr>"] f(2) split
    by (simp add: recency_list_def updated_def item_pair_def del: map_append set_append)
qed

lemma oldest_is_last:
  assumes d: "lru_dense c" and split: "lcache c = X @ e # Y" and e: "e = lcache c ! evict_index_find c"
  shows "recency_list c = rl_remove (lkey e) (recency_list c) @ [item_pair e]"
proof -
  note s = dense_slot [OF d split] and f = lru_dense_facts [OF d]
  have "\<forall>v \<in> set (lcache c). lrefs v \<le> lrefs e"
    using evict_index_find_max e f(1) by (metis items_ok_def lru_wf_def)
  then have "sort_key lrefs (lcache c) = sort_key lrefs (X @ Y) @ [e]"
    using f(2) split by (intro sort_key_lrefs_eqI) (auto simp: sorted_append)
  then show ?thesis
    using sort_key_remove_slot [of X e Y] s(2) f(2) split by (simp add: recency_list_def)
qed

lemma rl_remove_absent: "map_of l k = None \<Longrightarrow> rl_remove k l = l"
  by (auto simp: rl_remove_def map_of_eq_None_iff filter_id_conv)

lemma lru_update_dense:
  assumes "lru_dense c"
  shows "\<exists>ev c'. lru_update c k (Some d) = Some (ev, c') \<and> lru_dense c' \<and>
    (ev, recency_list c') = rl_put (cache_len_max c) k d (recency_list c)"
  using lru_dense_facts(1) [OF assms]
proof (cases rule: lru_update_shape [where k = k and d = "Some d", consumes 1])
  case (slot P Q X e Y)
  note u = dense_updated_slot [OF assms slot(1-4), of d] and f = lru_dense_facts [OF assms]
  have e: "e \<in> set (lcache c)" "is_valid c e" using slot(1) f(4) by auto
  obtain x where x: "ldata e = Some x" using f(5) e by blast
  from slot(6) e(2) consider "lkey e = k"
    | "length (lcache c) = cache_len_max c" "e = lcache c ! evict_index_find c" "k \<notin> lkey ` set (lcache c)"
    by blast
  then show ?thesis
  proof cases
    case 1
    then have "map_of (recency_list c) k = Some x"
      using e x lru_map_iff [OF f(1), of k x] map_of_recency_list [OF assms] by auto
    with 1 slot(5) u x show ?thesis by (simp add: rl_put_def)
  next
    case 2
    have "lru_map c k = None" using 2(3) lru_map_None_iff [OF f(1), of k] by auto
    then have m: "map_of (recency_list c) k = None" using map_of_recency_list [OF assms] by simp
    note o = oldest_is_last [OF assms slot(1) 2(2)]
    have "last (recency_list c) = item_pair e" "butlast (recency_list c) = rl_remove (lkey e) (recency_list c)"
      by (subst o, simp)+
    with 2(1) m slot(5) u x show ?thesis by (simp add: rl_put_def item_pair_def)
  qed
next
  case (grow P Q)
  note u = dense_updated_new [OF assms grow(1,5,2,3), of d] and wf = lru_dense_facts(1) [OF assms]
  have "lru_map c k = None" using grow(1-3) lru_map_None_iff [OF wf, of k] by auto
  then have "map_of (recency_list c) k = None" using map_of_recency_list [OF assms] by simp
  with grow(4,5) u show ?thesis by (simp add: rl_put_def)
qed

text \<open>
  C17. On a dense cache \<open>update\<close> refines the recency list: a hit moves the key to the front and
  hands back the old value, a miss below the bound adds in front, and a miss at the bound evicts
  exactly the pair used least recently.
\<close>

theorem lru_update_refines:
  assumes "lru_dense c"
  shows "\<exists>ev c'. lru_update c k (Some d) = Some (ev, c') \<and> lru_dense c' \<and>
    (ev, recency_list c') = rl_put (cache_len_max c) k d (recency_list c)"
  by (rule lru_update_dense [OF assms])

text \<open>On a dense cache \<open>find\<close> returns the stored value and moves the key to the front.\<close>

theorem lru_find_refines:
  assumes "lru_dense c"
  shows "\<exists>c'. lru_find c k = Some (map_of (recency_list c) k, c') \<and> lru_dense c' \<and>
    recency_list c' = rl_get k (recency_list c)"
  using lru_dense_facts(1) [OF assms]
proof (cases rule: lru_find_shape [where k = k, consumes 1])
  case miss
  then show ?thesis using assms by (simp add: rl_get_def map_of_recency_list)
next
  case (hit P e Q)
  then obtain x where x: "ldata e = Some x" by auto
  have ok: "items_ok (cache_len_max c) (P @ e # Q)"
    using lru_dense_facts(1) [OF assms] hit(1) by (simp add: lru_wf_def)
  then have keys: "\<forall>v \<in> set P. lkey v < k" "\<forall>v \<in> set Q. k < lkey v"
    using hit(2) by (auto simp: items_ok_def sorted_wrt_append)
  have "e\<lparr>lrefs := 0\<rparr> = \<lparr>lkey = k, ldata = Some x, lrefs = 0\<rparr>" using hit(2) x by (cases e) simp
  then have "c\<lparr>lcache := map (bump (lrefs e)) P @ e\<lparr>lrefs := 0\<rparr> # map (bump (lrefs e)) Q\<rparr> =
      updated c P (lrefs e) k (Some x) Q" by (simp add: updated_def)
  with hit(4,6) x show ?thesis
    using dense_updated_slot [OF assms hit(1) refl keys, of x] hit(2) map_of_recency_list [OF assms]
    by (simp add: rl_get_def)
qed

subsection \<open>Invalidation and ageing\<close>

text \<open>
  Invalidation leaves a gap in the ages, and \<open>touch\<close> of the reused slot ages every item, so a
  cache that has a free slot can still expire its oldest item.
\<close>

lemma lower_bound_cong:
  assumes "map lkey vs = map lkey ws"
  shows "lower_bound vs k = lower_bound ws k"
proof -
  have "length (takeWhile (\<lambda>x. x < k) (map lkey vs)) = length (takeWhile (\<lambda>x. x < k) (map lkey ws))"
    using assms by simp
  then show ?thesis by (simp add: lower_bound_def takeWhile_map comp_def)
qed

lemma lower_bound_invalidate:
  assumes "i < length (lcache c)"
  shows "lower_bound (lcache (invalidate_index c i)) k = lower_bound (lcache c) k"
  using assms by (intro lower_bound_cong)
    (simp add: invalidate_index_def invalidate_item_def map_update list_update_same_conv)

lemma reuse_after_invalidate:
  assumes wf: "lru_wf c" and k: "lru_map c k \<noteq> None"
  obtains P e Q where "lcache c = P @ e # Q" "lkey e = k" "is_valid c e"
    "lru_update (lru_invalidate c k) k d = Some (None, updated c P (cache_len_max c) k d Q)"
proof -
  let ?i = "lower_bound (lcache c) k"
  have hit: "snd (lower_bound_find c k)" using lower_bound_find_exact_iff [OF wf] k by simp
  have f: "fst (lower_bound_find c k) = ?i" by (simp add: lower_bound_find_def Let_def)
  note h = lower_bound_find_hit [OF wf hit, unfolded f] and s = list_split_at [OF lower_bound_find_hit(1) [OF wf hit, unfolded f]]
  let ?P = "take ?i (lcache c)" and ?e = "lcache c ! ?i" and ?Q = "drop (Suc ?i) (lcache c)"
  let ?c = "lru_invalidate c k"
  have ci: "?c = invalidate_index c ?i" using hit f by (simp add: lru_invalidate_def case_prod_beta')
  have lc: "lcache ?c = ?P @ invalidate_item c ?e # ?Q"
    using h(1) by (simp add: ci invalidate_index_def upd_conv_take_nth_drop)
  have n: "cache_len_max ?c = cache_len_max c" by (simp add: ci invalidate_index_def)
  have lb: "lower_bound (lcache ?c) k = ?i" using lower_bound_invalidate [OF h(1)] ci by simp
  have "\<not> is_valid ?c (lcache ?c ! ?i)"
    using s(2) by (simp add: lc nth_append is_valid_def invalidate_item_def n)
  moreover have "?i < length (lcache ?c)" using h(1) by (simp add: lc)
  ultimately have "lru_update ?c k d = replace_at ?c ?i k d"
    using lru_update_replace [of ?c k d] by (simp add: lb)
  moreover have "?c = ?c\<lparr>lcache := ?P @ invalidate_item c ?e # ?Q\<rparr>" using lc by simp
  ultimately have "lru_update ?c k d = Some (None, updated ?c ?P (cache_len_max c) k d ?Q)"
    using replace_at_append [where c = ?c and P = ?P and v = "invalidate_item c ?e" and Q = ?Q] s(2)
    by (simp add: updated_def invalidate_item_def)
  moreover have "updated ?c ?P (cache_len_max c) k d ?Q = updated c ?P (cache_len_max c) k d ?Q"
    by (simp add: updated_def ci invalidate_index_def)
  ultimately show ?thesis using that [OF s(1) h(2,3)] by simp
qed

text \<open>
  C40. A full dense cache in which a key is invalidated and then stored again silently loses its
  oldest entry, although the slot of the invalidated key was free and nothing is handed back as
  evicted.
\<close>

theorem lru_invalidate_then_update_loses:
  assumes d: "lru_dense c" and full: "length (lcache c) = cache_len_max c"
    and j: "lru_map c j \<noteq> None" and oldest: "fst (last (recency_list c)) = k0" "k0 \<noteq> j"
  shows "\<exists>c'. lru_update (lru_invalidate c j) j (Some x) = Some (None, c') \<and>
    lru_map c' = (lru_map c)(k0 := None, j \<mapsto> x)"
proof -
  let ?n = "cache_len_max c"
  note f = lru_dense_facts [OF d]
  obtain P e Q where s: "lcache c = P @ e # Q" "lkey e = j" "is_valid c e"
    and up: "lru_update (lru_invalidate c j) j (Some x) = Some (None, updated c P ?n j (Some x) Q)"
    using reuse_after_invalidate [OF f(1) j] by metis
  have ok: "items_ok ?n (P @ e # Q)" using f(1) s(1) by (simp add: lru_wf_def)
  then have keys: "\<forall>v \<in> set P. lkey v < j" "\<forall>v \<in> set Q. j < lkey v"
    using s(2) by (auto simp: items_ok_def sorted_wrt_append)
  have wf': "lru_wf (updated c P ?n j (Some x) Q)"
    using f(1) s(1) items_ok_remove(1) [OF ok] keys
    by (intro updated_wf) (auto simp: lru_wf_def)
  have ne: "lcache c \<noteq> []" using s(1) by simp
  obtain X v Y where v: "lcache c = X @ v # Y" "v = lcache c ! evict_index_find c"
    using list_split_at [OF evict_index_find_in [OF ne]] by metis
  have k0: "lkey v = k0" using oldest(1) oldest_is_last [OF d v]
    by (metis fst_conv item_pair_def last_snoc)
  have vin: "v \<in> set (P @ Q)" using v(1) k0 oldest(2) s by (metis Un_iff in_set_conv_decomp set_append set_ConsD list.set_intros(2))
  have "0 < ?n" using f(1) by (simp add: lru_wf_def)
  then have "?n - 1 \<in> lrefs ` set (lcache c)" using d full by (simp add: lru_dense_def)
  then obtain w where w: "w \<in> set (lcache c)" "lrefs w = ?n - 1" by force
  have le: "\<forall>u \<in> set (lcache c). lrefs u \<le> ?n" using ok s(1) by (simp add: items_ok_def)
  have "?n - 1 \<le> lrefs v" using evict_index_find_max [OF le w(1)] unfolding w(2) v(2) [symmetric] .
  moreover have "lrefs v < ?n" using f(3) [of v] v(1) full by simp
  ultimately have age: "lrefs v = ?n - 1" by simp
  have srt: "sorted_wrt (<) (map lkey (lcache c))" using f(1) by (simp add: lru_wf_def items_ok_def)
  have inj: "inj_on lrefs (set (lcache c))" using f(2) by (simp add: distinct_map)
  have "bump_nat ?n (lrefs u) = ?n \<longleftrightarrow> Some k0 = Some (lkey u)" if u: "u \<in> set (P @ Q)" for u
  proof -
    have ul: "u \<in> set (lcache c)" "lrefs u < ?n" using u s(1) f(3) full by auto
    have "bump_nat ?n (lrefs u) = ?n \<longleftrightarrow> lrefs u = lrefs v" using ul(2) age by (auto simp: bump_nat_def)
    also have "\<dots> \<longleftrightarrow> u = v" using inj_on_eq_iff [OF inj ul(1)] v(1) by simp
    also have "\<dots> \<longleftrightarrow> lkey v = lkey u"
    proof
      assume "lkey v = lkey u"
      then show "u = v" using sorted_keys_unique [OF srt ul(1), of v] v(1) by simp
    qed simp
    finally show ?thesis using k0 by simp
  qed
  then have "lru_map (updated c P ?n j (Some x) Q) =
      (\<lambda>k'. if k' = j then Some x else if Some k0 = Some k' then None else lru_map c k')"
    using s keys by (intro lru_map_updated_lost [OF f(1) wf' order_refl]) auto
  also have "\<dots> = (lru_map c)(k0 := None, j \<mapsto> x)" using oldest(2) by (auto simp: fun_eq_iff)
  finally show ?thesis using up by blast
qed

subsection \<open>The cache as a lossy store\<close>

interpretation lru_store: lossy_cache lru_wf lru_map lru_find lru_update lru_invalidate lru_invalidate_range
proof
  fix c :: "('k::linorder, 'd) flat_lru" and a b k :: 'k and d :: 'd
  assume wf: "lru_wf c"
  show "\<exists>c'. lru_find c k = Some (lru_map c k, c') \<and> lru_wf c' \<and> lru_map c' = lru_map c"
    by (rule lru_find_wf_map [OF wf])
  show "\<exists>ev c' lost. lru_update c k (Some d) = Some (ev, c') \<and> lru_wf c' \<and>
      lru_map c' = (\<lambda>k'. if k' = k then Some d else if lost = Some k' then None else lru_map c k')"
    by (rule lru_update_store [OF wf])
  show "lru_wf (lru_invalidate c k) \<and> lru_map (lru_invalidate c k) = (lru_map c)(k := None)"
    by (rule lru_invalidate_store [OF wf])
  assume "a < b"
  then show "\<exists>c'. lru_invalidate_range c (a, b) = Some c' \<and> lru_wf c' \<and>
      lru_map c' = (\<lambda>k. if a \<le> k \<and> k < b then None else lru_map c k)"
    by (rule lru_invalidate_range_store [OF wf])
qed

lemma lru_modify_store:
  assumes wf: "lru_wf c" and k: "lru_map c k = Some d"
  shows "lru_wf (lru_modify c k f) \<and> lru_map (lru_modify c k f) = (lru_map c)(k := Some (f d))"
proof -
  have hit: "snd (lower_bound_find c k)" using lower_bound_find_exact_iff [OF wf, of k] k by simp
  note h = lower_bound_find_hit [OF wf hit]
  obtain P e Q where s: "lcache c = P @ e # Q" "length P = fst (lower_bound_find c k)"
    using list_split_at [OF h(1)] by metis
  have e: "lcache c ! fst (lower_bound_find c k) = e" using s by (metis nth_append_length)
  define e' where "e' = e\<lparr>ldata := map_option f (ldata e)\<rparr>"
  have m: "lru_modify c k f = c\<lparr>lcache := P @ e' # Q\<rparr>"
    using hit s e unfolding lru_modify_def case_prod_beta' e'_def by (simp add: list_update_append)
  have ie: "lkey e' = lkey e" "lrefs e' = lrefs e" "ldata e' = Some (f d)"
    using h(4) [unfolded e k, symmetric] by (simp_all add: e'_def)
  have ok: "items_ok (cache_len_max c) (P @ e # Q)" using wf s(1) by (simp add: lru_wf_def)
  then have "items_ok (cache_len_max c) (P @ e' # Q)"
    by (auto simp: items_ok_def refs_distinct_append_Cons ie)
  then have wf': "lru_wf (lru_modify c k f)" using wf s(1) by (simp add: lru_wf_def m)
  have ne: "\<forall>v \<in> set (P @ Q). lkey v \<noteq> lkey e" using ok by (auto simp: items_ok_def sorted_wrt_append)
  have v: "is_valid (lru_modify c k f) = is_valid c" "is_valid c e'" "lkey e = k"
    using h(2,3) by (auto simp: fun_eq_iff is_valid_def m ie e)
  have "lru_map (lru_modify c k f) k' = ((lru_map c)(k := Some (f d))) k'" for k'
  proof (rule lru_map_eqI)
    fix x
    show "lru_map (lru_modify c k f) k' = Some x \<longleftrightarrow> ((lru_map c)(k := Some (f d))) k' = Some x"
      using ne v ie unfolding m by (auto simp: lru_map_iff [OF wf' [unfolded m]] lru_map_iff [OF wf] s(1))
  qed
  with wf' show ?thesis by (simp add: fun_eq_iff)
qed

lemma touch_sz: "touch c i = Some c' \<Longrightarrow> cache_item_sz c' = cache_item_sz c"
  by (auto simp: touch_def expects_def Let_def split: if_splits)

lemma replace_at_sz: "replace_at c i k d = Some (ev, c') \<Longrightarrow> cache_item_sz c' = cache_item_sz c"
  by (auto simp: replace_at_def Let_def bind_eq_Some_conv dest!: touch_sz)

lemma lru_find_sz: "lru_find c k = Some (r, c') \<Longrightarrow> cache_item_sz c' = cache_item_sz c"
  by (auto simp: lru_find_def bind_eq_Some_conv split: prod.splits if_splits dest!: touch_sz)

lemma lru_update_sz: "lru_update c k d = Some (ev, c') \<Longrightarrow> cache_item_sz c' = cache_item_sz c"
  by (auto simp: lru_update_def Let_def bind_eq_Some_conv split: prod.splits if_splits dest!: touch_sz replace_at_sz)

lemma touch_len: "touch c i = Some c' \<Longrightarrow> cache_len_max c' = cache_len_max c"
  by (auto simp: touch_def expects_def Let_def split: if_splits)

lemma replace_at_len: "replace_at c i k d = Some (ev, c') \<Longrightarrow> cache_len_max c' = cache_len_max c"
  by (auto simp: replace_at_def Let_def bind_eq_Some_conv dest!: touch_len)

lemma lru_update_len: "lru_update c k d = Some (ev, c') \<Longrightarrow> cache_len_max c' = cache_len_max c"
  by (auto simp: lru_update_def Let_def bind_eq_Some_conv split: prod.splits if_splits dest!: touch_len replace_at_len)

lemma fold_invalidate_sz: "cache_item_sz (foldl invalidate_index c is) = cache_item_sz c"
  by (induction "is" arbitrary: c) (simp_all add: invalidate_index_def)

interpretation lru_chunks: chunk_cache lru_wf lru_map lru_find lru_update lru_invalidate lru_invalidate_range
  cache_item_sz lru_modify
proof
  fix c c' :: "('k::linorder, 'd) flat_lru" and k :: 'k and d and d' :: 'd and ev f r
  show "lru_wf c \<Longrightarrow> lru_map c k = Some d' \<Longrightarrow>
      lru_wf (lru_modify c k f) \<and> lru_map (lru_modify c k f) = (lru_map c)(k := Some (f d'))"
    by (rule lru_modify_store)
  show "lru_find c k = Some (d, c') \<Longrightarrow> cache_item_sz c' = cache_item_sz c" by (rule lru_find_sz)
  show "lru_update c k d = Some (ev, c') \<Longrightarrow> cache_item_sz c' = cache_item_sz c" by (rule lru_update_sz)
  show "cache_item_sz (lru_invalidate c k) = cache_item_sz c"
    by (simp add: lru_invalidate_def invalidate_index_def split: prod.splits)
  show "lru_invalidate_range c r = Some c' \<Longrightarrow> cache_item_sz c' = cache_item_sz c"
    by (auto simp: lru_invalidate_range_def bind_eq_Some_conv fold_invalidate_sz)
  show "cache_item_sz (lru_modify c k f) = cache_item_sz c"
    by (simp add: lru_modify_def split: prod.splits)
qed

text \<open>
  C18. An update of a well-formed cache stores the value under its key and loses at most one other
  key, whatever combination of hit, reuse of an invalidated slot, growth and eviction happens; no
  contract is violated and the vector stays sorted with distinct ages.
\<close>

theorem lru_update_map:
  assumes "lru_wf c"
  shows "\<exists>ev c' lost. lru_update c k (Some d) = Some (ev, c') \<and> lru_wf c' \<and>
    lru_map c' = (\<lambda>k'. if k' = k then Some d else if lost = Some k' then None else lru_map c k')"
  by (rule lru_store.update_law [OF assms])

text \<open>
  C19. Invalidating a range \<open>[a, b)\<close> of a well-formed cache removes exactly the keys of the range
  and keeps every other entry.
\<close>

theorem lru_invalidate_range_map:
  assumes "lru_wf c" and "a < b"
  shows "\<exists>c'. lru_invalidate_range c (a, b) = Some c' \<and> lru_wf c' \<and>
    lru_map c' = (\<lambda>k. if a \<le> k \<and> k < b then None else lru_map c k)"
  by (rule lru_store.invalidate_range_law [OF assms])

subsection \<open>Concrete caches\<close>

definition demo_lru :: "(nat, string) flat_lru" where
  "demo_lru = \<lparr>cache_len_max = 2, cache_item_sz = 1,
     lcache = [\<lparr>lkey = 3, ldata = Some ''c'', lrefs = 1\<rparr>, \<lparr>lkey = 7, ldata = Some ''g'', lrefs = 0\<rparr>]\<rparr>"

lemma demo_lru_wf: "lru_wf demo_lru"
  by (simp add: demo_lru_def lru_wf_def items_ok_def refs_distinct_def)

lemma demo_lru_dense: "lru_dense demo_lru"
  using demo_lru_wf by (auto simp: lru_dense_def demo_lru_def numeral_2_eq_2 less_Suc_eq)

theorem lru_invalidate_range_map_witness:
  "\<exists>c'. lru_invalidate_range demo_lru (4, 9) = Some c' \<and> lru_map c' 7 = None \<and> lru_map c' 3 = Some ''c''"
proof -
  have "lru_map demo_lru 3 = Some ''c''" by (simp add: demo_lru_def lru_map_def is_valid_def)
  then show ?thesis using lru_invalidate_range_map [OF demo_lru_wf, of 4 9] by auto
qed

theorem lru_update_map_witness:
  "\<exists>ev c'. lru_update demo_lru 5 (Some ''e'') = Some (ev, c') \<and> lru_map c' 5 = Some ''e''"
  using lru_update_map [OF demo_lru_wf, of 5 "''e''"] by auto

theorem lru_update_refines_witness:
  "\<exists>c'. lru_update demo_lru 5 (Some ''e'') = Some (Some (3, ''c''), c') \<and>
     recency_list c' = [(5, ''e''), (7, ''g'')]"
proof -
  have "recency_list demo_lru = [(7, ''g''), (3, ''c'')]"
    by (simp add: demo_lru_def recency_list_def item_pair_def)
  moreover have "cache_len_max demo_lru = 2" by (simp add: demo_lru_def)
  ultimately show ?thesis
    using lru_update_refines [OF demo_lru_dense, of 5 "''e''"] by (auto simp: rl_put_def)
qed

theorem lru_find_refines_witness:
  "\<exists>c'. lru_find demo_lru 3 = Some (Some ''c'', c') \<and> recency_list c' = [(3, ''c''), (7, ''g'')]"
proof -
  have "recency_list demo_lru = [(7, ''g''), (3, ''c'')]"
    by (simp add: demo_lru_def recency_list_def item_pair_def)
  then show ?thesis using lru_find_refines [OF demo_lru_dense, of 3] by (auto simp: rl_get_def rl_remove_def)
qed

theorem lru_invalidate_then_update_loses_witness:
  "\<exists>c'. lru_update (lru_invalidate demo_lru 7) 7 (Some ''G'') = Some (None, c') \<and>
     lru_map c' 3 = None \<and> lru_map c' 7 = Some ''G'' \<and> lru_map demo_lru 3 = Some ''c''"
proof -
  have "recency_list demo_lru = [(7, ''g''), (3, ''c'')]"
    by (simp add: demo_lru_def recency_list_def item_pair_def)
  moreover have "lru_map demo_lru 7 \<noteq> None" "lru_map demo_lru 3 = Some ''c''"
    by (simp_all add: demo_lru_def lru_map_def is_valid_def)
  moreover have "length (lcache demo_lru) = cache_len_max demo_lru" by (simp add: demo_lru_def)
  ultimately show ?thesis
    using lru_invalidate_then_update_loses [OF demo_lru_dense, of 7 3 "''G''"] by auto
qed

end
