(* ===== verification/Cache_Handlers.thy ===== *)
theory Cache_Handlers
  imports Flat_Lru Block_Dev Bitset_Locker
begin

text \<open>
  \<open>ublk/cache/\<close>: a cached handler in front of another one.  \<open>RWIHandler\<close> serves reads from the cache
  and invalidates on writes; \<open>RWTHandler\<close> inherits its reads and writes through; \<open>RWHandler\<close> chooses
  the size of the items and one of the two.

  A chunk taken from the chunk pool has arbitrary content (it is recycled memory); the content of
  the chunk handed out for an item is the parameter \<open>pool\<close>.  A query completes before \<open>submit\<close>
  returns, also when \<open>submit\<close> refuses it: its completer then runs with error 0.  The sequence
  number is a \<open>uint64_t\<close>.
\<close>

subsection \<open>State\<close>

type_synonym chunk_cache = "(nat, byte list) flat_lru"

record 'c cached =
  ca_cache :: chunk_cache
  ca_dev :: 'c
  ca_seq :: "64 word"
  ca_lock :: locker

abbreviation ca_sz :: "'c cached \<Rightarrow> nat" where
  "ca_sz st \<equiv> cache_item_sz (ca_cache st)"

subsection \<open>Reads\<close>

text \<open>
  The completer of the read of a missing item: \<open>seq\<close> is the sequence number captured when the read
  was issued; \<open>co\<close>, \<open>sz\<close> and \<open>rb\<close> place the part of the item the request needs.
\<close>

definition rd_miss_done ::
    "64 word \<Rightarrow> nat \<Rightarrow> nat \<Rightarrow> nat \<Rightarrow> nat \<Rightarrow> int \<Rightarrow> byte list \<Rightarrow> int \<times> byte list \<times> 'c cached
      \<Rightarrow> (int \<times> byte list \<times> 'c cached) option" where
  "rd_miss_done seq chunk_id co sz rb e data = (\<lambda>(err, buf, st).
     if e \<noteq> 0 then Some (e, buf, st)
     else do {
       part \<leftarrow> copy_stl co (subspan data co sz) rb (subspan buf rb sz);
       let buf' = copy_at buf rb part;
       if seq = ca_seq st then do {
         (ev, cache) \<leftarrow> lru_update (ca_cache st) chunk_id (Some data);
         Some (err, buf', st\<lparr>ca_cache := cache\<rparr>) }
       else Some (err, buf', st) })"

definition rd_chunk ::
    "'c rw_handler \<Rightarrow> (nat \<Rightarrow> byte list) \<Rightarrow> nat \<Rightarrow> nat \<Rightarrow> nat \<Rightarrow> nat \<Rightarrow> int \<times> byte list \<times> 'c cached
      \<Rightarrow> (int \<times> int \<times> byte list \<times> 'c cached) option" where
  "rd_chunk ops pool chunk_id co sz rb = (\<lambda>(err, buf, st). do {
     (hit, cache) \<leftarrow> lru_find (ca_cache st) chunk_id;
     let st = st\<lparr>ca_cache := cache\<rparr>;
     case hit of
       Some data \<Rightarrow> do {
         part \<leftarrow> copy_stl co (subspan data co sz) rb (subspan buf rb sz);
         Some (0, err, copy_at buf rb part, st) }
     | None \<Rightarrow> do {
         (res, e, data, d) \<leftarrow> submit_rd ops (chunk_id * ca_sz st) (pool chunk_id) (ca_dev st);
         (err, buf, st) \<leftarrow> rd_miss_done (ca_seq st) chunk_id co sz rb e data (err, buf, st\<lparr>ca_dev := d\<rparr>);
         Some (res, err, buf, st) } })"

text \<open>A chunk is never empty because \<open>item_sz > 0\<close> (\<open>Ensures\<close> of the cache); the guard states it.\<close>

function rwi_read_loop ::
    "'c rw_handler \<Rightarrow> (nat \<Rightarrow> byte list) \<Rightarrow> nat \<Rightarrow> nat \<Rightarrow> nat \<Rightarrow> int \<times> byte list \<times> 'c cached
      \<Rightarrow> (int \<times> int \<times> byte list \<times> 'c cached) option" where
  "rwi_read_loop ops pool off chunk_id rb (err, buf, st) =
     (let co = (off + rb) mod ca_sz st; sz = min (ca_sz st - co) (length buf - rb) in
      if \<not> rb < length buf then Some (0, err, buf, st)
      else do {
        expects (sz \<noteq> 0);
        (res, err', buf', st') \<leftarrow> rd_chunk ops pool chunk_id co sz rb (err, buf, st);
        expects (length buf' = length buf);
        if res \<noteq> 0 then Some (res, err', buf', st')
        else rwi_read_loop ops pool off (Suc chunk_id) (rb + sz) (err', buf', st') })"
  by pat_completeness auto

termination
  by (relation "measure (\<lambda>(ops, pool, off, chunk_id, rb, err, buf, st). length buf - rb)")
    (auto simp: expects_def split: if_splits)

declare rwi_read_loop.simps [simp del]

definition rwi_read :: "'c rw_handler \<Rightarrow> (nat \<Rightarrow> byte list) \<Rightarrow> 'c cached read_fn" where
  "rwi_read ops pool off buf st = do {
     expects (buf \<noteq> []);
     rwi_read_loop ops pool off (off div ca_sz st) 0 (0, buf, st) }"

subsection \<open>Invalidating writes\<close>

definition rwi_write :: "'c rw_handler \<Rightarrow> 'c cached write_fn" where
  "rwi_write ops off buf st = do {
     expects (buf \<noteq> []);
     let first = off div ca_sz st;
     let last = strips_round_up (off + length buf) (ca_sz st);
     new \<leftarrow> subquery buf 0 (length buf);
     (res, e, d) \<leftarrow> submit_wr ops off new (ca_dev st);
     cache \<leftarrow> lru_invalidate_range (ca_cache st) (first, last);
     Some (res, merge_err 0 e, st\<lparr>ca_cache := cache, ca_dev := d, ca_seq := ca_seq st + 1\<rparr>) }"

subsection \<open>Writing through\<close>

text \<open>
  The completer of the read of the item a partial write needs.  The result of submitting the write
  is dropped; what is returned is the error the write carries.
\<close>

definition rmw_done ::
    "'c rw_handler \<Rightarrow> nat \<Rightarrow> nat \<Rightarrow> nat \<Rightarrow> byte list \<Rightarrow> int \<Rightarrow> byte list \<Rightarrow> 'c cached \<Rightarrow> (int \<times> 'c cached) option" where
  "rmw_done ops off chunk_id co chunk e data st =
     (if e \<noteq> 0 then Some (e, st)
      else do {
        part \<leftarrow> copy_stl 0 chunk co (subspan data co (length chunk));
        (ev, cache) \<leftarrow> lru_update (ca_cache st) chunk_id (Some (copy_at data co part));
        (res, e', d) \<leftarrow> submit_wr ops off chunk (ca_dev st);
        Some (e', st\<lparr>ca_cache := cache, ca_dev := d, ca_seq := ca_seq st + 1\<rparr>) })"

definition rwt_process ::
    "'c rw_handler \<Rightarrow> (nat \<Rightarrow> byte list) \<Rightarrow> 'c cached write_fn" where
  "rwt_process ops pool off chunk st = do {
     expects (chunk \<noteq> []);
     let chunk_id = off div ca_sz st;
     let co = off mod ca_sz st;
     if \<not> length chunk < ca_sz st then do {
       expects (length chunk = ca_sz st);
       expects (co = 0);
       data \<leftarrow> copy_stl 0 chunk 0 (pool chunk_id);
       (ev, cache) \<leftarrow> lru_update (ca_cache st) chunk_id (Some data);
       (res, e, d) \<leftarrow> submit_wr ops off chunk (ca_dev st);
       Some (res, e, st\<lparr>ca_cache := cache, ca_dev := d, ca_seq := ca_seq st + 1\<rparr>) }
     else do {
       (hit, cache) \<leftarrow> lru_find (ca_cache st) chunk_id;
       let st = st\<lparr>ca_cache := cache\<rparr>;
       case hit of
         Some data \<Rightarrow> do {
           expects (\<not> co + length chunk > length data);
           part \<leftarrow> copy_stl 0 chunk co (subspan data co (length chunk));
           (res, e, d) \<leftarrow> submit_wr ops off chunk (ca_dev st);
           Some (res, e, st\<lparr>ca_cache := lru_modify cache chunk_id (\<lambda>x. copy_at x co part), ca_dev := d\<rparr>) }
       | None \<Rightarrow> do {
           (res, e, data, d) \<leftarrow> submit_rd ops (chunk_id * ca_sz st) (pool chunk_id) (ca_dev st);
           (err, st) \<leftarrow> rmw_done ops off chunk_id co chunk e data (st\<lparr>ca_dev := d\<rparr>);
           Some (res, err, st) } } }"

text \<open>The completer of a chunk of the write, when no other write of the chunk waits.\<close>

definition rwt_chunk_done :: "nat \<Rightarrow> int \<Rightarrow> 'c cached \<Rightarrow> 'c cached option" where
  "rwt_chunk_done chunk_id e st = do {
     lk \<leftarrow> lk_unlock (ca_lock st) chunk_id;
     let st = st\<lparr>ca_lock := lk\<rparr>;
     Some (if e \<noteq> 0 then st\<lparr>ca_cache := lru_invalidate (ca_cache st) chunk_id\<rparr> else st) }"

function rwt_write_loop ::
    "'c rw_handler \<Rightarrow> (nat \<Rightarrow> byte list) \<Rightarrow> nat \<Rightarrow> byte list \<Rightarrow> nat \<Rightarrow> nat \<Rightarrow> nat \<Rightarrow> int \<Rightarrow> 'c cached
      \<Rightarrow> (int \<times> int \<times> 'c cached) option" where
  "rwt_write_loop ops pool off buf chunk_id co wb err st =
     (if \<not> wb < length buf then Some (0, err, st)
      else let sz = min (ca_sz st - co) (length buf - wb) in do {
        chunk \<leftarrow> subquery buf wb sz;
        (free, lk) \<leftarrow> lk_try_lock (ca_lock st) chunk_id;
        expects free;
        (res, e, st) \<leftarrow> rwt_process ops pool (off + wb) chunk (st\<lparr>ca_lock := lk\<rparr>);
        st \<leftarrow> rwt_chunk_done chunk_id e st;
        if res \<noteq> 0 then Some (res, merge_err err e, st)
        else rwt_write_loop ops pool off buf (Suc chunk_id) 0 (wb + sz) (merge_err err e) st })"
  by pat_completeness auto

termination
  by (relation "measure (\<lambda>(ops, pool, off, buf, chunk_id, co, wb, err, st). length buf - wb)")
    (auto simp: subquery_eq split: if_splits)

declare rwt_write_loop.simps [simp del]

definition rwt_write :: "'c rw_handler \<Rightarrow> (nat \<Rightarrow> byte list) \<Rightarrow> 'c cached write_fn" where
  "rwt_write ops pool off buf st = do {
     expects (buf \<noteq> []);
     let st = st\<lparr>ca_lock := lk_extend (ca_lock st) (strips_round_up (off + length buf) (ca_sz st))\<rparr>;
     rwt_write_loop ops pool off buf (off div ca_sz st) (off mod ca_sz st) 0 0 st }"

subsection \<open>Coherence with the device\<close>

definition dev_chunk :: "byte list \<Rightarrow> nat \<Rightarrow> nat \<Rightarrow> byte list" where
  "dev_chunk bs sz k = subspan bs (k * sz) sz"

definition cached_good :: "('c \<Rightarrow> bool) \<Rightarrow> ('c \<Rightarrow> byte list) \<Rightarrow> (nat \<Rightarrow> byte list) \<Rightarrow> 'c cached \<Rightarrow> bool" where
  "cached_good good content pool st \<longleftrightarrow> good (ca_dev st) \<and> 0 < ca_sz st
     \<and> ca_sz st dvd length (content (ca_dev st))
     \<and> lru_store.coherent (ca_cache st) (dev_chunk (content (ca_dev st)) (ca_sz st))
     \<and> (\<forall>k. length (pool k) = ca_sz st)"

definition cached_idle :: "('c \<Rightarrow> bool) \<Rightarrow> ('c \<Rightarrow> byte list) \<Rightarrow> (nat \<Rightarrow> byte list) \<Rightarrow> 'c cached \<Rightarrow> bool" where
  "cached_idle good content pool st \<longleftrightarrow> cached_good good content pool st \<and> (\<forall>p. \<not> held (ca_lock st) p)"

lemma chunk_inside:
  fixes sz :: nat
  assumes "sz dvd L" "k * sz < L"
  shows "k * sz + sz \<le> L"
proof -
  obtain m where m: "L = sz * m" using assms(1) by blast
  then have "k < m" using assms(2) by (simp add: mult.commute)
  then have "Suc k * sz \<le> m * sz" by (intro mult_le_mono1) simp
  then show ?thesis using m by (simp add: mult.commute add.commute)
qed

lemma length_dev_chunk: "k * sz + sz \<le> length bs \<Longrightarrow> length (dev_chunk bs sz k) = sz"
  by (simp add: dev_chunk_def)

lemma subspan_dev_chunk: "co + n \<le> sz \<Longrightarrow> subspan (dev_chunk bs sz k) co n = subspan bs (k * sz + co) n"
  by (simp add: dev_chunk_def subspan_subspan)

lemma dev_chunk_outside:
  assumes "off + length buf \<le> length bs" "k * sz + sz \<le> off \<or> off + length buf \<le> k * sz"
  shows "dev_chunk (copy_at bs off buf) sz k = dev_chunk bs sz k"
  using assms by (auto simp: dev_chunk_def subspan_copy_at_before subspan_copy_at_after)

text \<open>Where the loops cut a request.\<close>

lemma next_piece:
  fixes sz :: nat
  assumes "0 < sz" "n = min (sz - x mod sz) rest" "n < rest"
  shows "(x + n) div sz = Suc (x div sz)" "(x + n) mod sz = 0"
proof -
  have "n = sz - x mod sz" using assms(2,3) by (simp add: min_def split: if_splits)
  moreover have "x mod sz < sz" using assms(1) by simp
  moreover have "x = x div sz * sz + x mod sz" by simp
  ultimately have "x + n = x div sz * sz + sz" by linarith
  then have "x + n = (x div sz + 1) * sz" by simp
  then show "(x + n) div sz = Suc (x div sz)" "(x + n) mod sz = 0" using assms(1) by simp_all
qed

lemma dev_chunk_write:
  assumes "co + length chunk \<le> sz" "k * sz + sz \<le> length bs" "chunk \<noteq> []"
  shows "dev_chunk (copy_at bs (k * sz + co) chunk) sz = (dev_chunk bs sz)(k := copy_at (dev_chunk bs sz k) co chunk)"
proof
  fix j
  have "j * sz + sz \<le> k * sz" if "j < k" using mult_le_mono1 [of "Suc j" k sz] that by simp
  moreover have "k * sz + sz \<le> j * sz" if "k < j" using mult_le_mono1 [of "Suc k" j sz] that by simp
  ultimately have "j * sz + sz \<le> k * sz + co \<or> k * sz + co + length chunk \<le> j * sz" if "j \<noteq> k"
    using assms(1) that by (cases "j < k") auto
  then have "dev_chunk (copy_at bs (k * sz + co) chunk) sz j = dev_chunk bs sz j" if "j \<noteq> k"
    using assms(1,2) that by (intro dev_chunk_outside) auto
  moreover have "dev_chunk (copy_at bs (k * sz + co) chunk) sz k = copy_at (dev_chunk bs sz k) co chunk"
    using assms(1,2) by (simp add: dev_chunk_def subspan_copy_at_inside)
  ultimately show "dev_chunk (copy_at bs (k * sz + co) chunk) sz j =
      ((dev_chunk bs sz)(k := copy_at (dev_chunk bs sz k) co chunk)) j" by simp
qed

context aligned_dev
begin

lemma rd_chunk_ok:
  assumes st: "cached_good good content pool st" and k: "k * ca_sz st < length (content (ca_dev st))"
    and n: "n \<noteq> 0" "co + n \<le> ca_sz st" "rb + n \<le> length buf" and al: "al dvd ca_sz st"
  shows "\<exists>st'. rd_chunk ops pool k co n rb (err, buf, st) =
      Some (0, err, copy_at buf rb (subspan (content (ca_dev st)) (k * ca_sz st + co) n), st')
    \<and> cached_good good content pool st' \<and> content (ca_dev st') = content (ca_dev st) \<and> ca_sz st' = ca_sz st
    \<and> ca_lock st' = ca_lock st"
proof -
  let ?bs = "content (ca_dev st)" and ?sz = "ca_sz st"
  have c: "lru_store.coherent (ca_cache st) (dev_chunk ?bs ?sz)" and g: "good (ca_dev st)"
    using st by (simp_all add: cached_good_def)
  have ks: "k * ?sz + ?sz \<le> length ?bs" using chunk_inside [OF _ k] st by (simp add: cached_good_def)
  have part: "subspan (dev_chunk ?bs ?sz k) co n = subspan ?bs (k * ?sz + co) n"
    by (rule subspan_dev_chunk [OF n(2)])
  have lp: "length (subspan ?bs (k * ?sz + co) n) = n" using n ks by simp
  have cp: "copy_stl co (subspan ?bs (k * ?sz + co) n) rb (subspan buf rb n) = Some (subspan ?bs (k * ?sz + co) n)"
    using lp n(3) by (simp add: copy_stl_eq)
  from c show ?thesis
  proof (cases rule: lru_store.coherent_find [where k = k])
    case (hit cache)
    then have "cached_good good content pool (st\<lparr>ca_cache := cache\<rparr>)" "cache_item_sz cache = ?sz"
      using st lru_find_sz [OF hit(1)] by (simp_all add: cached_good_def)
    then show ?thesis using hit(1) part cp
      by (intro exI [of _ "st\<lparr>ca_cache := cache\<rparr>"]) (simp add: rd_chunk_def Let_def)
  next
    case (miss cache)
    have sz: "cache_item_sz cache = ?sz" by (rule lru_find_sz [OF miss(1)])
    have pool: "length (pool k) = ?sz" "pool k \<noteq> []" using st by (auto simp: cached_good_def dest: spec [of _ k])
    obtain d where d: "submit_rd ops (k * ?sz) (pool k) (ca_dev st) = Some (0, 0, dev_chunk ?bs ?sz k, d)"
      "good d" "content d = ?bs"
      using aligned_read_law [OF g pool(2), of "k * ?sz"] pool(1) ks al by (auto simp: dev_chunk_def)
    obtain ev cache' where u: "lru_update cache k (Some (dev_chunk ?bs ?sz k)) = Some (ev, cache')"
      "lru_store.coherent cache' ((dev_chunk ?bs ?sz)(k := dev_chunk ?bs ?sz k))"
      using lru_store.coherent_update [OF miss(2)] by blast
    let ?st = "st\<lparr>ca_cache := cache', ca_dev := d\<rparr>"
    have "cached_good good content pool ?st" "cache_item_sz cache' = ?sz"
      using st d(2,3) u(2) lru_update_sz [OF u(1)] sz by (simp_all add: cached_good_def)
    then show ?thesis using miss(1) d u(1) part cp sz
      by (intro exI [of _ ?st]) (simp add: rd_chunk_def rd_miss_done_def Let_def)
  qed
qed

lemma rwi_read_loop_ok:
  assumes "cached_good good content pool st" "off + length buf \<le> length (content (ca_dev st))"
    and "rb < length buf \<Longrightarrow> chunk_id = (off + rb) div ca_sz st" "rb \<le> length buf" "al dvd ca_sz st"
  shows "\<exists>st'. rwi_read_loop ops pool off chunk_id rb (err, buf, st) =
      Some (0, err, copy_at buf rb (subspan (content (ca_dev st)) (off + rb) (length buf - rb)), st')
    \<and> cached_good good content pool st' \<and> content (ca_dev st') = content (ca_dev st) \<and> ca_sz st' = ca_sz st
    \<and> ca_lock st' = ca_lock st"
  using assms
proof (induction "length buf - rb" arbitrary: rb chunk_id buf st err rule: less_induct)
  case less
  show ?case
  proof (cases "rb < length buf")
    case False
    then show ?thesis using less.prems by (subst rwi_read_loop.simps) simp
  next
    case True
    let ?bs = "content (ca_dev st)"
    define sz where "sz = ca_sz st"
    define co where "co = (off + rb) mod sz"
    define n where "n = min (sz - co) (length buf - rb)"
    have sz: "0 < sz" using less.prems(1) by (simp add: cached_good_def sz_def)
    have co: "co < sz" "chunk_id * sz + co = off + rb"
      using sz less.prems(3) [OF True] by (simp_all add: co_def sz_def)
    have n: "n \<noteq> 0" "co + n \<le> sz" "rb + n \<le> length buf" using co True by (auto simp: n_def min_def)
    have k: "chunk_id * sz < length ?bs" using co less.prems(2) True by linarith
    define got where "got = subspan ?bs (off + rb) n"
    have lg: "length got = n" using less.prems(2) n(3) by (simp add: got_def)
    obtain st1 where st1: "rd_chunk ops pool chunk_id co n rb (err, buf, st) = Some (0, err, copy_at buf rb got, st1)"
      "cached_good good content pool st1" "content (ca_dev st1) = ?bs" "ca_sz st1 = sz" "ca_lock st1 = ca_lock st"
      using rd_chunk_ok [OF less.prems(1) k [unfolded sz_def] n(1) n(2)[unfolded sz_def] n(3) less.prems(5), of err] co(2)
      by (auto simp: sz_def got_def)
    let ?buf = "copy_at buf rb got"
    have lb: "length ?buf = length buf" using lg n(3) by simp
    have nxt: "Suc chunk_id = (off + (rb + n)) div ca_sz st1" if "rb + n < length ?buf"
      using next_piece(1) [OF sz, of n "off + rb" "length buf - rb"] that lb less.prems(3) [OF True] st1(4)
      by (simp add: n_def co_def sz_def add.assoc)
    have dec: "length ?buf - (rb + n) < length buf - rb" using True n(1) lb by simp
    obtain st2 where st2: "rwi_read_loop ops pool off (Suc chunk_id) (rb + n) (err, ?buf, st1) =
        Some (0, err, copy_at ?buf (rb + n) (subspan ?bs (off + (rb + n)) (length buf - (rb + n))), st2)"
      "cached_good good content pool st2" "content (ca_dev st2) = ?bs" "ca_sz st2 = sz" "ca_lock st2 = ca_lock st1"
      using less.hyps [OF dec st1(2), of "Suc chunk_id" err] st1(3,4) lb n(3) less.prems(2,5) nxt
      by (auto simp: sz_def)
    let ?rest = "subspan ?bs (off + (rb + n)) (length buf - (rb + n))"
    have "copy_at ?buf (rb + n) ?rest = copy_at buf rb (got @ ?rest)"
      using less.prems(2) n(3) lg by (intro copy_at_append_next) auto
    also have "got @ ?rest = subspan ?bs (off + rb) (length buf - rb)"
    proof -
      have "length buf - rb = n + (length buf - (rb + n))" using n(3) by simp
      then show ?thesis unfolding got_def by (metis subspan_append add.assoc)
    qed
    finally show ?thesis using st1(1,5) st2 True n(1) lb co(1)
      by (subst rwi_read_loop.simps)
        (simp add: Let_def sz_def [symmetric] co_def [symmetric] n_def [symmetric])
  qed
qed

lemma rwi_read_ok:
  assumes "cached_good good content pool st" "buf \<noteq> []" "off + length buf \<le> length (content (ca_dev st))"
    and "al dvd ca_sz st"
  shows "\<exists>st'. rwi_read ops pool off buf st = Some (0, 0, subspan (content (ca_dev st)) off (length buf), st')
    \<and> cached_good good content pool st' \<and> content (ca_dev st') = content (ca_dev st) \<and> ca_lock st' = ca_lock st"
  using rwi_read_loop_ok [OF assms(1,3), of 0 "off div ca_sz st" 0] assms(2-4) by (auto simp: rwi_read_def)

lemma rwi_write_ok:
  assumes st: "cached_good good content pool st" and buf: "buf \<noteq> []" "off + length buf \<le> length (content (ca_dev st))"
    and al: "al dvd off" "al dvd length buf"
  shows "\<exists>st'. rwi_write ops off buf st = Some (0, 0, st') \<and> cached_good good content pool st'
    \<and> content (ca_dev st') = copy_at (content (ca_dev st)) off buf \<and> ca_lock st' = ca_lock st"
proof -
  define sz where "sz = ca_sz st"
  define last where "last = strips_round_up (off + length buf) sz"
  have sz: "0 < sz" and g: "good (ca_dev st)"
    and c: "lru_store.coherent (ca_cache st) (dev_chunk (content (ca_dev st)) sz)"
    using st by (simp_all add: cached_good_def sz_def)
  obtain d where d: "submit_wr ops off buf (ca_dev st) = Some (0, 0, d)" "good d"
    "content d = copy_at (content (ca_dev st)) off buf"
    using aligned_write_law [OF g buf al] by blast
  have r: "off + length buf \<le> last * sz" using strips_round_up_bounds(1) [OF sz] by (simp add: last_def)
  have "off < last * sz" using r buf(1) by (cases buf) auto
  then have fl: "off div sz < last" using sz by (simp add: div_less_iff_less_mult)
  have "dev_chunk (content d) sz k = dev_chunk (content (ca_dev st)) sz k" if "\<not> (off div sz \<le> k \<and> k < last)" for k
  proof -
    have "k * sz + sz \<le> off" if "k < off div sz"
    proof -
      have "Suc k * sz \<le> off div sz * sz" using that by (intro mult_le_mono1) simp
      also have "\<dots> \<le> off" by simp
      finally show ?thesis by simp
    qed
    moreover have "off + length buf \<le> k * sz" if "last \<le> k"
      using mult_le_mono1 [OF that, of sz] r by linarith
    ultimately show ?thesis using that buf(2) by (auto simp: d(3) intro!: dev_chunk_outside)
  qed
  from lru_store.coherent_invalidate_range [OF c fl this] obtain cache where
    cache: "lru_invalidate_range (ca_cache st) (off div sz, last) = Some cache"
      "lru_store.coherent cache (dev_chunk (content d) sz)" by blast
  have "cache_item_sz cache = sz" using lru_chunks.invalidate_range_sz [OF cache(1)] by (simp add: sz_def)
  then have "cached_good good content pool (st\<lparr>ca_cache := cache, ca_dev := d, ca_seq := ca_seq st + 1\<rparr>)"
    using st d(2,3) cache(2) buf(2) by (simp add: cached_good_def sz_def)
  then show ?thesis using buf(1) d cache(1)
    by (intro exI [of _ "st\<lparr>ca_cache := cache, ca_dev := d, ca_seq := ca_seq st + 1\<rparr>"])
      (simp add: rwi_write_def Let_def subquery_eq sz_def last_def)
qed

lemma rwt_process_ok:
  assumes st: "cached_good good content pool st"
    and buf: "chunk \<noteq> []" "off mod ca_sz st + length chunk \<le> ca_sz st" "off < length (content (ca_dev st))"
    and al: "al dvd ca_sz st" "al dvd off" "al dvd length chunk"
  shows "\<exists>st'. rwt_process ops pool off chunk st = Some (0, 0, st') \<and> cached_good good content pool st'
    \<and> content (ca_dev st') = copy_at (content (ca_dev st)) off chunk \<and> ca_sz st' = ca_sz st \<and> ca_lock st' = ca_lock st"
proof -
  define sz where "sz = ca_sz st"
  define k where "k = off div sz"
  define co where "co = off mod sz"
  define bs where "bs = content (ca_dev st)"
  have off: "off = k * sz + co" by (simp add: k_def co_def)
  have sz: "0 < sz" and g: "good (ca_dev st)" and c: "lru_store.coherent (ca_cache st) (dev_chunk bs sz)"
    and dv: "sz dvd length bs" and pool: "length (pool k) = sz"
    using st by (simp_all add: cached_good_def sz_def bs_def)
  have cl: "co + length chunk \<le> sz" using buf(2) by (simp add: co_def sz_def)
  have ks: "k * sz + sz \<le> length bs" using chunk_inside [OF dv, of k] buf(3) off by (simp add: bs_def)
  have lb: "off + length chunk \<le> length bs" using off cl ks by linarith
  note after = dev_chunk_write [OF cl ks buf(1), folded off]
  have ld: "length (dev_chunk bs sz k) = sz" by (rule length_dev_chunk [OF ks])
  have good': "cached_good good content pool (st\<lparr>ca_cache := cache, ca_dev := d, ca_seq := q\<rparr>)"
    if "lru_store.coherent cache (dev_chunk (copy_at bs off chunk) sz)" "cache_item_sz cache = sz"
      "good d" "content d = copy_at bs off chunk" for cache d q
    using that st lb by (simp add: cached_good_def sz_def bs_def)
  obtain d where d: "submit_wr ops off chunk (ca_dev st) = Some (0, 0, d)" "good d" "content d = copy_at bs off chunk"
    using aligned_write_law [OF g buf(1) _ al(2,3)] lb by (auto simp: bs_def)
  show ?thesis
  proof (cases "length chunk < sz")
    case False
    then have full: "length chunk = sz" "co = 0" using cl by linarith+
    then have "copy_stl 0 chunk 0 (pool k) = Some chunk" using pool by (simp add: copy_stl_eq)
    moreover obtain ev cache where u: "lru_update (ca_cache st) k (Some chunk) = Some (ev, cache)"
      "lru_store.coherent cache ((dev_chunk bs sz)(k := chunk))"
      using lru_store.coherent_update [OF c] by blast
    moreover have "copy_at (dev_chunk bs sz k) co chunk = chunk" using full ld by simp
    ultimately show ?thesis
      using False full buf(1) d good' [of cache d] after lru_update_sz [OF u(1)]
      by (intro exI [of _ "st\<lparr>ca_cache := cache, ca_dev := d, ca_seq := ca_seq st + 1\<rparr>"])
        (simp add: rwt_process_def sz_def [symmetric] k_def [symmetric] co_def [symmetric] Let_def bs_def [symmetric])
  next
    case part: True
    from c show ?thesis
    proof (cases rule: lru_store.coherent_find [where k = k])
      case (hit cache)
      have csz: "cache_item_sz cache = sz" using lru_find_sz [OF hit(1)] by (simp add: sz_def)
      have "lru_map (ca_cache st) k = Some (dev_chunk bs sz k)"
        using lru_store.find_law [OF lru_store.coherent_wf [OF c], of k] hit(1) by simp
      then have m: "lru_map cache k = Some (dev_chunk bs sz k)" using hit(3) by simp
      let ?cache = "lru_modify cache k (\<lambda>x. copy_at x co chunk)"
      have "lru_store.coherent ?cache (dev_chunk (copy_at bs off chunk) sz)"
        using lru_chunks.coherent_modify [OF hit(2) m] unfolding after .
      then have "cached_good good content pool (st\<lparr>ca_cache := ?cache, ca_dev := d, ca_seq := ca_seq st\<rparr>)"
        using good' [of ?cache d "ca_seq st"] d(2,3) csz by (simp add: lru_chunks.modify_sz)
      moreover have "copy_stl 0 chunk co (subspan (dev_chunk bs sz k) co (length chunk)) = Some chunk"
        using ld cl by (simp add: copy_stl_eq)
      ultimately show ?thesis
        using part hit(1) buf(1) d cl ld csz
        by (intro exI [of _ "st\<lparr>ca_cache := ?cache, ca_dev := d\<rparr>"])
          (simp add: lru_chunks.modify_sz rwt_process_def sz_def [symmetric] k_def [symmetric] co_def [symmetric] Let_def bs_def [symmetric])
    next
      case (miss cache)
      have csz: "cache_item_sz cache = sz" using lru_find_sz [OF miss(1)] by (simp add: sz_def)
      have pne: "pool k \<noteq> []" using pool sz by auto
      obtain d0 where d0: "submit_rd ops (k * sz) (pool k) (ca_dev st) = Some (0, 0, dev_chunk bs sz k, d0)" "good d0" "content d0 = bs"
        using aligned_read_law [OF g pne, of "k * sz"] pool ks al(1) by (auto simp: dev_chunk_def bs_def sz_def)
      obtain d1 where d1: "submit_wr ops off chunk d0 = Some (0, 0, d1)" "good d1" "content d1 = copy_at bs off chunk"
        using aligned_write_law [OF d0(2) buf(1) _ al(2,3)] lb by (auto simp: d0(3))
      let ?new = "copy_at (dev_chunk bs sz k) co chunk"
      obtain ev cache' where u: "lru_update cache k (Some ?new) = Some (ev, cache')"
        "lru_store.coherent cache' ((dev_chunk bs sz)(k := ?new))"
        using lru_store.coherent_update [OF miss(2)] by blast
      have "copy_stl 0 chunk co (subspan (dev_chunk bs sz k) co (length chunk)) = Some chunk"
        using ld cl by (simp add: copy_stl_eq)
      then show ?thesis
        using part miss(1) buf(1) d0(1) d1 u good' [of cache' d1] after csz lru_update_sz [OF u(1)]
        by (intro exI [of _ "st\<lparr>ca_cache := cache', ca_dev := d1, ca_seq := ca_seq st + 1\<rparr>"])
          (simp add: rwt_process_def rmw_done_def sz_def [symmetric] k_def [symmetric] co_def [symmetric] Let_def bs_def [symmetric])
    qed
  qed
qed

lemma rwt_write_loop_ok:
  assumes "cached_idle good content pool st" "off + length buf \<le> length (content (ca_dev st))"
    and "wb \<le> length buf" "wb < length buf \<Longrightarrow> k = (off + wb) div ca_sz st \<and> co = (off + wb) mod ca_sz st"
    and "off + length buf \<le> length (ca_lock st) * ca_sz st"
    and "al dvd ca_sz st" "al dvd off" "al dvd length buf" "al dvd wb"
  shows "\<exists>st'. rwt_write_loop ops pool off buf k co wb err st = Some (0, err, st')
    \<and> cached_idle good content pool st'
    \<and> content (ca_dev st') = copy_at (content (ca_dev st)) (off + wb) (subspan buf wb (length buf - wb))"
  using assms
proof (induction "length buf - wb" arbitrary: wb k co st err rule: less_induct)
  case less
  show ?case
  proof (cases "wb < length buf")
    case False
    then show ?thesis using less.prems by (subst rwt_write_loop.simps) simp
  next
    case True
    define bs where "bs = content (ca_dev st)"
    define sz where "sz = ca_sz st"
    define n where "n = min (sz - co) (length buf - wb)"
    define chunk where "chunk = subspan buf wb n"
    have sz: "0 < sz" using less.prems(1) by (simp add: cached_idle_def cached_good_def sz_def)
    have kc: "k = (off + wb) div sz" "co = (off + wb) mod sz" using less.prems(4) [OF True] by (simp_all add: sz_def)
    then have co: "co < sz" using sz by simp
    have n: "n \<noteq> 0" "co + n \<le> sz" "wb + n \<le> length buf" using co True by (auto simp: n_def min_def)
    have lc1: "length chunk = n" using n(3) by (simp add: chunk_def)
    then have lc: "length chunk = n" "chunk \<noteq> []" using n(1) by auto
    have "k * sz \<le> off + wb" by (simp add: kc(1))
    also have "\<dots> < length (ca_lock st) * sz" using less.prems(5) True by (simp add: sz_def)
    finally have k: "k < length (ca_lock st)" by simp
    have al: "al dvd n"
      using less.prems(6-9) by (auto simp: n_def min_def kc(2) sz_def intro!: dvd_diff_nat dvd_mod)
    have free: "\<not> held (ca_lock st) p" for p using less.prems(1) by (simp add: cached_idle_def)
    let ?lk = "(ca_lock st)[k := True]"
    have "cached_good good content pool (st\<lparr>ca_lock := ?lk\<rparr>)"
      using less.prems(1) by (simp add: cached_idle_def cached_good_def)
    from rwt_process_ok [OF this lc(2), of "off + wb"] obtain st1 where
      st1: "rwt_process ops pool (off + wb) chunk (st\<lparr>ca_lock := ?lk\<rparr>) = Some (0, 0, st1)"
        "cached_good good content pool st1" "content (ca_dev st1) = copy_at bs (off + wb) chunk"
        "ca_sz st1 = sz" "ca_lock st1 = ?lk"
      using n(2) lc(1) True less.prems(2,6-9) al by (auto simp: kc(2) bs_def sz_def)
    let ?st2 = "st1\<lparr>ca_lock := ca_lock st\<rparr>"
    have u: "lk_unlock ?lk k = Some (ca_lock st)" by (rule lock_unlock [OF k free])
    have idle: "cached_idle good content pool ?st2" using st1(2) free by (simp add: cached_idle_def cached_good_def)
    have lb: "off + wb + length chunk \<le> length bs" using n(3) lc(1) less.prems(2) by (simp add: bs_def)
    have dec: "length buf - (wb + n) < length buf - wb" using True n(1) by simp
    have nxt: "Suc k = (off + (wb + n)) div ca_sz ?st2 \<and> 0 = (off + (wb + n)) mod ca_sz ?st2" if "wb + n < length buf"
      using next_piece [OF sz, of n "off + wb" "length buf - wb"] that by (simp add: n_def kc st1(4) add.assoc)
    obtain st3 where st3: "rwt_write_loop ops pool off buf (Suc k) 0 (wb + n) err ?st2 = Some (0, err, st3)"
      "cached_idle good content pool st3"
      "content (ca_dev st3) = copy_at (copy_at bs (off + wb) chunk) (off + (wb + n)) (subspan buf (wb + n) (length buf - (wb + n)))"
      using less.hyps [OF dec idle _ n(3) nxt, of err] less.prems(2,5-9) al st1(3,4) lb by (auto simp: bs_def sz_def)
    have "chunk @ subspan buf (wb + n) (length buf - (wb + n)) = subspan buf wb (length buf - wb)"
    proof -
      have "length buf - wb = n + (length buf - (wb + n))" using n(3) by simp
      then show ?thesis unfolding chunk_def by (metis subspan_append)
    qed
    then have c: "content (ca_dev st3) = copy_at bs (off + wb) (subspan buf wb (length buf - wb))"
      unfolding st3(3) using lc(1) less.prems(2) n(3)
      by (subst copy_at_append_next) (auto simp: bs_def)
    have "lk_try_lock (ca_lock st) k = Some (True, ?lk)" using k free by (simp add: lk_try_lock_eq)
    moreover have "rwt_chunk_done k 0 st1 = Some ?st2" using u st1(5) by (simp add: rwt_chunk_done_def)
    moreover have "subquery buf wb n = Some chunk" using n by (simp add: subquery_eq chunk_def)
    ultimately show ?thesis using True st1(1) st3(1,2) c
      by (subst rwt_write_loop.simps) (simp add: Let_def sz_def [symmetric] n_def [symmetric] bs_def)
  qed
qed

lemma rwt_write_ok:
  assumes st: "cached_idle good content pool st" and buf: "buf \<noteq> []" "off + length buf \<le> length (content (ca_dev st))"
    and al: "al dvd ca_sz st" "al dvd off" "al dvd length buf"
  shows "\<exists>st'. rwt_write ops pool off buf st = Some (0, 0, st') \<and> cached_idle good content pool st'
    \<and> content (ca_dev st') = copy_at (content (ca_dev st)) off buf"
proof -
  let ?nr = "strips_round_up (off + length buf) (ca_sz st)"
  let ?st = "st\<lparr>ca_lock := lk_extend (ca_lock st) ?nr\<rparr>"
  have sz: "0 < ca_sz st" using st by (simp add: cached_idle_def cached_good_def)
  have "cached_idle good content pool ?st" using st by (simp add: cached_idle_def cached_good_def)
  moreover have "off + length buf \<le> length (ca_lock ?st) * ca_sz ?st"
  proof -
    have "off + length buf \<le> ?nr * ca_sz st" by (rule strips_round_up_bounds(1) [OF sz])
    also have "\<dots> \<le> length (ca_lock ?st) * ca_sz st" by (intro mult_le_mono1) simp
    finally show ?thesis by simp
  qed
  ultimately show ?thesis using rwt_write_loop_ok [of pool ?st off buf 0 "off div ca_sz st" "off mod ca_sz st" 0] buf al
    by (simp add: rwt_write_def Let_def)
qed

end

subsection \<open>Choosing the item size and the handler\<close>

text \<open>\<open>make_cache\<close>: the largest item size from 1 MiB down to a sector that the cache has room for.\<close>

function make_cache_loop :: "nat \<Rightarrow> nat \<Rightarrow> chunk_cache option" where
  "make_cache_loop cache_len_bytes item =
     (if item < 512 then None
      else if cache_len_bytes div item \<noteq> 0
           then lru_create (strips_round_up cache_len_bytes item) item
           else make_cache_loop cache_len_bytes (item div 2))"
  by pat_completeness auto

termination
  by (relation "measure snd") auto

declare make_cache_loop.simps [simp del]

definition make_cache :: "nat \<Rightarrow> chunk_cache option" where
  "make_cache cache_len_bytes =
     (if cache_len_bytes \<noteq> 0 then make_cache_loop cache_len_bytes (2 ^ 20) else None)"

text \<open>
  \<open>RWHandler\<close> owns one handler of each kind over the same cache, device and pool; each has its own
  sequence number, and only the second uses the locker.
\<close>

record 'c rw_cached =
  rc_cache :: chunk_cache
  rc_dev :: 'c
  rc_seq_i :: "64 word"
  rc_seq_t :: "64 word"
  rc_lock :: locker
  write_through :: bool

definition set_write_through :: "bool \<Rightarrow> 'c rw_cached \<Rightarrow> 'c rw_cached" where
  "set_write_through value s = s\<lparr>write_through := value\<rparr>"

definition rw_create :: "nat \<Rightarrow> 'c \<Rightarrow> bool \<Rightarrow> 'c rw_cached option" where
  "rw_create cache_len_sectors handler wt = do {
     cache \<leftarrow> make_cache (cache_len_sectors * 512 mod u64_limit);
     Some (set_write_through wt \<lparr>rc_cache = cache, rc_dev = handler, rc_seq_i = 0, rc_seq_t = 0, rc_lock = [],
       write_through = False\<rparr>) }"

definition rw_view :: "'c rw_cached \<Rightarrow> 'c cached" where
  "rw_view s = \<lparr>ca_cache = rc_cache s, ca_dev = rc_dev s,
     ca_seq = (if write_through s then rc_seq_t s else rc_seq_i s), ca_lock = rc_lock s\<rparr>"

definition rw_put :: "'c cached \<Rightarrow> 'c rw_cached \<Rightarrow> 'c rw_cached" where
  "rw_put st s = s\<lparr>rc_cache := ca_cache st, rc_dev := ca_dev st,
     rc_seq_i := (if write_through s then rc_seq_i s else ca_seq st),
     rc_seq_t := (if write_through s then ca_seq st else rc_seq_t s), rc_lock := ca_lock st\<rparr>"

definition rw_read :: "'c rw_handler \<Rightarrow> (nat \<Rightarrow> byte list) \<Rightarrow> 'c rw_cached read_fn" where
  "rw_read ops pool off buf s = do {
     (res, e, buf', st) \<leftarrow> rwi_read ops pool off buf (rw_view s);
     Some (res, e, buf', rw_put st s) }"

definition rw_write :: "'c rw_handler \<Rightarrow> (nat \<Rightarrow> byte list) \<Rightarrow> 'c rw_cached write_fn" where
  "rw_write ops pool off buf s = do {
     (res, e, st) \<leftarrow> (if write_through s then rwt_write ops pool off buf (rw_view s)
                      else rwi_write ops off buf (rw_view s));
     Some (res, e, rw_put st s) }"

definition cached_ops :: "'c rw_handler \<Rightarrow> (nat \<Rightarrow> byte list) \<Rightarrow> 'c rw_cached rw_handler" where
  "cached_ops ops pool = \<lparr>submit_rd = rw_read ops pool, submit_wr = rw_write ops pool\<rparr>"

definition rw_good :: "('c \<Rightarrow> bool) \<Rightarrow> ('c \<Rightarrow> byte list) \<Rightarrow> (nat \<Rightarrow> byte list) \<Rightarrow> 'c rw_cached \<Rightarrow> bool" where
  "rw_good good content pool s \<longleftrightarrow> cached_idle good content pool (rw_view s)"

lemma rw_view_sel [simp]:
  "ca_cache (rw_view s) = rc_cache s" "ca_dev (rw_view s) = rc_dev s" "ca_lock (rw_view s) = rc_lock s"
  by (simp_all add: rw_view_def)

lemma rw_good_put:
  "cached_idle good content pool st \<Longrightarrow> rw_good good content pool (rw_put st s)"
  by (simp add: rw_good_def cached_idle_def cached_good_def rw_put_def)

lemma rc_dev_put [simp]: "rc_dev (rw_put st s) = ca_dev st"
  by (simp add: rw_put_def)

context aligned_dev
begin

lemma cached_aligned_dev:
  assumes "al dvd length (pool 0)"
  shows "aligned_dev al (cached_ops ops pool) (rw_good good content pool) (\<lambda>s. content (rc_dev s))"
proof
  fix s :: "'c rw_cached" and buf :: "byte list" and off
  assume s: "rw_good good content pool s" "buf \<noteq> []" "off + length buf \<le> length (content (rc_dev s))"
    and al: "al dvd off" "al dvd length buf"
  then have i: "cached_idle good content pool (rw_view s)" and g: "cached_good good content pool (rw_view s)"
    by (simp_all add: rw_good_def cached_idle_def)
  then have sz: "al dvd ca_sz (rw_view s)" using assms by (simp add: cached_good_def)
  obtain st where st: "rwi_read ops pool off buf (rw_view s) = Some (0, 0, subspan (content (rc_dev s)) off (length buf), st)"
    "cached_good good content pool st" "content (ca_dev st) = content (rc_dev s)" "ca_lock st = rc_lock s"
    using rwi_read_ok [OF g s(2) _ sz] s(3) by auto
  then have "cached_idle good content pool st" using i by (simp add: cached_idle_def)
  with st show "\<exists>s'. submit_rd (cached_ops ops pool) off buf s = Some (0, 0, subspan (content (rc_dev s)) off (length buf), s') \<and>
      rw_good good content pool s' \<and> content (rc_dev s') = content (rc_dev s)"
    by (simp add: cached_ops_def rw_read_def rw_good_put)
  show "\<exists>s'. submit_wr (cached_ops ops pool) off buf s = Some (0, 0, s') \<and>
      rw_good good content pool s' \<and> content (rc_dev s') = copy_at (content (rc_dev s)) off buf"
  proof (cases "write_through s")
    case True
    obtain st where "rwt_write ops pool off buf (rw_view s) = Some (0, 0, st)" "cached_idle good content pool st"
      "content (ca_dev st) = copy_at (content (rc_dev s)) off buf"
      using rwt_write_ok [OF i s(2), of off] s(3) sz al by auto
    with True show ?thesis by (simp add: cached_ops_def rw_write_def rw_good_put)
  next
    case False
    obtain st where w: "rwi_write ops off buf (rw_view s) = Some (0, 0, st)" "cached_good good content pool st"
      "content (ca_dev st) = copy_at (content (rc_dev s)) off buf" "ca_lock st = rc_lock s"
      using rwi_write_ok [OF g s(2) _ al] s(3) by auto
    then have "cached_idle good content pool st" using i by (simp add: cached_idle_def)
    with w False show ?thesis by (simp add: cached_ops_def rw_write_def rw_good_put)
  qed
qed

end

context block_dev
begin

lemma cached_block_dev:
  "block_dev (cached_ops ops pool) (rw_good good content pool) (\<lambda>s. content (rc_dev s))"
  unfolding block_dev_aligned by (rule aligned.cached_aligned_dev) simp

end

interpretation cached_inmem: block_dev "cached_ops inmem_ops pool" "rw_good inmem_good mem pool" "\<lambda>s. mem (rc_dev s)" for pool
  by (rule inmem.cached_block_dev)

subsection \<open>Properties\<close>

text \<open>
  C4. A cached handler over any working device whose size is a multiple of the item size, in either
  mode, is the same linear volume: a read returns the bytes of the device, hit or miss, a write
  changes exactly its range on the device, and afterwards the cache still holds nothing but what the
  device holds.
\<close>

theorem cached_linear_volume:
  assumes "block_dev ops good content" "rw_good good content pool s" "buf \<noteq> []"
    and "off + length buf \<le> length (content (rc_dev s))"
  shows "(\<exists>s'. rw_read ops pool off buf s = Some (0, 0, subspan (content (rc_dev s)) off (length buf), s') \<and>
      rw_good good content pool s' \<and> content (rc_dev s') = content (rc_dev s)) \<and>
    (\<exists>s'. rw_write ops pool off buf s = Some (0, 0, s') \<and> rw_good good content pool s' \<and>
      content (rc_dev s') = copy_at (content (rc_dev s)) off buf)"
  using block_dev.read_law [OF block_dev.cached_block_dev [OF assms(1)] assms(2-4)]
    block_dev.write_law [OF block_dev.cached_block_dev [OF assms(1)] assms(2-4)]
  by (simp add: cached_ops_def)

definition demo_cached :: "bool \<Rightarrow> inmem rw_cached" where
  "demo_cached wt = \<lparr>rc_cache = \<lparr>cache_len_max = 1, cache_item_sz = 2,
       lcache = [\<lparr>lkey = 1, ldata = Some [3, 4], lrefs = 0\<rparr>]\<rparr>,
     rc_dev = \<lparr>mem = [1, 2, 3, 4, 5, 6], mem_sz = 6\<rparr>, rc_seq_i = 0, rc_seq_t = 0, rc_lock = [],
     write_through = wt\<rparr>"

lemma demo_cached_good: "rw_good inmem_good mem (\<lambda>_. [0, 0]) (demo_cached wt)"
proof -
  let ?c = "rc_cache (demo_cached wt)"
  have wf: "lru_wf ?c" by (simp add: demo_cached_def lru_wf_def items_ok_def refs_distinct_def)
  have "d = dev_chunk [1, 2, 3, 4, 5, 6] 2 k" if "lru_map ?c k = Some d" for k d
    using that unfolding lru_map_iff [OF wf] by (auto simp: demo_cached_def dev_chunk_def subspan_def)
  then have "lru_store.coherent ?c (dev_chunk [1, 2, 3, 4, 5, 6] 2)"
    using wf by (simp add: lru_store.coherent_def)
  moreover have "rc_dev (demo_cached wt) = \<lparr>mem = [1, 2, 3, 4, 5, 6], mem_sz = 6\<rparr>" "rc_lock (demo_cached wt) = []"
    "cache_item_sz ?c = 2"
    by (simp_all add: demo_cached_def)
  ultimately show ?thesis
    by (simp add: rw_good_def cached_idle_def cached_good_def inmem_good_def held_def)
qed

lemma cached_linear_volume_witness:
  "(\<exists>s'. rw_read inmem_ops (\<lambda>_. [0, 0]) 1 [0, 0, 0, 0] (demo_cached True) = Some (0, 0, [2, 3, 4, 5], s')) \<and>
   (\<exists>s'. rw_write inmem_ops (\<lambda>_. [0, 0]) 1 [7, 8, 9] (demo_cached False) = Some (0, 0, s') \<and>
      mem (rc_dev s') = [1, 7, 8, 9, 5, 6])"
proof -
  have m: "mem (rc_dev (demo_cached wt)) = [1, 2, 3, 4, 5, 6]" for wt by (simp add: demo_cached_def)
  show ?thesis
    using cached_linear_volume [OF inmem.block_dev_axioms demo_cached_good, of "[0, 0, 0, 0]" 1 True]
      cached_linear_volume [OF inmem.block_dev_axioms demo_cached_good, of "[7, 8, 9]" 1 False]
    unfolding m by (simp add: subspan_def copy_at_def) blast
qed

lemma make_cache_loop_shape:
  assumes "512 \<le> bytes" "j \<le> 20" "9 \<le> j" "j = 20 \<or> bytes < 2 * 2 ^ j"
  shows "\<exists>c i. make_cache_loop bytes (2 ^ j) = Some c \<and> 9 \<le> i \<and> i \<le> 20 \<and> cache_item_sz c = 2 ^ i \<and> lcache c = []
    \<and> 2 ^ i \<le> bytes \<and> (i = 20 \<or> bytes < 2 * 2 ^ i) \<and> bytes \<le> cache_len_max c * 2 ^ i
    \<and> cache_len_max c * 2 ^ i < bytes + 2 ^ i"
  using assms
proof (induction j)
  case (Suc j)
  have ge: "(512 :: nat) \<le> 2 ^ Suc j" using power_increasing [OF Suc.prems(3), of "2 :: nat"] by simp
  show ?case
  proof (cases "bytes < 2 ^ Suc j")
    case False
    have p: "0 < (2 :: nat) ^ Suc j" by simp
    note r = strips_round_up_bounds [OF p, of bytes]
    have d: "bytes div 2 ^ Suc j \<noteq> 0" using False by (simp add: div_eq_0_iff)
    have nz: "strips_round_up bytes (2 ^ Suc j) \<noteq> 0" using r(1) Suc.prems(1) by (intro notI) simp
    have "make_cache_loop bytes (2 ^ Suc j) = Some \<lparr>cache_len_max = strips_round_up bytes (2 ^ Suc j),
        cache_item_sz = 2 ^ Suc j, lcache = []\<rparr>"
      using d ge nz by (subst make_cache_loop.simps) (simp add: lru_create_def)
    then show ?thesis using Suc.prems r False by (intro exI conjI) (assumption | simp)+
  next
    case True
    have "9 \<noteq> Suc j" using True Suc.prems(1) by (intro notI) simp
    then have "9 \<le> j" using Suc.prems(3) by simp
    moreover have "make_cache_loop bytes (2 ^ Suc j) = make_cache_loop bytes (2 ^ j)"
      using True ge by (subst make_cache_loop.simps) (simp add: div_less)
    ultimately show ?thesis using Suc True by simp
  qed
qed simp



text \<open>
  C36. A read of a missing item that the device refuses (it returns a nonzero code without setting an
  error on the query) poisons the cache: the query's completer runs without an error, copies the
  content of the recycled chunk into the caller's buffer and stores the chunk as the item, so that
  the next read of the item succeeds with it.
\<close>

theorem refused_read_poisons:
  assumes "lru_wf (ca_cache st)" "lru_map (ca_cache st) k = None" "length (pool k) = ca_sz st"
    and "submit_rd ops (k * ca_sz st) (pool k) (ca_dev st) = Some (res, 0, pool k, d)" "res \<noteq> 0"
    and "co + n \<le> ca_sz st" "rb + n \<le> length buf"
  shows "\<exists>st'. rd_chunk ops pool k co n rb (err, buf, st) =
      Some (res, err, copy_at buf rb (subspan (pool k) co n), st')
    \<and> (\<exists>st''. rd_chunk ops pool k co n rb (0, buf, st') =
        Some (0, 0, copy_at buf rb (subspan (pool k) co n), st''))"
proof -
  obtain c1 where f: "lru_find (ca_cache st) k = Some (None, c1)" "lru_wf c1"
    using lru_store.find_law [OF assms(1), of k] assms(2) by auto
  have sz: "cache_item_sz c1 = ca_sz st" by (rule lru_find_sz [OF f(1)])
  obtain ev c2 where u: "lru_update c1 k (Some (pool k)) = Some (ev, c2)" "lru_wf c2" "lru_map c2 k = Some (pool k)"
    using lru_store.update_law [OF f(2), of k "pool k"] by auto
  obtain c3 where h: "lru_find c2 k = Some (Some (pool k), c3)"
    using lru_store.find_law [OF u(2), of k] u(3) by auto
  have cp: "copy_stl co (subspan (pool k) co n) rb (subspan buf rb n) = Some (subspan (pool k) co n)"
    using assms(3,6,7) by (simp add: copy_stl_eq)
  let ?st = "st\<lparr>ca_cache := c2, ca_dev := d\<rparr>"
  have "rd_chunk ops pool k co n rb (err, buf, st) = Some (res, err, copy_at buf rb (subspan (pool k) co n), ?st)"
    using f(1) sz assms(4) u(1) cp by (simp add: rd_chunk_def rd_miss_done_def Let_def)
  moreover have "rd_chunk ops pool k co n rb (0, buf, ?st) =
      Some (0, 0, copy_at buf rb (subspan (pool k) co n), ?st\<lparr>ca_cache := c3\<rparr>)"
    using h cp by (simp add: rd_chunk_def Let_def)
  ultimately show ?thesis by blast
qed

text \<open>A device that refuses every request, and an empty cache of one item of two bytes.\<close>

definition refusing_ops :: "unit rw_handler" where
  "refusing_ops = \<lparr>submit_rd = (\<lambda>off buf d. Some (EIO, 0, buf, d)), submit_wr = (\<lambda>off buf d. Some (EIO, 0, d))\<rparr>"

definition demo_empty :: "unit cached" where
  "demo_empty = \<lparr>ca_cache = \<lparr>cache_len_max = 1, cache_item_sz = 2, lcache = []\<rparr>, ca_dev = (), ca_seq = 0, ca_lock = [False]\<rparr>"

lemma demo_empty_wf: "lru_wf (ca_cache demo_empty)" "lru_map (ca_cache demo_empty) k = None" "ca_sz demo_empty = 2"
proof -
  show wf: "lru_wf (ca_cache demo_empty)"
    by (simp add: demo_empty_def lru_wf_def items_ok_def refs_distinct_def)
  show "lru_map (ca_cache demo_empty) k = None" using lru_map_None_iff [OF wf] by (simp add: demo_empty_def)
  show "ca_sz demo_empty = 2" by (simp add: demo_empty_def)
qed

lemma refused_read_poisons_witness:
  "\<exists>st' st''. rd_chunk refusing_ops (\<lambda>_. [42, 43]) 0 0 2 0 (0, [0, 0], demo_empty) = Some (EIO, 0, [42, 43], st')
    \<and> rd_chunk refusing_ops (\<lambda>_. [42, 43]) 0 0 2 0 (0, [0, 0], st') = Some (0, 0, [42, 43], st'')"
  using refused_read_poisons [OF demo_empty_wf(1,2), of "\<lambda>_. [42, 43]" 0 refusing_ops EIO "()" 0 2 0 "[0, 0]" 0]
  by (simp add: demo_empty_wf(3) refusing_ops_def subspan_def)

text \<open>
  C37. A read of an item that was issued before a partial write of the cached item and completes
  after it puts the old bytes back into the cache: the write did not advance the sequence number
  that guards the update.  The device holds the new bytes; the cache serves the old ones.
\<close>

theorem stale_read_overwrites:
  assumes "block_dev ops good content" "cached_good good content pool st"
    and "lru_map (ca_cache st) k = Some (dev_chunk (content (ca_dev st)) (ca_sz st) k)"
    and "chunk \<noteq> []" "off = k * ca_sz st + co" "co + length chunk \<le> ca_sz st" "length chunk < ca_sz st"
    and "off < length (content (ca_dev st))" "rb + n \<le> length buf" "n \<le> ca_sz st"
  shows "\<exists>st1 st2 buf'. rwt_process ops pool off chunk st = Some (0, 0, st1)
    \<and> content (ca_dev st1) = copy_at (content (ca_dev st)) off chunk
    \<and> rd_miss_done (ca_seq st) k 0 n rb 0 (dev_chunk (content (ca_dev st)) (ca_sz st) k) (err, buf, st1) = Some (err, buf', st2)
    \<and> content (ca_dev st2) = copy_at (content (ca_dev st)) off chunk
    \<and> lru_map (ca_cache st2) k = Some (dev_chunk (content (ca_dev st)) (ca_sz st) k)"
proof -
  let ?old = "dev_chunk (content (ca_dev st)) (ca_sz st) k"
  have sz: "0 < ca_sz st" and c: "lru_store.coherent (ca_cache st) (dev_chunk (content (ca_dev st)) (ca_sz st))"
    and dv: "ca_sz st dvd length (content (ca_dev st))"
    using assms(2) by (simp_all add: cached_good_def)
  have co: "co < ca_sz st" using assms(4,6) by (cases chunk) auto
  have km: "off div ca_sz st = k" "off mod ca_sz st = co" using co assms(5) by simp_all
  obtain st1 where st1: "rwt_process ops pool off chunk st = Some (0, 0, st1)" "cached_good good content pool st1"
    "content (ca_dev st1) = copy_at (content (ca_dev st)) off chunk"
    using aligned_dev.rwt_process_ok [OF assms(1) [unfolded block_dev_aligned] assms(2,4), of off] assms(6,8) km by auto
  have "ca_seq st1 = ca_seq st"
  proof -
    obtain cache where "lru_find (ca_cache st) k = Some (Some ?old, cache)"
      using lru_store.find_law [OF lru_store.coherent_wf [OF c], of k] assms(3) by auto
    with st1(1) assms(4,7) km show ?thesis
      by (auto simp: rwt_process_def Let_def bind_eq_Some_conv)
  qed
  moreover obtain ev cache where u: "lru_update (ca_cache st1) k (Some ?old) = Some (ev, cache)" "lru_map cache k = Some ?old"
  proof -
    have "lru_wf (ca_cache st1)" using st1(2) lru_store.coherent_wf by (auto simp: cached_good_def)
    from lru_store.update_law [OF this, of k ?old] show ?thesis using that by auto
  qed
  moreover have "length ?old = ca_sz st" using chunk_inside [OF dv, of k] assms(5,8) by (intro length_dev_chunk) simp
  then have "copy_stl 0 (subspan ?old 0 n) rb (subspan buf rb n) = Some (subspan ?old 0 n)"
    using assms(9,10) by (simp add: copy_stl_eq)
  ultimately show ?thesis using st1 by (auto simp: rd_miss_done_def Let_def)
qed

lemma stale_read_overwrites_witness:
  "\<exists>st1 st2 buf'. rwt_process inmem_ops (\<lambda>_. [0, 0]) 2 [9] (rw_view (demo_cached True)) = Some (0, 0, st1)
    \<and> rd_miss_done 0 1 0 2 0 0 [3, 4] (0, [0, 0], st1) = Some (0, buf', st2)
    \<and> mem (ca_dev st2) = [1, 2, 9, 4, 5, 6] \<and> lru_map (ca_cache st2) 1 = Some [3, 4]"
proof -
  let ?st = "rw_view (demo_cached True)"
  have g: "cached_good inmem_good mem (\<lambda>_. [0, 0]) ?st"
    using demo_cached_good [of True] by (simp add: rw_good_def cached_idle_def)
  have wf: "lru_wf (ca_cache ?st)" using g lru_store.coherent_wf by (auto simp: cached_good_def)
  have v: "ca_sz ?st = 2" "mem (ca_dev ?st) = [1, 2, 3, 4, 5, 6]" "ca_seq ?st = 0"
    by (simp_all add: demo_cached_def rw_view_def)
  have o: "dev_chunk (mem (ca_dev ?st)) (ca_sz ?st) 1 = [3, 4]"
    unfolding v by (simp add: dev_chunk_def subspan_def)
  have "lru_map (ca_cache ?st) 1 = Some [3, 4]"
    unfolding lru_map_iff [OF wf] by (simp add: demo_cached_def is_valid_def)
  then show ?thesis
    using stale_read_overwrites [OF inmem.block_dev_axioms g, of 1 "[9]" 2 0 0 2 "[0, 0]" 0]
    unfolding o by (auto simp: v [simplified] copy_at_def)
qed

end
