(* ===== verification/Default_Target.thy ===== *)
theory Default_Target
  imports Target_Fsm
begin

text \<open>
  \<open>ublk/def/target.cpp\<close>: a target over a file, through asynchronous file operations of Boost.Asio
  and the system calls \<open>ftruncate64\<close> and \<open>fsync\<close>.  These are not in the repository: a
  \<open>file_ops\<close> gives what they do to a file of type \<open>'f\<close>, and \<open>file_laws\<close> states what the code
  relies on.  \<open>fo_read\<close> returns the error code of the completion and the bytes read; the end of the
  file is reported by a code whose value is 2, which the code compares with \<open>ENOENT\<close>.

  A read beyond the end of the file extends the file and reads the rest again, in the completer;
  the outer option of the result is \<open>None\<close> if the reads never stop.
\<close>

definition ENOENT :: int where "ENOENT = 2"

record 'f file_ops =
  fo_aborted :: int
  fo_read :: "'f \<Rightarrow> nat \<Rightarrow> nat \<Rightarrow> int \<times> byte list \<times> 'f"
  fo_write :: "'f \<Rightarrow> nat \<Rightarrow> byte list \<Rightarrow> int \<times> nat \<times> 'f"
  fo_truncate :: "'f \<Rightarrow> nat \<Rightarrow> int \<times> int \<times> 'f"
  fo_sync :: "'f \<Rightarrow> int \<times> 'f"

text \<open>
  The completer of the read of \<open>rest\<close> merges the error of the second read into the first.  A short
  read without an error never happens (\<open>async_read_at\<close> goes on until the buffer is full).
\<close>

partial_function (option) def_async_read ::
    "'f file_ops \<Rightarrow> nat \<Rightarrow> byte list \<Rightarrow> 'f \<Rightarrow> (int \<times> byte list \<times> 'f) option" where
  "def_async_read fo off buf f = (case fo_read fo f off (length buf) of (ec, got, f1) \<Rightarrow>
     let buf1 = copy_at buf 0 got in
     if ec = fo_aborted fo then Some (ENOTCONN, buf1, f1)
     else if ec \<noteq> ENOENT then Some (ec, buf1, f1)
     else if length got < length buf then
       (case fo_truncate fo f1 (off + length buf) of (r, errno, f2) \<Rightarrow>
          if r < 0 then Some (errno, buf1, f2)
          else Option.bind (def_async_read fo (off + length got) (drop (length got) buf1) f2)
            (\<lambda>(e, rest, f3). Some (merge_err 0 e, copy_at buf1 (length got) rest, f3)))
     else Some (0, buf1, f1))"

definition def_read :: "'f file_ops \<Rightarrow> 'f read_fn" where
  "def_read fo off buf f = do {
     (e, buf', f') \<leftarrow> def_async_read fo off buf f;
     Some (0, e, buf', f') }"

definition def_write :: "'f file_ops \<Rightarrow> 'f write_fn" where
  "def_write fo off buf f = (case fo_write fo f off buf of (ec, n, f') \<Rightarrow>
     if ec = fo_aborted fo then Some (0, ENOTCONN, f')
     else if ec \<noteq> 0 then Some (0, ec, f')
     else do { expects (n = length buf); Some (0, 0, f') })"

definition def_flush :: "'f file_ops \<Rightarrow> 'f \<Rightarrow> (int \<times> int \<times> 'f) option" where
  "def_flush fo f = (case fo_sync fo f of (r, f') \<Rightarrow> Some (r, 0, f'))"

text \<open>The submitters of \<open>ublk/def\<close> forward to the target.\<close>

definition def_rdq_submit :: "'f file_ops \<Rightarrow> 'f read_fn" where
  "def_rdq_submit fo = def_read fo"

definition def_wrq_submit :: "'f file_ops \<Rightarrow> 'f write_fn" where
  "def_wrq_submit fo = def_write fo"

definition def_flq_submit :: "'f file_ops \<Rightarrow> 'f \<Rightarrow> (int \<times> int \<times> 'f) option" where
  "def_flq_submit fo = def_flush fo"

definition def_ops :: "'f file_ops \<Rightarrow> 'f rw_handler" where
  "def_ops fo = \<lparr>submit_rd = def_rdq_submit fo, submit_wr = def_wrq_submit fo\<rparr>"

subsection \<open>Regular files\<close>

definition file_laws :: "'f file_ops \<Rightarrow> ('f \<Rightarrow> bool) \<Rightarrow> ('f \<Rightarrow> byte list) \<Rightarrow> bool" where
  "file_laws fo good bytes \<longleftrightarrow> fo_aborted fo \<notin> {0, ENOENT}
     \<and> (\<forall>f off n. good f \<longrightarrow> (\<exists>f'. fo_read fo f off n =
          (if off + n \<le> length (bytes f) then 0 else ENOENT, subspan (bytes f) off n, f') \<and> good f' \<and> bytes f' = bytes f))
     \<and> (\<forall>f off buf. good f \<longrightarrow> off + length buf \<le> length (bytes f) \<longrightarrow> (\<exists>f'. fo_write fo f off buf =
          (0, length buf, f') \<and> good f' \<and> bytes f' = copy_at (bytes f) off buf))
     \<and> (\<forall>f n. good f \<longrightarrow> (\<exists>e f'. fo_truncate fo f n = (0, e, f') \<and> good f' \<and>
          bytes f' = take n (bytes f) @ replicate (n - length (bytes f)) 0))
     \<and> (\<forall>f. good f \<longrightarrow> (\<exists>r f'. fo_sync fo f = (r, f') \<and> good f' \<and> bytes f' = bytes f))"

lemma file_read_law:
  assumes "file_laws fo good bytes" "good f"
  obtains f' where "fo_read fo f off n = (if off + n \<le> length (bytes f) then 0 else ENOENT, subspan (bytes f) off n, f')"
    "good f'" "bytes f' = bytes f"
  using assms unfolding file_laws_def by blast

lemma file_write_law:
  assumes "file_laws fo good bytes" "good f" "off + length buf \<le> length (bytes f)"
  obtains f' where "fo_write fo f off buf = (0, length buf, f')" "good f'" "bytes f' = copy_at (bytes f) off buf"
  using assms unfolding file_laws_def by blast

lemma file_truncate_law:
  assumes "file_laws fo good bytes" "good f"
  obtains e f' where "fo_truncate fo f n = (0, e, f')" "good f'"
    "bytes f' = take n (bytes f) @ replicate (n - length (bytes f)) 0"
  using assms unfolding file_laws_def by blast

lemma file_sync_law:
  assumes "file_laws fo good bytes" "good f"
  obtains r f' where "fo_sync fo f = (r, f')" "good f'" "bytes f' = bytes f"
  using assms unfolding file_laws_def by blast

lemma file_aborted: "file_laws fo good bytes \<Longrightarrow> fo_aborted fo \<noteq> 0 \<and> fo_aborted fo \<noteq> ENOENT"
  by (simp add: file_laws_def)

definition padded :: "byte list \<Rightarrow> nat \<Rightarrow> byte list" where
  "padded bs n = bs @ replicate (n - length bs) 0"

lemma def_read_inside:
  assumes "file_laws fo good bytes" "good f" "off + length buf \<le> length (bytes f)"
  shows "\<exists>f'. def_async_read fo off buf f = Some (0, subspan (bytes f) off (length buf), f') \<and> good f' \<and> bytes f' = bytes f"
proof -
  obtain f' where "fo_read fo f off (length buf) = (if off + length buf \<le> length (bytes f) then 0 else ENOENT,
      subspan (bytes f) off (length buf), f')" "good f'" "bytes f' = bytes f"
    by (rule file_read_law [OF assms(1,2)])
  then show ?thesis using file_aborted [OF assms(1)] assms(3)
    by (subst def_async_read.simps) (simp add: ENOENT_def)
qed

lemma def_read_padded:
  assumes laws: "file_laws fo good bytes" and f: "good f" and buf: "buf \<noteq> []"
  shows "\<exists>f'. def_async_read fo off buf f = Some (0, subspan (padded (bytes f) (off + length buf)) off (length buf), f')
    \<and> good f' \<and> bytes f' = padded (bytes f) (off + length buf)"
proof (cases "off + length buf \<le> length (bytes f)")
  case True
  then show ?thesis using def_read_inside [OF laws f True] by (simp add: padded_def)
next
  case False
  let ?got = "subspan (bytes f) off (length buf)" and ?n = "off + length buf"
  obtain f1 where a: "fo_read fo f off (length buf) =
      (if off + length buf \<le> length (bytes f) then 0 else ENOENT, ?got, f1)" "good f1" "bytes f1 = bytes f"
    by (rule file_read_law [OF laws f])
  then have f1: "fo_read fo f off (length buf) = (ENOENT, ?got, f1)" "good f1" "bytes f1 = bytes f"
    using False by simp_all
  obtain e f2 where b: "fo_truncate fo f1 ?n = (0, e, f2)" "good f2"
    "bytes f2 = take ?n (bytes f1) @ replicate (?n - length (bytes f1)) 0"
    by (rule file_truncate_law [OF laws f1(2)])
  then have f2: "fo_truncate fo f1 ?n = (0, e, f2)" "good f2" "bytes f2 = padded (bytes f) ?n"
    using False by (simp_all add: f1(3) padded_def)
  have "0 < length buf" using buf by simp
  then have "length (bytes f) - off < length buf" using False by linarith
  then have lg: "length ?got < length buf" by (simp add: length_subspan)
  have l2: "length (bytes f2) = ?n" using False by (simp add: f2(3) padded_def)
  let ?buf = "drop (length ?got) (copy_at buf 0 ?got)"
  have lb: "length ?buf = length buf - length ?got" using lg by simp
  obtain f3 where f3: "def_async_read fo (off + length ?got) ?buf f2 =
      Some (0, subspan (bytes f2) (off + length ?got) (length ?buf), f3)" "good f3" "bytes f3 = bytes f2"
    using def_read_inside [OF laws f2(2), of "off + length ?got" ?buf] lb l2 lg by auto
  have g: "?got = subspan (bytes f2) off (length ?got)"
  proof (rule nth_equalityI)
    show "length ?got = length (subspan (bytes f2) off (length ?got))" using l2 lg by (simp add: length_subspan)
    fix i assume i: "i < length ?got"
    then have "off + i < length (bytes f)" by (simp add: length_subspan) linarith
    with i show "?got ! i = subspan (bytes f2) off (length ?got) ! i"
      using l2 by (simp add: length_subspan nth_subspan f2(3) padded_def nth_append)
  qed
  have "copy_at (copy_at buf 0 ?got) (length ?got) (subspan (bytes f2) (off + length ?got) (length ?buf)) =
      copy_at buf 0 (?got @ subspan (bytes f2) (off + length ?got) (length ?buf))"
    using lb l2 lg by (intro copy_at_append_next) auto
  also have "\<dots> = ?got @ subspan (bytes f2) (off + length ?got) (length ?buf)" using lb l2 lg by simp
  also have "\<dots> = subspan (bytes f2) off (length buf)"
  proof -
    have "length buf = length ?got + length ?buf" using lb lg by simp
    then show ?thesis using subspan_append [of "bytes f2" off "length ?got" "length ?buf"] g by simp
  qed
  finally show ?thesis using f1(1) f2 f3 lg file_aborted [OF laws]
    by (subst def_async_read.simps) (simp add: ENOENT_def)
qed

lemma def_block_dev:
  assumes laws: "file_laws fo good bytes"
  shows "block_dev (def_ops fo) good bytes"
proof
  fix f and buf :: "byte list" and off
  assume f: "good f" "buf \<noteq> []" "off + length buf \<le> length (bytes f)"
  show "\<exists>f'. submit_rd (def_ops fo) off buf f = Some (0, 0, subspan (bytes f) off (length buf), f') \<and> good f' \<and> bytes f' = bytes f"
    using def_read_inside [OF laws f(1,3)] by (auto simp: def_ops_def def_rdq_submit_def def_read_def)
  show "\<exists>f'. submit_wr (def_ops fo) off buf f = Some (0, 0, f') \<and> good f' \<and> bytes f' = copy_at (bytes f) off buf"
    by (rule file_write_law [OF laws f(1,3)])
      (use file_aborted [OF laws] in \<open>simp add: def_ops_def def_wrq_submit_def def_write_def\<close>)
qed

text \<open>
  A read of a file target always completes: bytes inside the file are returned, bytes past its end
  are returned as zeros, and a read that reaches past the end extends the file with zeros up to the
  end of the request; no error is reported.
\<close>

theorem def_read_extends:
  assumes "file_laws fo good bytes" "good f" "buf \<noteq> []"
  shows "\<exists>f'. def_read fo off buf f = Some (0, 0, subspan (padded (bytes f) (off + length buf)) off (length buf), f')
    \<and> good f' \<and> bytes f' = padded (bytes f) (off + length buf)"
  using def_read_padded [OF assms, of off] by (auto simp: def_read_def)

text \<open>A file that is its bytes.\<close>

definition list_file :: "byte list file_ops" where
  "list_file = \<lparr>fo_aborted = 125,
     fo_read = (\<lambda>f off n. (if off + n \<le> length f then 0 else ENOENT, subspan f off n, f)),
     fo_write = (\<lambda>f off buf. (0, length buf, copy_at f off buf)),
     fo_truncate = (\<lambda>f n. (0, 0, take n f @ replicate (n - length f) 0)),
     fo_sync = (\<lambda>f. (-1, f))\<rparr>"

lemma list_file_laws: "file_laws list_file (\<lambda>_. True) (\<lambda>f. f)"
  by (simp add: file_laws_def list_file_def ENOENT_def)

interpretation list_file: block_dev "def_ops list_file" "\<lambda>_. True" "\<lambda>f. f"
  by (rule def_block_dev [OF list_file_laws])

lemma def_read_extends_witness:
  "def_read list_file 1 [9, 9, 9] [5, 6] = Some (0, 0, [6, 0, 0], [5, 6, 0, 0])"
  using def_read_extends [OF list_file_laws TrueI, of "[9, 9, 9]" 1 "[5, 6]"]
  by (simp add: padded_def subspan_def)

end
