(* ===== verification/Lru_Tests.thy ===== *)
theory Lru_Tests
  imports Flat_Lru
begin

text \<open>
  The unit tests of the cache, \<open>ut/cache/flat_lru.cpp\<close>, run on the model.  What a test draws at
  random (the order of insertion, the contents, the keys that are not there) is an argument here, so
  that a test passes when its value is \<open>Some True\<close> for all of them; \<open>None\<close> is a contract violation.
\<close>

type_synonym test_lru = "(nat, byte list) flat_lru"

subsection \<open>The loops of the tests\<close>

fun update_all :: "(nat \<times> byte list) list \<Rightarrow> test_lru \<Rightarrow> ((nat \<times> byte list) option list \<times> test_lru) option" where
  "update_all [] c = Some ([], c)"
| "update_all ((k, d) # kvs) c = do {
     (ev, c) \<leftarrow> lru_update c k (Some d);
     (evs, c) \<leftarrow> update_all kvs c;
     Some (ev # evs, c) }"

fun expect_absent :: "nat list \<Rightarrow> test_lru \<Rightarrow> (bool \<times> test_lru) option" where
  "expect_absent [] c = Some (True, c)"
| "expect_absent (k # ks) c = do {
     let ex = lru_exists c k;
     (buf, c) \<leftarrow> lru_find c k;
     (ok, c) \<leftarrow> expect_absent ks c;
     Some (\<not> ex \<and> buf = None \<and> ok, c) }"

fun expect_found :: "(nat \<times> byte list) list \<Rightarrow> test_lru \<Rightarrow> (bool \<times> test_lru) option" where
  "expect_found [] c = Some (True, c)"
| "expect_found ((k, d) # kvs) c = do {
     (buf, c) \<leftarrow> lru_find c k;
     (ok, c) \<leftarrow> expect_found kvs c;
     Some (buf = Some d \<and> ok, c) }"

fun overwrite_all :: "nat \<Rightarrow> (nat \<times> byte list) list \<Rightarrow> test_lru \<Rightarrow> (bool \<times> test_lru) option" where
  "overwrite_all sz [] c = Some (True, c)"
| "overwrite_all sz ((k, d) # kvs) c = do {
     (buf, c) \<leftarrow> lru_find c k;
     (ok, c) \<leftarrow> overwrite_all sz kvs (lru_modify c k (\<lambda>_. d));
     Some ((case buf of None \<Rightarrow> False | Some b \<Rightarrow> b \<noteq> [] \<and> length b = sz) \<and> ok, c) }"

text \<open>\<open>pairs\<close> are the keys still to be invalidated, the next one first; \<open>keys\<close> the ones before, latest first.\<close>

fun invalidate_loop :: "nat list \<Rightarrow> nat list \<Rightarrow> test_lru \<Rightarrow> (bool \<times> test_lru) option" where
  "invalidate_loop [] keys c = Some (True, c)"
| "invalidate_loop (k # pairs) keys c = do {
     let all = list_all (lru_exists c) (k # pairs);
     (gone, c) \<leftarrow> expect_absent (k # keys) (lru_invalidate c k);
     (ok, c) \<leftarrow> invalidate_loop pairs (k # keys) c;
     Some (all \<and> gone \<and> ok, c) }"

subsection \<open>The tests\<close>

definition test_create_valid :: bool where
  "test_create_valid = (case (lru_create 1 1 :: test_lru option) of None \<Rightarrow> False
     | Some c \<Rightarrow> cache_len_max c = 1 \<and> cache_item_sz c = 1)"

definition test_create_invalid :: bool where
  "test_create_invalid = ((lru_create 0 1 :: test_lru option) = None \<and> (lru_create 1 0 :: test_lru option) = None)"

definition test_find_non_existent :: "(nat \<Rightarrow> byte list) \<Rightarrow> nat list \<Rightarrow> bool option" where
  "test_find_non_existent buf unexistent_keys = do {
     c \<leftarrow> lru_create 32 1;
     (evs, c) \<leftarrow> update_all (map (\<lambda>k. (k, buf k)) [0..<32]) c;
     (ok, c) \<leftarrow> expect_absent unexistent_keys c;
     Some ok }"

definition test_insert_and_find :: "(nat \<Rightarrow> byte list) \<Rightarrow> nat list \<Rightarrow> bool option" where
  "test_insert_and_find buf shuffled = do {
     c \<leftarrow> lru_create 32 16;
     (evs, c) \<leftarrow> update_all (map (\<lambda>k. (k, buf k)) shuffled) c;
     (ok, c) \<leftarrow> expect_found (map (\<lambda>k. (k, buf k)) [0..<32]) c;
     Some (list_all (\<lambda>ev. ev = None) evs \<and> ok) }"

definition test_find_mutable :: "(nat \<Rightarrow> byte list) \<Rightarrow> (nat \<Rightarrow> byte list) \<Rightarrow> nat list \<Rightarrow> bool option" where
  "test_find_mutable buf buf_dup shuffled = do {
     c \<leftarrow> lru_create 32 16;
     (evs, c) \<leftarrow> update_all (map (\<lambda>k. (k, buf k)) shuffled) c;
     (ok, c) \<leftarrow> overwrite_all 16 (map (\<lambda>k. (k, buf_dup k)) [0..<32]) c;
     (ok', c) \<leftarrow> expect_found (map (\<lambda>k. (k, buf_dup k)) [0..<32]) c;
     Some (list_all (\<lambda>ev. ev = None) evs \<and> ok \<and> ok') }"

definition test_invalidate :: "(nat \<Rightarrow> byte list) \<Rightarrow> nat list \<Rightarrow> bool option" where
  "test_invalidate buf shuffled = do {
     c \<leftarrow> lru_create 32 1;
     (evs, c) \<leftarrow> update_all (map (\<lambda>k. (k, buf k)) shuffled) c;
     (ok, c) \<leftarrow> invalidate_loop (rev shuffled) [] c;
     Some ok }"

definition test_invalidate_range :: "(nat \<Rightarrow> byte list) \<Rightarrow> nat list \<Rightarrow> bool option" where
  "test_invalidate_range buf shuffled = do {
     c \<leftarrow> lru_create 32 1;
     (evs, c) \<leftarrow> update_all (map (\<lambda>k. (k, buf k)) shuffled) c;
     let ex = list_all (lru_exists c) shuffled;
     c \<leftarrow> lru_invalidate_range c (0, length shuffled);
     (ok, c) \<leftarrow> expect_absent shuffled c;
     Some (ex \<and> ok) }"

definition test_evict_in_order :: "(nat \<Rightarrow> byte list) \<Rightarrow> bool option" where
  "test_evict_in_order buf = do {
     c \<leftarrow> lru_create 32 1;
     (evs, c) \<leftarrow> update_all (map (\<lambda>k. (k, buf k)) [0..<32]) c;
     (evs', c) \<leftarrow> update_all (map (\<lambda>k. (k, buf k)) [32..<64]) c;
     Some (list_all (\<lambda>ev. ev = None) evs \<and> map (map_option fst) evs' = map (\<lambda>k. Some (k - 32)) [32..<64]) }"

text \<open>
  The last four tests insert \<open>n\<close> keys a stride apart, invalidate one of them and insert a key: the
  invalidated one itself, one just below it, one above it and one below it.
\<close>

definition invalidate_then_insert :: "nat \<Rightarrow> nat \<Rightarrow> nat \<Rightarrow> nat \<Rightarrow> (nat \<Rightarrow> byte list) \<Rightarrow> bool option" where
  "invalidate_then_insert n stride invalidated inserted buf = do {
     c \<leftarrow> lru_create n 1;
     (evs, c) \<leftarrow> update_all (map (\<lambda>k. (stride * k, buf k)) [0..<n]) c;
     let c = lru_invalidate c invalidated;
     let ex = lru_exists c invalidated;
     (ev, c) \<leftarrow> lru_update c inserted (Some (buf n));
     Some (list_all (\<lambda>ev. ev = None) evs \<and> \<not> ex \<and> ev = None) }"

definition test_insert_invalidated :: "(nat \<Rightarrow> byte list) \<Rightarrow> bool option" where
  "test_insert_invalidated = invalidate_then_insert 8 1 6 6"

definition test_insert_off_by_one :: "(nat \<Rightarrow> byte list) \<Rightarrow> bool option" where
  "test_insert_off_by_one = invalidate_then_insert 8 2 6 (6 - 1)"

definition test_invalidate_less :: "(nat \<Rightarrow> byte list) \<Rightarrow> bool option" where
  "test_invalidate_less = invalidate_then_insert 16 2 4 7"

definition test_invalidate_greater :: "(nat \<Rightarrow> byte list) \<Rightarrow> bool option" where
  "test_invalidate_greater = invalidate_then_insert 16 2 12 7"

subsection \<open>What the loops do to a cache\<close>

lemma lru_exists_iff: "lru_wf c \<Longrightarrow> lru_exists c k \<longleftrightarrow> lru_map c k \<noteq> None"
  by (simp add: lru_exists_def lower_bound_find_exact_iff)

lemma lru_create_dense: "lru_create n sz = Some (c :: ('k::linorder, 'd) flat_lru) \<Longrightarrow>
  lru_dense c \<and> recency_list c = [] \<and> cache_len_max c = n \<and> cache_item_sz c = sz"
  by (auto simp: lru_create_def lru_dense_def lru_wf_def items_ok_def refs_distinct_def recency_list_def split: if_splits)

text \<open>Keys that are not there yet are put in front of the recency list, and the oldest pairs drop out at its end.\<close>

lemma update_all_dense:
  assumes "lru_dense c" "distinct (map fst kvs)" "\<forall>k \<in> fst ` set kvs. map_of (recency_list c) k = None"
    and "length kvs + length (recency_list c) \<le> cache_len_max c"
  shows "\<exists>c'. update_all kvs c = Some (replicate (length kvs) None, c') \<and> lru_dense c' \<and>
    recency_list c' = rev kvs @ recency_list c \<and> cache_len_max c' = cache_len_max c \<and> cache_item_sz c' = cache_item_sz c"
  using assms
proof (induction kvs arbitrary: c)
  case (Cons kv kvs)
  obtain k d where kv: "kv = (k, d)" by (cases kv)
  have m: "map_of (recency_list c) k = None" using Cons.prems(3) kv by simp
  obtain ev c1 where c1: "lru_update c k (Some d) = Some (ev, c1)" "lru_dense c1"
    "(ev, recency_list c1) = rl_put (cache_len_max c) k d (recency_list c)"
    using lru_update_dense [OF Cons.prems(1)] by blast
  have e: "ev = None" "recency_list c1 = (k, d) # recency_list c"
    using c1(3) m Cons.prems(4) by (simp_all add: rl_put_def)
  have l: "cache_len_max c1 = cache_len_max c" "cache_item_sz c1 = cache_item_sz c"
    using lru_update_len [OF c1(1)] lru_update_sz [OF c1(1)] by simp_all
  have "\<forall>k \<in> fst ` set kvs. map_of (recency_list c1) k = None" using Cons.prems(2,3) kv by (auto simp: e(2))
  then show ?case using Cons.IH [OF c1(2)] Cons.prems(2,4) l c1(1) by (auto simp: kv e)
qed simp

lemma update_all_full:
  assumes "lru_dense c" "distinct (map fst kvs)" "\<forall>k \<in> fst ` set kvs. map_of (recency_list c) k = None"
    and "length (recency_list c) = cache_len_max c" "length kvs \<le> cache_len_max c"
  shows "\<exists>c'. update_all kvs c = Some (map Some (take (length kvs) (rev (recency_list c))), c')"
  using assms
proof (induction kvs arbitrary: c)
  case (Cons kv kvs)
  obtain k d where kv: "kv = (k, d)" by (cases kv)
  let ?l = "recency_list c"
  have m: "map_of ?l k = None" using Cons.prems(3) kv by simp
  obtain ev c1 where c1: "lru_update c k (Some d) = Some (ev, c1)" "lru_dense c1"
    "(ev, recency_list c1) = rl_put (cache_len_max c) k d ?l"
    using lru_update_dense [OF Cons.prems(1)] by blast
  have "0 < length ?l" using Cons.prems(5) unfolding Cons.prems(4) by simp
  then have ne: "?l \<noteq> []" unfolding length_greater_0_conv .
  have e: "ev = Some (last ?l)" "recency_list c1 = (k, d) # butlast ?l"
    using c1(3) m Cons.prems(4) by (simp_all add: rl_put_def)
  have l: "cache_len_max c1 = cache_len_max c" using lru_update_len [OF c1(1)] .
  have "\<forall>k \<in> fst ` set kvs. map_of (recency_list c1) k = None"
    using Cons.prems(2,3) kv by (auto simp: e(2) map_of_eq_None_iff dest!: in_set_butlastD)
  moreover have "length (recency_list c1) = cache_len_max c1" 
    using \<open>0 < length ?l\<close> Cons.prems(4) by (simp add: e(2) l del: length_recency_list)
  ultimately obtain c' where c': "update_all kvs c1 = Some (map Some (take (length kvs) (rev (recency_list c1))), c')"
    using Cons.IH [OF c1(2)] Cons.prems(2,5) l by auto
  have "rev ?l = last ?l # rev (butlast ?l)" using ne by (metis append_butlast_last_id rev_eq_Cons_iff rev_rev_ident)
  moreover have "take (length kvs) (rev (recency_list c1)) = take (length kvs) (rev (butlast ?l))"
    using Cons.prems(4,5) by (simp add: e(2))
  ultimately have t: "take (length (kv # kvs)) (rev ?l) = last ?l # take (length kvs) (rev (recency_list c1))"
    by (metis length_Cons take_Suc_Cons)
  show ?case unfolding t using c1(1) c' by (simp add: kv e(1))
qed simp

lemma expect_absent_ok:
  assumes "lru_wf c" "\<forall>k \<in> set ks. lru_map c k = None"
  shows "\<exists>c'. expect_absent ks c = Some (True, c') \<and> lru_wf c' \<and> lru_map c' = lru_map c"
  using assms
proof (induction ks arbitrary: c)
  case (Cons k ks)
  obtain c1 where c1: "lru_find c k = Some (lru_map c k, c1)" "lru_wf c1" "lru_map c1 = lru_map c"
    using lru_store.find_law [OF Cons.prems(1)] by blast
  then show ?case using Cons.IH [of c1] Cons.prems by (simp add: lru_exists_iff)
qed simp

lemma expect_found_ok:
  assumes "lru_wf c" "\<forall>(k, d) \<in> set kvs. lru_map c k = Some d"
  shows "\<exists>c'. expect_found kvs c = Some (True, c')"
  using assms
proof (induction kvs arbitrary: c)
  case (Cons kv kvs)
  obtain k d where kv: "kv = (k, d)" by (cases kv)
  obtain c1 where c1: "lru_find c k = Some (lru_map c k, c1)" "lru_wf c1" "lru_map c1 = lru_map c"
    using lru_store.find_law [OF Cons.prems(1)] by blast
  then show ?case using Cons.IH [of c1] Cons.prems by (auto simp: kv)
qed simp

lemma overwrite_all_ok:
  assumes "lru_wf c" "\<forall>k \<in> fst ` set kvs. \<exists>b. lru_map c k = Some b \<and> length b = sz" "0 < sz" "distinct (map fst kvs)"
  shows "\<exists>c'. overwrite_all sz kvs c = Some (True, c') \<and> lru_wf c' \<and>
    (\<forall>k. lru_map c' k = (case map_of kvs k of None \<Rightarrow> lru_map c k | Some d \<Rightarrow> Some d))"
  using assms
proof (induction kvs arbitrary: c)
  case (Cons kv kvs)
  obtain k d where kv: "kv = (k, d)" by (cases kv)
  obtain b where b: "lru_map c k = Some b" "length b = sz" using Cons.prems(2) kv by auto
  obtain c1 where c1: "lru_find c k = Some (lru_map c k, c1)" "lru_wf c1" "lru_map c1 = lru_map c"
    using lru_store.find_law [OF Cons.prems(1)] by blast
  let ?c2 = "lru_modify c1 k (\<lambda>_. d)"
  have c2: "lru_wf ?c2" "lru_map ?c2 = (lru_map c)(k := Some d)"
    using lru_modify_store [OF c1(2), of k b "\<lambda>_. d"] b(1) c1(3) by simp_all
  have nk: "k \<notin> fst ` set kvs" using Cons.prems(4) kv by simp
  have "\<exists>b. lru_map ?c2 k' = Some b \<and> length b = sz" if k': "k' \<in> fst ` set kvs" for k'
  proof -
    have "k' \<noteq> k" using k' nk by blast
    moreover have "k' \<in> fst ` set (kv # kvs)" using k' by simp
    then have "\<exists>b. lru_map c k' = Some b \<and> length b = sz" using Cons.prems(2) by blast
    ultimately show ?thesis unfolding c2(2) by simp
  qed
  then obtain c' where c': "overwrite_all sz kvs ?c2 = Some (True, c')" "lru_wf c'"
    "\<forall>k. lru_map c' k = (case map_of kvs k of None \<Rightarrow> lru_map ?c2 k | Some d \<Rightarrow> Some d)"
    using Cons.IH [OF c2(1)] Cons.prems(3,4) by auto
  have "map_of kvs k = None" using nk by (simp add: map_of_eq_None_iff)
  then show ?case using c1(1) b c' Cons.prems(3) by (auto simp: kv c2(2) split: option.splits)
qed simp

lemma invalidate_loop_ok:
  assumes "lru_wf c" "\<forall>k \<in> set pairs. lru_map c k \<noteq> None" "\<forall>k \<in> set keys. lru_map c k = None" "distinct pairs"
  shows "\<exists>c'. invalidate_loop pairs keys c = Some (True, c')"
  using assms
proof (induction pairs arbitrary: keys c)
  case (Cons k pairs)
  let ?c1 = "lru_invalidate c k"
  have c1: "lru_wf ?c1" "lru_map ?c1 = (lru_map c)(k := None)" using lru_store.invalidate_law [OF Cons.prems(1)] by auto
  have "\<forall>k \<in> set (k # keys). lru_map ?c1 k = None" using Cons.prems(3) c1(2) by simp
  then obtain c2 where c2: "expect_absent (k # keys) ?c1 = Some (True, c2)" "lru_wf c2" "lru_map c2 = lru_map ?c1"
    using expect_absent_ok [OF c1(1)] by blast
  have "k' \<noteq> k" if "k' \<in> set pairs" for k' using that Cons.prems(4) by auto
  then have "\<forall>k' \<in> set pairs. lru_map c2 k' \<noteq> None" using Cons.prems(2) c1(2) c2(3) by simp
  moreover have "\<forall>k' \<in> set (k # keys). lru_map c2 k' = None" using Cons.prems(3) c1(2) c2(3) by simp
  ultimately obtain c' where "invalidate_loop pairs (k # keys) c2 = Some (True, c')"
    using Cons.IH [OF c2(2), of "k # keys"] Cons.prems(4) by auto
  moreover have "list_all (lru_exists c) (k # pairs)"
    using Cons.prems(2) lru_exists_iff [OF Cons.prems(1)] by (simp add: list_all_iff)
  ultimately show ?case using c2(1) by (simp del: expect_absent.simps)
qed simp

text \<open>
  After invalidations of a dense cache its invalid slots hold no data, so a new key takes one of them
  and nothing is handed back as evicted, wherever the key belongs.
\<close>

definition lru_tidy :: "('k::linorder, 'd) flat_lru \<Rightarrow> bool" where
  "lru_tidy c \<longleftrightarrow> lru_wf c \<and> (\<forall>v \<in> set (lcache c). \<not> is_valid c v \<longrightarrow> ldata v = None)"

lemma tidy_update_spare:
  assumes tidy: "lru_tidy c" and spare: "v \<in> set (lcache c)" "\<not> is_valid c v" and k: "lru_map c k = None"
  shows "\<exists>c'. lru_update c k d = Some (None, c')"
proof -
  have wf: "lru_wf c" using tidy by (simp add: lru_tidy_def)
  from wf show ?thesis
  proof (cases rule: lru_update_shape [where k = k and d = d, consumes 1])
    case (slot P Q X e Y)
    have e: "e \<in> set (lcache c)" using slot(1) by simp
    have le: "\<forall>v \<in> set (lcache c). lrefs v \<le> cache_len_max c" using wf by (simp add: lru_wf_def items_ok_def)
    have "\<not> is_valid c e"
    proof (cases "e = lcache c ! evict_index_find c")
      case True
      then have "cache_len_max c \<le> lrefs e"
        using evict_index_find_max [OF le spare(1)] spare(2) by (simp add: is_valid_def)
      moreover have "lrefs e \<le> cache_len_max c" using le e by blast
      ultimately show ?thesis by (simp add: is_valid_def)
    next
      case False
      then show ?thesis using slot(6) k e lru_map_None_iff [OF wf, of k] by auto
    qed
    then have "ldata e = None" using tidy e by (simp add: lru_tidy_def)
    then show ?thesis using slot(5) by simp
  next
    case grow
    then show ?thesis by simp
  qed
qed

lemma dense_invalidate_tidy:
  assumes d: "lru_dense c" and j: "lru_map c j \<noteq> None"
  shows "lru_tidy (lru_invalidate c j) \<and> (\<exists>v \<in> set (lcache (lru_invalidate c j)). \<not> is_valid (lru_invalidate c j) v)"
proof -
  note f = lru_dense_facts [OF d]
  have hit: "snd (lower_bound_find c j)" using lower_bound_find_exact_iff [OF f(1)] j by simp
  let ?i = "fst (lower_bound_find c j)" and ?c = "lru_invalidate c j"
  have i: "?i < length (lcache c)" using lower_bound_find_hit(1) [OF f(1) hit] .
  have c: "?c = c\<lparr>lcache := (lcache c)[?i := invalidate_item c (lcache c ! ?i)]\<rparr>"
    using hit by (simp add: lru_invalidate_def case_prod_beta' invalidate_index_def)
  have v: "is_valid ?c = is_valid c" by (simp add: c is_valid_def fun_eq_iff)
  have n: "\<not> is_valid c (invalidate_item c x)" "ldata (invalidate_item c x) = None" for x
    by (simp_all add: is_valid_def invalidate_item_def)
  have "lru_wf ?c" using lru_store.invalidate_law [OF f(1)] by blast
  moreover have "u = invalidate_item c (lcache c ! ?i)" if "u \<in> set (lcache ?c)" "\<not> is_valid c u" for u
    using that f(4) set_update_subset_insert [of "lcache c" ?i "invalidate_item c (lcache c ! ?i)"] by (auto simp: c)
  ultimately have "lru_tidy ?c" using n(2) by (auto simp: lru_tidy_def v)
  moreover have "invalidate_item c (lcache c ! ?i) \<in> set (lcache ?c)" using i by (simp add: c set_update_memI)
  ultimately show ?thesis using n(1) by (auto simp: v)
qed

subsection \<open>The tests pass\<close>

text \<open>A shuffle of the first \<open>n\<close> keys, all inserted.\<close>

lemma filled:
  fixes f :: "nat \<Rightarrow> nat"
  assumes "n \<noteq> 0" "sz \<noteq> 0" "inj f" "distinct ks" "length ks \<le> n"
  shows "\<exists>c c'. lru_create n sz = Some c \<and> update_all (map (\<lambda>k. (f k, buf k)) ks) c = Some (replicate (length ks) None, c') \<and>
    lru_dense c' \<and> cache_len_max c' = n \<and> cache_item_sz c' = sz \<and> recency_list c' = rev (map (\<lambda>k. (f k, buf k)) ks)"
proof -
  obtain c :: test_lru where new: "lru_create n sz = Some c" using assms(1,2) by (simp add: lru_create_def)
  note c = lru_create_dense [OF new]
  have "distinct (map fst (map (\<lambda>k. (f k, buf k)) ks))"
    using assms(3,4) by (auto simp: comp_def distinct_map inj_on_def inj_def)
  then show ?thesis using new update_all_dense [of c "map (\<lambda>k. (f k, buf k)) ks"] c assms(5) by auto
qed

lemma filled_map:
  assumes "lru_dense c" "recency_list c = rev (map (\<lambda>k. (f k, buf k)) ks)"
  shows "inj f \<Longrightarrow> k \<in> set ks \<Longrightarrow> lru_map c (f k) = Some (buf k)"
    "k' \<notin> f ` set ks \<Longrightarrow> lru_map c k' = None"
proof -
  note m = map_of_recency_list [OF assms(1), symmetric] and d = recency_list_keys [OF lru_dense_facts(1) [OF assms(1)]]
  show "k' \<notin> f ` set ks \<Longrightarrow> lru_map c k' = None" for k' unfolding m by (auto simp: assms(2) map_of_eq_None_iff)
  assume "inj f" "k \<in> set ks"
  then show "lru_map c (f k) = Some (buf k)" unfolding m map_of_eq_Some_iff [OF d] by (simp add: assms(2))
qed

lemma list_all_replicate [simp]: "list_all (\<lambda>x. x = a) (replicate n a)"
  by (simp add: list_all_iff)

text \<open>The two ways the tests fill a cache: the keys in a random order, or in ascending order a stride apart.\<close>

lemma shuffled_cache:
  assumes "mset shuffled = mset [0..<32]" "sz \<noteq> 0"
  obtains c c' where "lru_create 32 sz = Some c" "update_all (map (\<lambda>k. (k, buf k)) shuffled) c = Some (replicate 32 None, c')"
    "lru_wf c'" "cache_item_sz c' = sz" "\<forall>k < 32. lru_map c' k = Some (buf k)" "\<forall>k \<ge> 32. lru_map c' k = None"
proof -
  have s: "distinct shuffled" "length shuffled = 32" "set shuffled = {0..<32}"
    using mset_eq_imp_distinct_iff [OF assms(1)] mset_eq_length [OF assms(1)] mset_eq_setD [OF assms(1)] by simp_all
  obtain c c' where c: "lru_create 32 sz = Some c" "update_all (map (\<lambda>k. (k, buf k)) shuffled) c = Some (replicate 32 None, c')"
    "lru_dense c'" "cache_item_sz c' = sz" "recency_list c' = rev (map (\<lambda>k. (k, buf k)) shuffled)"
    using filled [of 32 sz "\<lambda>k. k" shuffled buf] assms(2) s(1,2) by auto
  have "\<forall>k < 32. lru_map c' k = Some (buf k)" using filled_map(1) [OF c(3,5)] s(3) by simp
  moreover have "\<forall>k \<ge> 32. lru_map c' k = None" using filled_map(2) [OF c(3,5)] s(3) by simp
  ultimately show ?thesis using that c lru_dense_facts(1) [OF c(3)] by blast
qed

lemma find_non_existent_ok:
  assumes "\<forall>k \<in> set keys. 32 \<le> k"
  shows "test_find_non_existent buf keys = Some True"
proof (rule shuffled_cache [OF refl, of 1 buf])
  fix c c'
  assume c: "lru_create 32 1 = Some c" "update_all (map (\<lambda>k. (k, buf k)) [0..<32]) c = Some (replicate 32 None, c')"
    "lru_wf c'" "\<forall>k \<ge> 32. lru_map c' k = None"
  then have "\<forall>k \<in> set keys. lru_map c' k = None" using assms by simp
  with c show ?thesis using expect_absent_ok [OF c(3), of keys]
    by (auto simp: test_find_non_existent_def simp del: upt_Suc replicate.simps)
qed simp

lemma insert_and_find_ok:
  assumes "mset shuffled = mset [0..<32]"
  shows "test_insert_and_find buf shuffled = Some True"
proof (rule shuffled_cache [OF assms, of 16 buf])
  fix c c'
  assume c: "lru_create 32 16 = Some c" "update_all (map (\<lambda>k. (k, buf k)) shuffled) c = Some (replicate 32 None, c')"
    "lru_wf c'" "\<forall>k < 32. lru_map c' k = Some (buf k)"
  then have "\<forall>(k, d) \<in> set (map (\<lambda>k. (k, buf k)) [0..<32]). lru_map c' k = Some d" by auto
  with c show ?thesis using expect_found_ok [OF c(3), of "map (\<lambda>k. (k, buf k)) [0..<32]"]
    by (auto simp: test_insert_and_find_def simp del: upt_Suc replicate.simps)
qed simp

lemma find_mutable_ok:
  assumes "mset shuffled = mset [0..<32]" "\<forall>k. length (buf k) = 16"
  shows "test_find_mutable buf buf_dup shuffled = Some True"
proof (rule shuffled_cache [OF assms(1), of 16 buf])
  fix c c'
  assume c: "lru_create 32 16 = Some c" "update_all (map (\<lambda>k. (k, buf k)) shuffled) c = Some (replicate 32 None, c')"
    "lru_wf c'" "\<forall>k < 32. lru_map c' k = Some (buf k)"
  let ?kvs = "map (\<lambda>k. (k, buf_dup k)) [0..<32]"
  have m: "map_of ?kvs k = (if k < 32 then Some (buf_dup k) else None)" for k
    by (auto simp: map_of_map_restrict restrict_map_def)
  have "\<forall>k \<in> fst ` set ?kvs. \<exists>b. lru_map c' k = Some b \<and> length b = 16" using c(4) assms(2) by auto
  moreover have "distinct (map fst ?kvs)" by (simp add: comp_def)
  ultimately obtain c2 where c2: "overwrite_all 16 ?kvs c' = Some (True, c2)" "lru_wf c2"
    "\<forall>k. lru_map c2 k = (case map_of ?kvs k of None \<Rightarrow> lru_map c' k | Some d \<Rightarrow> Some d)"
    using overwrite_all_ok [OF c(3), of ?kvs 16] by (simp del: upt_Suc) blast
  then have "\<forall>(k, d) \<in> set ?kvs. lru_map c2 k = Some d" unfolding m by auto
  with c(1,2) c2 show ?thesis using expect_found_ok [OF c2(2), of ?kvs]
    by (auto simp: test_find_mutable_def simp del: upt_Suc replicate.simps)
qed simp

lemma invalidate_ok:
  assumes "mset shuffled = mset [0..<32]"
  shows "test_invalidate buf shuffled = Some True"
proof (rule shuffled_cache [OF assms, of 1 buf])
  fix c c'
  assume c: "lru_create 32 1 = Some c" "update_all (map (\<lambda>k. (k, buf k)) shuffled) c = Some (replicate 32 None, c')"
    "lru_wf c'" "\<forall>k < 32. lru_map c' k = Some (buf k)"
  have s: "set (rev shuffled) = {0..<32}" "distinct (rev shuffled)"
    using mset_eq_imp_distinct_iff [OF assms] mset_eq_setD [OF assms] by simp_all
  then have "\<forall>k \<in> set (rev shuffled). lru_map c' k \<noteq> None" using c(4) by simp
  with c show ?thesis using invalidate_loop_ok [OF c(3), of "rev shuffled" "[]"] s(2)
    by (auto simp: test_invalidate_def simp del: upt_Suc replicate.simps)
qed simp

lemma invalidate_range_ok:
  assumes "mset shuffled = mset [0..<32]"
  shows "test_invalidate_range buf shuffled = Some True"
proof (rule shuffled_cache [OF assms, of 1 buf])
  fix c c'
  assume c: "lru_create 32 1 = Some c" "update_all (map (\<lambda>k. (k, buf k)) shuffled) c = Some (replicate 32 None, c')"
    "lru_wf c'" "\<forall>k < 32. lru_map c' k = Some (buf k)" "\<forall>k \<ge> 32. lru_map c' k = None"
  have s: "set shuffled = {0..<32}" "length shuffled = 32"
    using mset_eq_length [OF assms] mset_eq_setD [OF assms] by simp_all
  then have "list_all (lru_exists c') shuffled" using c(4) lru_exists_iff [OF c(3)] by (simp add: list_all_iff)
  moreover obtain c2 where c2: "lru_invalidate_range c' (0, 32) = Some c2" "lru_wf c2"
    "lru_map c2 = (\<lambda>k. if 0 \<le> k \<and> k < 32 then None else lru_map c' k)"
    using lru_store.invalidate_range_law [OF c(3), of 0 32] by auto
  moreover have "\<forall>k \<in> set shuffled. lru_map c2 k = None" using s(1) c2(3) by simp
  ultimately show ?thesis using c(1,2) s(2) expect_absent_ok [OF c2(2), of shuffled]
    by (auto simp: test_invalidate_range_def simp del: upt_Suc replicate.simps)
qed simp

lemma evict_in_order_ok: "test_evict_in_order buf = Some True"
proof -
  obtain c c' where c: "lru_create 32 1 = Some c" "update_all (map (\<lambda>k. (k, buf k)) [0..<32]) c = Some (replicate 32 None, c')"
    "lru_dense c'" "cache_len_max c' = 32" "recency_list c' = rev (map (\<lambda>k. (k, buf k)) [0..<32])"
    using filled [of 32 1 "\<lambda>k. k" "[0..<32]" buf] by auto
  let ?kvs = "map (\<lambda>k. (k, buf k)) [32..<64]"
  have k: "map fst ?kvs = [32..<64]" by (simp add: comp_def)
  have len: "length (recency_list c') = cache_len_max c'" unfolding c(4,5) by simp
  have "\<forall>k \<in> fst ` set ?kvs. map_of (recency_list c') k = None"
    unfolding set_map [symmetric] k map_of_eq_None_iff by (auto simp: c(5))
  from update_all_full [OF c(3) _ this len] obtain c2 where
    c2: "update_all ?kvs c' = Some (map Some (take (length ?kvs) (rev (recency_list c'))), c2)"
    unfolding k c(4) by auto
  have e: "map (map_option fst) (map Some (take (length ?kvs) (rev (recency_list c')))) = map Some [0..<32]"
    by (simp add: c(5) comp_def)
  have "map Some [0..<n] = map (\<lambda>k. Some (k - n)) [n..<n + n]" for n :: nat by (intro nth_equalityI) auto
  from this [of 32] have "map Some [0..<32] = map (\<lambda>k. Some (k - 32)) [32..<64]" by (simp del: upt_rec_numeral)
  then show ?thesis using c(1,2) c2 e
    by (simp add: test_evict_in_order_def del: upt_Suc upt_rec_numeral replicate.simps map_map)
qed

text \<open>
  The four tests of an insertion after an invalidation, for any number of keys, any stride and any new
  key that is not one of the others: nothing is handed back as evicted.
\<close>

lemma invalidate_then_insert_ok:
  assumes "j < n" "0 < stride" "\<forall>i < n. i \<noteq> j \<longrightarrow> inserted \<noteq> stride * i"
  shows "invalidate_then_insert n stride (stride * j) inserted buf = Some True"
proof -
  have inj: "inj (\<lambda>k. stride * k)" using assms(2) by (auto intro: injI)
  obtain c c' where c: "lru_create n 1 = Some c"
    "update_all (map (\<lambda>k. (stride * k, buf k)) [0..<n]) c = Some (replicate n None, c')"
    "lru_dense c'" "recency_list c' = rev (map (\<lambda>k. (stride * k, buf k)) [0..<n])"
    using filled [of n 1 "\<lambda>k. stride * k" "[0..<n]" buf] assms(1) inj by auto
  note f = lru_dense_facts(1) [OF c(3)]
  have j: "lru_map c' (stride * j) \<noteq> None" using filled_map(1) [OF c(3,4) inj, of j] assms(1) by simp
  let ?c = "lru_invalidate c' (stride * j)"
  have i: "lru_wf ?c" "lru_map ?c = (lru_map c')(stride * j := None)" using lru_store.invalidate_law [OF f] by auto
  have "lru_map ?c inserted = None"
  proof (cases "inserted = stride * j")
    case False
    then have "inserted \<notin> (\<lambda>k. stride * k) ` set [0..<n]" using assms(3) by auto
    then show ?thesis using filled_map(2) [OF c(3,4)] i(2) False by simp
  qed (simp add: i(2))
  then obtain c2 where "lru_update ?c inserted (Some (buf n)) = Some (None, c2)"
    using dense_invalidate_tidy [OF c(3) j] tidy_update_spare by blast
  moreover have "\<not> lru_exists ?c (stride * j)" using lru_exists_iff [OF i(1)] i(2) by simp
  ultimately show ?thesis using c(1,2) by (simp add: invalidate_then_insert_def)
qed



end
