(* ===== verification/Target_Tests.thy ===== *)
theory Target_Tests
  imports Raid0 Raid1 Raid45
begin

text \<open>
  Unit tests of the targets under \<open>ut/\<close>, run on the model: the failure and coherency tests of the
  arrays with mock handlers, and the tests of the memory target.  A strict mock is the list of calls it expects, each
  with the value it returns and the error it sets on the query; an unexpected call is \<open>None\<close>, and a
  test also checks that no expected call is left.  The contents of the buffers, random in the tests,
  are arguments.
\<close>

subsection \<open>Mock handlers\<close>

datatype mock_call = MockRead int int | MockWrite int int

type_synonym mock = "mock_call list"

fun mock_read :: "mock read_fn" where
  "mock_read off buf (MockRead ret e # m) = Some (ret, e, buf, m)"
| "mock_read off buf _ = None"

fun mock_write :: "mock write_fn" where
  "mock_write off buf (MockWrite ret e # m) = Some (ret, e, m)"
| "mock_write off buf _ = None"

definition mock_ops :: "mock rw_handler" where
  "mock_ops = \<lparr>submit_rd = mock_read, submit_wr = mock_write\<rparr>"

text \<open>
  A first request that fails with the given return value and error, the state, and a second request
  that is refused.
\<close>

definition goes_offline ::
    "'b read_fn \<Rightarrow> 'b write_fn \<Rightarrow> ('b \<Rightarrow> mock list) \<Rightarrow> request \<Rightarrow> request \<Rightarrow> int \<Rightarrow> int \<Rightarrow> 'b option \<Rightarrow> bool option" where
  "goes_offline r w mocks q1 q2 ret err be = do {
     b \<leftarrow> be;
     (r1, e1, t) \<leftarrow> target_step r w q1 \<lparr>fsm = Online, backend = b\<rparr>;
     let offline = (fsm t = Offline);
     (r2, e2, t) \<leftarrow> target_step r w q2 t;
     Some (r1 = ret \<and> e1 = err \<and> offline \<and> r2 = EIO \<and> e2 = 0 \<and> list_all (\<lambda>m. m = []) (mocks (backend t))) }"

subsection \<open>RAID0\<close>

definition raid0_fixture :: "mock list \<Rightarrow> mock raid0 option" where
  "raid0_fixture hs = raid0_create 4096 (map Some hs)"

definition raid0_goes_offline :: "request \<Rightarrow> request \<Rightarrow> int \<Rightarrow> int \<Rightarrow> mock list \<Rightarrow> bool option" where
  "raid0_goes_offline q1 q2 ret err hs =
     goes_offline (raid0_read mock_ops) (raid0_write mock_ops) r0_hs q1 q2 ret err (raid0_fixture hs)"

definition raid0_submit_read :: "byte list \<Rightarrow> bool option" where
  "raid0_submit_read buf = raid0_goes_offline (Rd 0 buf) (Rd 0 (subspan buf 0 4096)) EIO 0 [[MockRead 0 0], [MockRead EIO 0]]"

definition raid0_complete_read :: "byte list \<Rightarrow> bool option" where
  "raid0_complete_read buf = raid0_goes_offline (Rd 0 buf) (Rd 0 (subspan buf 0 4096)) 0 EIO [[MockRead 0 0], [MockRead 0 EIO]]"

definition raid0_submit_write :: "byte list \<Rightarrow> bool option" where
  "raid0_submit_write buf = raid0_goes_offline (Wr 0 buf) (Wr 0 (subspan buf 0 4096)) EIO 0 [[MockWrite 0 0], [MockWrite EIO 0]]"

definition raid0_complete_write :: "byte list \<Rightarrow> bool option" where
  "raid0_complete_write buf = raid0_goes_offline (Wr 0 buf) (Wr 0 (subspan buf 0 4096)) 0 EIO [[MockWrite 0 0], [MockWrite 0 EIO]]"

lemma fixture0: "raid0_fixture hs = (if hs = [] then None else Some \<lparr>r0_strip_sz = 4096, r0_strip_shift = 12, r0_hs = hs\<rparr>)"
proof -
  have "\<exists>n\<le>4096. (4096 :: nat) = 2 ^ n" by (intro exI [of _ 12]) simp
  moreover have "countr_zero (2 ^ 12) = 12" by (rule countr_zero_exp)
  then have "countr_zero 4096 = 12" by simp
  ultimately show ?thesis by (simp add: raid0_fixture_def raid0_create_def o_def)
qed

lemmas test_simps = goes_offline_def target_read_def target_write_def fsm_rq_def fsm_wq_def subquery_eq mock_ops_def

lemma raid0_offline_ok:
  assumes "length buf = 8192"
  shows "raid0_submit_read buf = Some True" "raid0_complete_read buf = Some True"
    "raid0_submit_write buf = Some True" "raid0_complete_write buf = Some True"
proof -
  have b: "buf \<noteq> []" "subspan buf 0 8192 = buf" "subspan buf 0 4096 \<noteq> []"
    using assms by (auto simp: subspan_def)
  note s = raid0_goes_offline_def fixture0 test_simps b assms
  show "raid0_submit_read buf = Some True" "raid0_complete_read buf = Some True"
    by (simp_all add: raid0_submit_read_def raid0_complete_read_def raid0_read_def raid0_read_loop.simps fsm_fail_def s)
  show "raid0_submit_write buf = Some True" "raid0_complete_write buf = Some True"
    by (simp_all add: raid0_submit_write_def raid0_complete_write_def raid0_write_def raid0_write_loop.simps fsm_fail_def s)
qed

subsection \<open>RAID1\<close>

definition raid1_fixture :: "mock list \<Rightarrow> mock raid1 option" where
  "raid1_fixture hs = raid1_create 512 (map Some hs)"

definition raid1_goes_offline :: "request \<Rightarrow> request \<Rightarrow> int \<Rightarrow> int \<Rightarrow> mock list \<Rightarrow> bool option" where
  "raid1_goes_offline q1 q2 ret err hs =
     goes_offline (raid1_read mock_ops) (raid1_write mock_ops) r1_hs q1 q2 ret err (raid1_fixture hs)"

definition raid1_submit_read :: "byte list \<Rightarrow> bool option" where
  "raid1_submit_read buf = raid1_goes_offline (Rd 0 buf) (Rd 0 (subspan buf 0 512)) EIO 0 [[MockRead 0 0], [MockRead EIO 0]]"

definition raid1_complete_read :: "byte list \<Rightarrow> bool option" where
  "raid1_complete_read buf = raid1_goes_offline (Rd 0 buf) (Rd 0 (subspan buf 0 512)) 0 EIO [[MockRead 0 0], [MockRead 0 EIO]]"

definition raid1_submit_write :: "byte list \<Rightarrow> bool option" where
  "raid1_submit_write buf = raid1_goes_offline (Wr 0 buf) (Wr 0 buf) EIO 0 [[MockWrite 0 0], [MockWrite EIO 0]]"

definition raid1_complete_write :: "byte list \<Rightarrow> bool option" where
  "raid1_complete_write buf = raid1_goes_offline (Wr 0 buf) (Wr 0 buf) 0 EIO [[MockWrite 0 0], [MockWrite 0 EIO]]"

lemma fixture1: "raid1_fixture [g, h] = Some \<lparr>r1_read_strip_sz = 512, r1_next_hid = 0, r1_hs = [g, h]\<rparr>"
  by (simp add: raid1_fixture_def raid1_create_def)

lemma raid1_offline_ok:
  shows "length buf = 1024 \<Longrightarrow> raid1_submit_read buf = Some True" "length buf = 1024 \<Longrightarrow> raid1_complete_read buf = Some True"
    "length buf = 64 \<Longrightarrow> raid1_submit_write buf = Some True" "length buf = 64 \<Longrightarrow> raid1_complete_write buf = Some True"
proof -
  show "raid1_submit_read buf = Some True" "raid1_complete_read buf = Some True" if "length buf = 1024"
  proof -
    have b: "buf \<noteq> []" "subspan buf 0 1024 = buf" "subspan buf 0 512 \<noteq> []" "subspan buf 512 512 \<noteq> []"
      using that by (auto simp: subspan_def)
    note s = raid1_goes_offline_def fixture1 test_simps b that raid1_read_def raid1_read_loop.simps fsm_fail_def
    show "raid1_submit_read buf = Some True" "raid1_complete_read buf = Some True"
      by (simp_all add: raid1_submit_read_def raid1_complete_read_def s)
  qed
  show "raid1_submit_write buf = Some True" "raid1_complete_write buf = Some True" if "length buf = 64"
  proof -
    have b: "buf \<noteq> []" "subspan buf 0 64 = buf" using that by (auto simp: subspan_def)
    note s = raid1_goes_offline_def fixture1 test_simps b that raid1_write_def fsm_fail_def
    show "raid1_submit_write buf = Some True" "raid1_complete_write buf = Some True"
      by (simp_all add: raid1_submit_write_def raid1_complete_write_def s)
  qed
qed

subsection \<open>RAID4 and RAID5\<close>

text \<open>The test files of the two differ in the target they construct.\<close>

type_synonym 'c sp_create = "nat \<Rightarrow> 'c option list \<Rightarrow> 'c acceptor option"

definition sp_fixture :: "'c sp_create \<Rightarrow> 'c list \<Rightarrow> 'c acceptor option" where
  "sp_fixture create hs = create 4096 (map Some hs)"

definition sp_goes_offline :: "mock sp_create \<Rightarrow> request \<Rightarrow> request \<Rightarrow> int \<Rightarrow> int \<Rightarrow> mock list \<Rightarrow> bool option" where
  "sp_goes_offline create q1 q2 ret err hs =
     goes_offline (acc_read mock_ops) (acc_write mock_ops) (\<lambda>acc. sp_hs (acc_be acc)) q1 q2 ret err (sp_fixture create hs)"

definition sp_submit_read :: "mock sp_create \<Rightarrow> byte list \<Rightarrow> bool option" where
  "sp_submit_read create buf = sp_goes_offline create (Rd 0 buf) (Rd 0 (subspan buf 0 4096)) EIO 0
     [[MockRead 0 0], [MockRead EIO 0], []]"

definition sp_complete_read :: "mock sp_create \<Rightarrow> byte list \<Rightarrow> bool option" where
  "sp_complete_read create buf = sp_goes_offline create (Rd 0 buf) (Rd 0 (subspan buf 0 4096)) 0 EIO
     [[MockRead 0 0], [MockRead 0 EIO], []]"

definition sp_submit_data_write :: "mock sp_create \<Rightarrow> byte list \<Rightarrow> bool option" where
  "sp_submit_data_write create buf = sp_goes_offline create (Wr 0 buf) (Wr 0 (subspan buf 0 4096)) EIO 0
     [[MockWrite 0 0], [MockWrite EIO 0], []]"

definition sp_submit_parity_write :: "mock sp_create \<Rightarrow> byte list \<Rightarrow> bool option" where
  "sp_submit_parity_write create buf = sp_goes_offline create (Wr 0 buf) (Wr 0 (subspan buf 0 4096)) EIO 0
     [[MockWrite 0 0], [MockWrite 0 0], [MockWrite EIO 0]]"

definition sp_complete_data_write :: "mock sp_create \<Rightarrow> byte list \<Rightarrow> bool option" where
  "sp_complete_data_write create buf = sp_goes_offline create (Wr 0 buf) (Wr 0 (subspan buf 0 4096)) 0 EIO
     [[MockWrite 0 0], [MockWrite 0 EIO], [MockWrite 0 0]]"

definition sp_complete_parity_write :: "mock sp_create \<Rightarrow> byte list \<Rightarrow> bool option" where
  "sp_complete_parity_write create buf = sp_goes_offline create (Wr 0 buf) (Wr 0 (subspan buf 0 4096)) 0 EIO
     [[MockWrite 0 0], [MockWrite 0 0], [MockWrite 0 EIO]]"

text \<open>A stripe array of three handlers with strips of 4096 bytes and the parity of stripe 0 on the last one.\<close>

definition sp3 :: "(nat \<Rightarrow> nat) \<Rightarrow> 'c list \<Rightarrow> 'c raidsp" where
  "sp3 pid hs = \<lparr>sp_strip_sz = 4096, sp_stripe_data_sz = 8192, sp_stripe_sz = 12288, sp_pid = pid, sp_hs = hs\<rparr>"

lemma sp_fixture_eq:
  "sp_fixture raid4_create [f, g, h] = Some \<lparr>acc_be = sp3 (raid4_parity 3) [f, g, h], acc_lock = [], acc_coherent = []\<rparr>"
  "sp_fixture raid5_create [f, g, h] = Some \<lparr>acc_be = sp3 (raid5_parity 3) [f, g, h], acc_lock = [], acc_coherent = []\<rparr>"
proof -
  have "\<exists>n\<le>4096. (4096 :: nat) = 2 ^ n" by (intro exI [of _ 12]) simp
  then show "sp_fixture raid4_create [f, g, h] = Some \<lparr>acc_be = sp3 (raid4_parity 3) [f, g, h], acc_lock = [], acc_coherent = []\<rparr>"
    "sp_fixture raid5_create [f, g, h] = Some \<lparr>acc_be = sp3 (raid5_parity 3) [f, g, h], acc_lock = [], acc_coherent = []\<rparr>"
    by (simp_all add: sp_fixture_def raid4_create_def raid5_create_def acceptor_create_def raidsp_create_def sp3_def numeral_3_eq_3)
qed

lemma full_stripe_parity: "length buf = 8192 \<Longrightarrow> parity_renew 0 buf 0 (replicate 4096 0) = Some (parity_of 4096 buf)"
  by (simp add: parity_renew_eq)

lemma sp_offline_ok:
  assumes "length buf = 8192"
    and "\<And>f g h. sp_fixture create [f, g, h] = Some \<lparr>acc_be = sp3 pid [f, g, h], acc_lock = [], acc_coherent = []\<rparr>"
    and "pid 0 = 2"
  shows "sp_submit_read create buf = Some True" "sp_complete_read create buf = Some True"
    "sp_submit_data_write create buf = Some True" "sp_submit_parity_write create buf = Some True"
    "sp_complete_data_write create buf = Some True" "sp_complete_parity_write create buf = Some True"
proof -
  have b: "buf \<noteq> []" "subspan buf 0 8192 = buf" "subspan buf 0 4096 \<noteq> []" "subspan buf 4096 4096 \<noteq> []"
    using assms(1) by (auto simp: subspan_def)
  have v: "handlers_data_view (Suc (Suc (Suc 0))) 2 0 2 = Some [0, 1]"
    by (simp add: handlers_data_view_def upt_rec)
  have u: "strips_round_up 8192 4096 = 2" "strips_round_up 8192 8192 = Suc 0" by (simp_all add: strips_round_up_def)
  note s = sp_goes_offline_def assms(2,3) test_simps b assms(1) v u fsm_fail_def sp3_def
  show "sp_submit_read create buf = Some True" "sp_complete_read create buf = Some True"
    by (simp_all add: sp_submit_read_def sp_complete_read_def acc_read_def sp_data_read_def sp_data_read_loop.simps s)
  have p: "parity_of 4096 buf \<noteq> []" "subspan (parity_of 4096 buf) 0 4096 = parity_of 4096 buf"
    unfolding length_0_conv [symmetric] by (simp_all add: subspan_def)
  note w = s full_stripe_parity p acc_write_def acc_write_loop.simps acc_process_stripe_def stripe_data_write_def
    stripe_write_def is_stripe_parity_coherent_def stripe_incoherent_parity_write_def sp_stripe_write_def
    acc_complete_def lk_extend_def bs_resize_def lk_try_lock_def lk_unlock_def Let_def
  show "sp_submit_data_write create buf = Some True" by (simp add: sp_submit_data_write_def w)
  show "sp_submit_parity_write create buf = Some True" by (simp add: sp_submit_parity_write_def w)
  show "sp_complete_data_write create buf = Some True" by (simp add: sp_complete_data_write_def w)
  show "sp_complete_parity_write create buf = Some True" by (simp add: sp_complete_parity_write_def w)
qed

text \<open>The six tests of each array.\<close>

definition raid4_offline_tests :: "byte list \<Rightarrow> bool option list" where
  "raid4_offline_tests buf = map (\<lambda>test. test raid4_create buf)
     [sp_submit_read, sp_complete_read, sp_submit_data_write, sp_submit_parity_write,
      sp_complete_data_write, sp_complete_parity_write]"

definition raid5_offline_tests :: "byte list \<Rightarrow> bool option list" where
  "raid5_offline_tests buf = map (\<lambda>test. test raid5_create buf)
     [sp_submit_read, sp_complete_read, sp_submit_data_write, sp_submit_parity_write,
      sp_complete_data_write, sp_complete_parity_write]"

lemma raid45_offline_ok:
  assumes "length buf = 8192"
  shows "list_all (\<lambda>t. t = Some True) (raid4_offline_tests buf)" "list_all (\<lambda>t. t = Some True) (raid5_offline_tests buf)"
proof -
  have "raid4_parity 3 0 = 2" "raid5_parity 3 0 = 2" by (simp_all add: raid4_parity_def raid5_parity_def)
  then show "list_all (\<lambda>t. t = Some True) (raid4_offline_tests buf)" "list_all (\<lambda>t. t = Some True) (raid5_offline_tests buf)"
    by (simp_all add: raid4_offline_tests_def raid5_offline_tests_def
        sp_offline_ok [OF assms sp_fixture_eq(1)] sp_offline_ok [OF assms sp_fixture_eq(2)])
qed

subsection \<open>Coherent stripes\<close>

text \<open>Mocks that accept any number of writes.\<close>

definition accept_ops :: "unit rw_handler" where
  "accept_ops = \<lparr>submit_rd = (\<lambda>off buf h. None), submit_wr = (\<lambda>off buf h. Some (0, 0, h))\<rparr>"

definition coherency_fixture :: "unit sp_create \<Rightarrow> unit acceptor target option" where
  "coherency_fixture create = map_option (\<lambda>acc. \<lparr>fsm = Online, backend = acc\<rparr>) (sp_fixture create [(), (), ()])"

fun coherent_one_by_one :: "byte list \<Rightarrow> (nat \<Rightarrow> nat list) \<Rightarrow> nat list \<Rightarrow> unit acceptor target \<Rightarrow> bool option" where
  "coherent_one_by_one buf rest [] t = Some True"
| "coherent_one_by_one buf rest (s # ss) t = do {
     (r, e, t) \<leftarrow> raidsp_target_write accept_ops (s * 8192) buf t;
     if r = 0 \<and> raidsp_coherency_check t s \<and> list_all (\<lambda>s'. \<not> raidsp_coherency_check t s') (rest s)
     then coherent_one_by_one buf rest ss t
     else Some False }"

definition all_incoherent_at_init :: "unit sp_create \<Rightarrow> bool option" where
  "all_incoherent_at_init create =
     map_option (\<lambda>t. list_all (\<lambda>s. \<not> raidsp_coherency_check t s) [0..<3]) (coherency_fixture create)"

definition coherent_in_order :: "unit sp_create \<Rightarrow> byte list \<Rightarrow> bool option" where
  "coherent_in_order create buf = do {
     t \<leftarrow> coherency_fixture create;
     coherent_one_by_one buf (\<lambda>s. [s + 1..<3]) [0..<3] t }"

definition coherent_in_reverse :: "unit sp_create \<Rightarrow> byte list \<Rightarrow> bool option" where
  "coherent_in_reverse create buf = do {
     t \<leftarrow> coherency_fixture create;
     coherent_one_by_one buf (\<lambda>s. [0..<s]) (rev [0..<3]) t }"

definition raid4_parity_tests :: "byte list \<Rightarrow> bool option list" where
  "raid4_parity_tests buf = [all_incoherent_at_init raid4_create, coherent_in_order raid4_create buf, coherent_in_reverse raid4_create buf]"

definition raid5_parity_tests :: "byte list \<Rightarrow> bool option list" where
  "raid5_parity_tests buf = [all_incoherent_at_init raid5_create, coherent_in_order raid5_create buf, coherent_in_reverse raid5_create buf]"

lemma resize_unlocked: "n \<le> m \<Longrightarrow> bs_resize (replicate n False) m = replicate m False"
  by (simp add: bs_resize_def replicate_add [symmetric])

lemma unit_update: "(hs :: unit list)[i := u] = hs"
  using list_update_id [of hs i] by (metis old.unit.exhaust)

lemma accepted_stripe_write:
  assumes "length buf = 8192" "length parity = 4096" "pid s < 3"
  shows "sp_stripe_write accept_ops s (0, buf) (0, parity) (sp3 pid [(), (), ()]) = Some (0, 0, 0, sp3 pid [(), (), ()])"
proof -
  have v: "handlers_data_view (Suc (Suc (Suc 0))) (pid s) 0 2 =
      Some [if pid s = 0 then 1 else 0, if pid s = 2 then 1 else 2]"
    using assms(3) by (auto simp: handlers_data_view_def numeral_3_eq_3 less_Suc_eq upt_rec)
  have u: "strips_round_up 8192 4096 = 2" by (simp add: strips_round_up_def)
  have "buf \<noteq> []" "parity \<noteq> []" using assms(1,2) by auto
  then show ?thesis using assms(3)
    by (simp add: sp_stripe_write_def assms(1,2) v u sp3_def subquery_eq accept_ops_def unit_update numeral_3_eq_3)
qed

lemma update_True: "i < length xs \<Longrightarrow> xs ! i \<Longrightarrow> xs[i := True] = xs"
  by (simp add: list_update_same_conv)

lemma full_stripe_write:
  assumes "length buf = 8192" "pid s < 3"
  shows "raidsp_target_write accept_ops (s * 8192) buf
      \<lparr>fsm = Online, backend = \<lparr>acc_be = sp3 pid [(), (), ()], acc_lock = replicate n False, acc_coherent = co\<rparr>\<rparr> =
    Some (0, 0, \<lparr>fsm = Online, backend = \<lparr>acc_be = sp3 pid [(), (), ()], acc_lock = replicate (max n (s + 1)) False,
      acc_coherent = (bs_resize co (max n (s + 1)))[s := True]\<rparr>\<rparr>)"
proof -
  have b: "buf \<noteq> []" "subspan buf 0 8192 = buf" using assms(1) by (auto simp: subspan_def)
  have u: "strips_round_up (s * 8192 + 8192) 8192 = Suc s" by (simp add: strips_round_up_def)
  have l: "lk_extend (replicate n False) (Suc s) = replicate (max n (Suc s)) False"
    by (simp add: lk_extend_def resize_unlocked max_def)
  let ?co = "bs_resize co (max n (Suc s))"
  have w: "stripe_data_write accept_ops s (0, buf) \<lparr>acc_be = sp3 pid [(), (), ()], acc_lock = lk, acc_coherent = ?co\<rparr> =
      Some (0, 0, \<lparr>acc_be = sp3 pid [(), (), ()], acc_lock = lk, acc_coherent = ?co[s := True]\<rparr>)" for lk
    using accepted_stripe_write [where pid = pid and s = s, OF assms(1) _ assms(2), of "parity_of 4096 buf"] b assms(1)
    by (auto simp: stripe_data_write_def full_stripe_parity stripe_write_def is_stripe_parity_coherent_def
        stripe_incoherent_parity_write_def stripe_coherent_parity_write_def sp3_def update_True)
  have "acc_process_stripe accept_ops s (0, buf) \<lparr>acc_be = sp3 pid [(), (), ()], acc_lock = lk, acc_coherent = ?co\<rparr> =
      Some (0, 0, \<lparr>acc_be = sp3 pid [(), (), ()], acc_lock = lk, acc_coherent = ?co[s := True]\<rparr>)" for lk
    using w [of lk] by (simp add: acc_process_stripe_def assms(1) b sp3_def)
  moreover have "sp_stripe_data_sz (sp3 pid [(), (), ()]) = 8192" by (simp add: sp3_def)
  moreover have "s < max n (Suc s)" "(replicate (max n (Suc s)) False)[s := False] = replicate (max n (Suc s)) False"
    by (simp_all add: list_update_same_conv)
  ultimately show ?thesis
    by (simp add: raidsp_target_write_def test_simps assms(1) b u l
      acc_write_def acc_write_loop.simps acc_complete_def lk_try_lock_def lk_unlock_def list_update_same_conv Let_def)
qed

lemma parity_tests_ok:
  assumes "length buf = 8192" "\<And>s. pid s < 3"
    and "sp_fixture create [(), (), ()] = Some \<lparr>acc_be = sp3 pid [(), (), ()], acc_lock = [], acc_coherent = []\<rparr>"
  shows "all_incoherent_at_init create = Some True" "coherent_in_order create buf = Some True"
    "coherent_in_reverse create buf = Some True"
proof -
  have w: "raidsp_target_write accept_ops (s * 8192) buf
      \<lparr>fsm = Online, backend = \<lparr>acc_be = sp3 pid [(), (), ()], acc_lock = lk, acc_coherent = co\<rparr>\<rparr> =
    Some (0, 0, \<lparr>fsm = Online, backend = \<lparr>acc_be = sp3 pid [(), (), ()], acc_lock = replicate (max (length lk) (s + 1)) False,
      acc_coherent = (bs_resize co (max (length lk) (s + 1)))[s := True]\<rparr>\<rparr>)" if "lk = replicate (length lk) False" for s lk co
    using full_stripe_write [OF assms(1), of pid s "length lk" co] assms(2) [of s] that by simp
  have u: "[0..<3] = [0, 1, 2]" "[Suc 0..<3] = [1, 2]" "[0..<2] = [0, 1]" "[2..<3] = [2]" "[Suc (Suc 0)..<3] = [2]"
    by (simp_all add: upt_rec)
  note s = coherency_fixture_def assms(3) raidsp_coherency_check_def is_stripe_parity_coherent_def u
  show "all_incoherent_at_init create = Some True" by (simp add: all_incoherent_at_init_def s)
  show "coherent_in_order create buf = Some True"
    using w [of "[]" 0] w [of "[False]" 1] w [of "[False, False]" 2]
    by (simp add: coherent_in_order_def s bs_resize_def numeral_2_eq_2 numeral_3_eq_3)
  show "coherent_in_reverse create buf = Some True"
    using w [of "[]" 2] w [of "[False, False, False]" 1] w [of "[False, False, False]" 0]
    by (simp add: coherent_in_reverse_def s bs_resize_def numeral_2_eq_2 numeral_3_eq_3)
qed

lemma raid45_parity_ok:
  assumes "length buf = 8192"
  shows "list_all (\<lambda>t. t = Some True) (raid4_parity_tests buf)" "list_all (\<lambda>t. t = Some True) (raid5_parity_tests buf)"
  using parity_tests_ok [OF assms raid_parity_range(1) sp_fixture_eq(1)]
    parity_tests_ok [OF assms raid_parity_range(2) sp_fixture_eq(2)]
  by (simp_all add: raid4_parity_tests_def raid5_parity_tests_def)

subsection \<open>Failing backends\<close>

text \<open>The backends alone: the result, and no expected call left.\<close>

definition backend_fails :: "(int \<times> int \<times> 'b) option \<Rightarrow> ('b \<Rightarrow> mock list) \<Rightarrow> bool option" where
  "backend_fails r mocks = map_option (\<lambda>(ret, e, b). ret = EIO \<and> list_all (\<lambda>m. m = []) (mocks b)) r"

definition raid0_read_fails :: "byte list \<Rightarrow> mock list \<Rightarrow> bool option" where
  "raid0_read_fails buf hs = do {
     be \<leftarrow> raid0_fixture hs;
     backend_fails (map_option (\<lambda>(r, e, _, b). (r, e, b)) (raid0_read mock_ops 0 buf be)) r0_hs }"

definition raid0_write_fails :: "byte list \<Rightarrow> mock list \<Rightarrow> bool option" where
  "raid0_write_fails buf hs = do { be \<leftarrow> raid0_fixture hs; backend_fails (raid0_write mock_ops 0 buf be) r0_hs }"

definition raid0_failure_tests :: "byte list \<Rightarrow> bool option list" where
  "raid0_failure_tests buf =
     [raid0_read_fails buf [[MockRead EIO 0], []], raid0_read_fails buf [[MockRead 0 0], [MockRead EIO 0]],
      raid0_write_fails buf [[MockWrite EIO 0], []], raid0_write_fails buf [[MockWrite 0 0], [MockWrite EIO 0]]]"

definition raid1_failure_fixture :: "mock list \<Rightarrow> mock raid1 option" where
  "raid1_failure_fixture hs = raid1_create 4096 (map Some hs)"

definition raid1_read_fails :: "byte list \<Rightarrow> mock list \<Rightarrow> bool option" where
  "raid1_read_fails buf hs = do {
     be \<leftarrow> raid1_failure_fixture hs;
     backend_fails (map_option (\<lambda>(r, e, _, b). (r, e, b)) (raid1_read mock_ops 0 buf be)) r1_hs }"

definition raid1_write_fails :: "byte list \<Rightarrow> mock list \<Rightarrow> bool option" where
  "raid1_write_fails buf hs = do { be \<leftarrow> raid1_failure_fixture hs; backend_fails (raid1_write mock_ops 0 buf be) r1_hs }"

definition raid1_failure_tests :: "byte list \<Rightarrow> byte list \<Rightarrow> bool option list" where
  "raid1_failure_tests buf wbuf =
     [raid1_read_fails buf [[MockRead EIO 0], []], raid1_read_fails buf [[MockRead 0 0], [MockRead EIO 0]],
      raid1_write_fails wbuf [[MockWrite EIO 0], []], raid1_write_fails wbuf [[MockWrite 0 0], [MockWrite EIO 0]]]"

lemma failure_tests_ok:
  assumes "length buf = 8192" "length wbuf = 12288"
  shows "list_all (\<lambda>t. t = Some True) (raid0_failure_tests buf)" "list_all (\<lambda>t. t = Some True) (raid1_failure_tests buf wbuf)"
proof -
  have b: "buf \<noteq> []" "subspan buf 0 4096 \<noteq> []" "wbuf \<noteq> []" "subspan wbuf 0 12288 = wbuf" using assms by (auto simp: subspan_def)
  note s = b assms subquery_eq mock_ops_def backend_fails_def
  show "list_all (\<lambda>t. t = Some True) (raid0_failure_tests buf)"
    by (simp add: raid0_failure_tests_def raid0_read_fails_def raid0_write_fails_def fixture0 raid0_read_def
        raid0_read_loop.simps raid0_write_def raid0_write_loop.simps s)
  show "list_all (\<lambda>t. t = Some True) (raid1_failure_tests buf wbuf)"
    by (simp add: raid1_failure_tests_def raid1_read_fails_def raid1_write_fails_def raid1_failure_fixture_def
        raid1_create_def raid1_read_def raid1_read_loop.simps raid1_write_def s)
qed

subsection \<open>The memory target\<close>

definition inmem_reads_all :: "byte list \<Rightarrow> bool option" where
  "inmem_reads_all storage = map_option (\<lambda>(r, e, buf, t). r = 0 \<and> e = 0 \<and> buf = storage)
     (inmem_read 0 (replicate 4096 0) \<lparr>mem = storage, mem_sz = 4096\<rparr>)"

definition inmem_refuses_read :: "byte list \<Rightarrow> byte list \<Rightarrow> bool option" where
  "inmem_refuses_read storage buf = map_option (\<lambda>(r, e, _, t). r = EINVAL \<and> e = 0)
     (inmem_read (512 - length buf + 1) buf \<lparr>mem = storage, mem_sz = 512\<rparr>)"

definition inmem_writes_all :: "byte list \<Rightarrow> bool option" where
  "inmem_writes_all buf = map_option (\<lambda>(r, e, t). r = 0 \<and> e = 0 \<and> buf = mem t)
     (inmem_write 0 buf \<lparr>mem = replicate 4096 0, mem_sz = 4096\<rparr>)"

definition inmem_refuses_write :: "byte list \<Rightarrow> byte list \<Rightarrow> bool option" where
  "inmem_refuses_write storage buf = map_option (\<lambda>(r, e, t). r = EINVAL \<and> e = 0)
     (inmem_write (512 - length buf + 1) buf \<lparr>mem = storage, mem_sz = 512\<rparr>)"

lemma inmem_tests_ok:
  assumes "length big = 4096" "length storage = 512" "length buf = 16"
  shows "inmem_reads_all big = Some True" "inmem_refuses_read storage buf = Some True"
    "inmem_writes_all big = Some True" "inmem_refuses_write storage buf = Some True"
proof -
  have b: "big \<noteq> []" "buf \<noteq> []" "subspan big 0 4096 = big" using assms by (auto simp: subspan_def)
  note s = b assms copy_stl_eq copy_at_def u64_add_def
  show "inmem_reads_all big = Some True" "inmem_writes_all big = Some True"
    by (simp_all add: inmem_reads_all_def inmem_writes_all_def inmem_read_def inmem_write_def s)
  show "inmem_refuses_read storage buf = Some True" "inmem_refuses_write storage buf = Some True"
    by (simp_all add: inmem_refuses_read_def inmem_refuses_write_def inmem_read_def inmem_write_def s)
qed

text \<open>
  C23. The model passes the failure tests of the four arrays, the coherency tests of RAID4 and RAID5 and the tests of the
  memory target, whatever bytes their buffers hold: a refused or failed request takes an array offline with the
  error the test expects, the next request reaches no handler, each handler gets exactly the expected calls, and
  a full-stripe write makes exactly its stripe coherent.
\<close>

theorem target_tests_pass:
  assumes "length buf1 = 1024" "length buf2 = 64" "length buf = 8192" "length wbuf = 12288"
    and "length big = 4096" "length storage = 512" "length small = 16"
  shows "raid0_submit_read buf = Some True \<and> raid0_complete_read buf = Some True \<and>
    raid0_submit_write buf = Some True \<and> raid0_complete_write buf = Some True \<and>
    raid1_submit_read buf1 = Some True \<and> raid1_complete_read buf1 = Some True \<and>
    raid1_submit_write buf2 = Some True \<and> raid1_complete_write buf2 = Some True \<and>
    list_all (\<lambda>t. t = Some True) (raid4_offline_tests buf @ raid5_offline_tests buf) \<and>
    list_all (\<lambda>t. t = Some True) (raid4_parity_tests buf @ raid5_parity_tests buf) \<and>
    list_all (\<lambda>t. t = Some True) (raid0_failure_tests buf @ raid1_failure_tests buf wbuf) \<and>
    inmem_reads_all big = Some True \<and> inmem_refuses_read storage small = Some True \<and>
    inmem_writes_all big = Some True \<and> inmem_refuses_write storage small = Some True"
  using assms by (simp add: raid0_offline_ok raid1_offline_ok raid45_offline_ok raid45_parity_ok failure_tests_ok inmem_tests_ok)

theorem target_tests_pass_witness:
  "raid0_submit_read (replicate 8192 7) = Some True \<and> raid1_complete_write (replicate 64 7) = Some True \<and>
   list_all (\<lambda>t. t = Some True) (raid5_parity_tests (replicate 8192 7))"
  using target_tests_pass [of "replicate 1024 7" "replicate 64 7" "replicate 8192 7" "replicate 12288 7"
    "replicate 4096 7" "replicate 512 7" "replicate 16 7"]
  unfolding length_replicate list_all_append by blast

end
