(* ===== verification/Memory.thy ===== *)
theory Memory
  imports Spans
begin

text \<open>
  \<open>mm/\<close>: where chunks of memory come from (\<open>mem.hpp\<close>), the caching allocator behind the containers
  and requests (\<open>mem_cached_allocator\<close>), the pools (\<open>mem_chunk_pool\<close>, \<open>mem_pool_allocator\<close>) and the
  allocator adaptors of the standard library.

  The operating system and \<open>operator new\<close> are outside: \<open>os\<close> answers a request with an address, 0
  meaning that it fails.  A failing \<open>new\<close> throws through \<open>noexcept\<close> functions, which terminates the
  process (\<open>None\<close>); a failing \<open>mmap\<close> gives a null pointer.
\<close>

subsection \<open>Chunks from the system\<close>

datatype alloc_req = AllocNew nat nat | AllocMmap bool nat

definition power_of_two :: "nat \<Rightarrow> bool" where
  "power_of_two n \<longleftrightarrow> (\<exists>k \<le> n. n = 2 ^ k)"

text \<open>The requests a generator makes until one succeeds; \<open>True\<close> asks for huge pages of 2 MiB.\<close>

definition unique_bytes_generator :: "nat \<Rightarrow> nat \<Rightarrow> nat \<Rightarrow> alloc_req list" where
  "unique_bytes_generator page_size alignment chunk_sz =
     (if chunk_sz < page_size then [AllocNew (max alignment 16) chunk_sz]
      else if \<not> chunk_sz < 2 * 2 ^ 20 then [AllocMmap True chunk_sz, AllocMmap False chunk_sz]
      else [AllocMmap False chunk_sz])"

type_synonym 's os = "alloc_req \<Rightarrow> 's \<Rightarrow> nat \<times> 's"

text \<open>\<open>make_unique_aligned_bytes\<close> and \<open>make_unique_bytes\<close> over \<open>mmap_private\<close>.\<close>

fun alloc_one :: "'s os \<Rightarrow> alloc_req \<Rightarrow> 's \<Rightarrow> (nat \<times> 's) option" where
  "alloc_one os (AllocNew align sz) s = do {
     expects (power_of_two align);
     (p, s') \<leftarrow> Some (os (AllocNew align sz) s);
     expects (p \<noteq> 0);
     Some (p, s') }"
| "alloc_one os (AllocMmap huge sz) s = Some (os (AllocMmap huge sz) s)"

fun generate :: "'s os \<Rightarrow> alloc_req list \<Rightarrow> 's \<Rightarrow> (nat \<times> 's) option" where
  "generate os [] s = Some (0, s)"
| "generate os (r # rs) s = do {
     (p, s') \<leftarrow> alloc_one os r s;
     if p \<noteq> 0 then Some (p, s') else generate os rs s' }"

subsection \<open>The caching allocator\<close>

text \<open>
  The tables are ordered maps from alignments to ordered maps from sizes to the stack of free
  chunks; a busy chunk remembers the entry it came from.
\<close>

type_synonym 'v table = "(nat \<times> 'v) list"

record mem_cache =
  mc_ftbl :: "nat list table table"
  mc_btbl :: "(nat \<times> nat \<times> nat) list"

fun tbl_lower_bound :: "nat \<Rightarrow> 'v table \<Rightarrow> nat option" where
  "tbl_lower_bound k [] = None"
| "tbl_lower_bound k ((x, v) # t) = (if k \<le> x then Some x else tbl_lower_bound k t)"

fun tbl_get :: "nat \<Rightarrow> 'v \<Rightarrow> 'v table \<Rightarrow> 'v" where
  "tbl_get k d [] = d"
| "tbl_get k d ((x, v) # t) = (if x = k then v else tbl_get k d t)"

fun tbl_put :: "nat \<Rightarrow> 'v \<Rightarrow> 'v table \<Rightarrow> 'v table" where
  "tbl_put k v [] = []"
| "tbl_put k v ((x, w) # t) = (if x = k then (x, v) # t else (x, w) # tbl_put k v t)"

text \<open>The entry at or above \<open>k\<close>; without one, a new entry \<open>k\<close> goes to the end.\<close>

definition tbl_reserve :: "nat \<Rightarrow> 'v \<Rightarrow> 'v table \<Rightarrow> nat \<times> 'v table" where
  "tbl_reserve k d t = (case tbl_lower_bound k t of Some x \<Rightarrow> (x, t) | None \<Rightarrow> (k, t @ [(k, d)]))"

definition allocate_aligned :: "nat \<Rightarrow> 's os \<Rightarrow> nat \<Rightarrow> nat \<Rightarrow> mem_cache \<Rightarrow> 's \<Rightarrow> (nat \<times> mem_cache \<times> 's) option" where
  "allocate_aligned page os alignment sz m s = do {
     expects (power_of_two alignment);
     expects (sz \<noteq> 0);
     let (a, ftbl) = tbl_reserve (max alignment 16) [] (mc_ftbl m);
     let (z, desc) = tbl_reserve (max sz a) [] (tbl_get a [] ftbl);
     (chunks, s') \<leftarrow> (case tbl_get z [] desc of
         [] \<Rightarrow> map_option (\<lambda>(p, s'). ([p], s')) (generate os (unique_bytes_generator page a z) s)
       | ps \<Rightarrow> Some (ps, s));
     let p = hd chunks;
     expects (p \<notin> fst ` set (mc_btbl m));
     Some (p, \<lparr>mc_ftbl = tbl_put a (tbl_put z (tl chunks) desc) ftbl, mc_btbl = (p, a, z) # mc_btbl m\<rparr>, s') }"

definition allocate_default :: "nat \<Rightarrow> 's os \<Rightarrow> nat \<Rightarrow> mem_cache \<Rightarrow> 's \<Rightarrow> (nat \<times> mem_cache \<times> 's) option" where
  "allocate_default page os sz m s = allocate_aligned page os 16 sz m s"

definition mem_free :: "nat \<Rightarrow> mem_cache \<Rightarrow> mem_cache option" where
  "mem_free p m = (case map_of (mc_btbl m) p of None \<Rightarrow> None
     | Some (a, z) \<Rightarrow> let desc = tbl_get a [] (mc_ftbl m) in
         Some \<lparr>mc_ftbl = tbl_put a (tbl_put z (p # tbl_get z [] desc) desc) (mc_ftbl m),
           mc_btbl = filter (\<lambda>(q, e). q \<noteq> p) (mc_btbl m)\<rparr>)"

subsection \<open>Pools and allocator adaptors\<close>

text \<open>\<open>mem_chunk_pool\<close>: chunks of one size; a chunk that is given up goes on top of the stack.\<close>

record chunk_pool =
  cp_alignment :: nat
  cp_chunk_sz :: nat
  cp_generator :: "alloc_req list"
  cp_free :: "nat list"

definition pool_create :: "nat \<Rightarrow> nat \<Rightarrow> nat \<Rightarrow> chunk_pool option" where
  "pool_create page alignment chunk_sz = do {
     expects (power_of_two alignment);
     expects (chunk_sz \<noteq> 0);
     Some \<lparr>cp_alignment = alignment, cp_chunk_sz = chunk_sz,
       cp_generator = unique_bytes_generator page alignment chunk_sz, cp_free = []\<rparr> }"

definition pool_get :: "'s os \<Rightarrow> chunk_pool \<Rightarrow> 's \<Rightarrow> (nat \<times> chunk_pool \<times> 's) option" where
  "pool_get os p s = (case cp_free p of
       c # cs \<Rightarrow> Some (c, p\<lparr>cp_free := cs\<rparr>, s)
     | [] \<Rightarrow> map_option (\<lambda>(c, s'). (c, p, s')) (generate os (cp_generator p) s))"

definition pool_put :: "nat \<Rightarrow> chunk_pool \<Rightarrow> chunk_pool" where
  "pool_put c p = p\<lparr>cp_free := c # cp_free p\<rparr>"

text \<open>\<open>mem_pool_allocator\<close> and \<open>pool_allocator\<close>: single objects of \<open>sizeof(T)\<close> bytes.\<close>

datatype alloc_exn = BadArrayNewLength | BadAlloc

definition mpool_allocate :: "nat \<Rightarrow> 's os \<Rightarrow> nat \<Rightarrow> nat \<Rightarrow> nat list \<Rightarrow> mem_cache \<Rightarrow> 's
    \<Rightarrow> (nat \<times> nat list \<times> mem_cache \<times> 's) option" where
  "mpool_allocate page os alignment szT fr m s = (case fr of
       p # ps \<Rightarrow> Some (p, ps, m, s)
     | [] \<Rightarrow> map_option (\<lambda>(p, m', s'). (p, [], m', s')) (allocate_aligned page os alignment szT m s))"

definition mpool_free :: "nat \<Rightarrow> nat list \<Rightarrow> nat list" where
  "mpool_free p fr = p # fr"

definition pool_allocate :: "nat \<Rightarrow> 's os \<Rightarrow> nat \<Rightarrow> nat \<Rightarrow> nat \<Rightarrow> nat list \<Rightarrow> mem_cache \<Rightarrow> 's
    \<Rightarrow> ((alloc_exn + nat) \<times> nat list \<times> mem_cache \<times> 's) option" where
  "pool_allocate page os alignment szT n fr m s = do {
     expects (1 = n);
     (p, fr', m', s') \<leftarrow> mpool_allocate page os alignment szT fr m s;
     Some (if p \<noteq> 0 then Inr p else Inl BadAlloc, fr', m', s') }"

definition pool_deallocate :: "nat \<Rightarrow> nat \<Rightarrow> nat list \<Rightarrow> nat list option" where
  "pool_deallocate p n fr = do { expects (1 = n); Some (mpool_free p fr) }"

text \<open>\<open>aligned_allocator\<close> and \<open>page_aligned_allocator\<close>: arrays of \<open>n\<close> objects.\<close>

definition aligned_allocate :: "nat \<Rightarrow> 's os \<Rightarrow> nat \<Rightarrow> nat \<Rightarrow> nat \<Rightarrow> mem_cache \<Rightarrow> 's
    \<Rightarrow> ((alloc_exn + nat) \<times> mem_cache \<times> 's) option" where
  "aligned_allocate page os alignment szT n m s =
     (if n > (u64_limit - 1) div szT then Some (Inl BadArrayNewLength, m, s)
      else do {
        (p, m', s') \<leftarrow> allocate_aligned page os alignment (szT * n) m s;
        Some (if p \<noteq> 0 then Inr p else Inl BadAlloc, m', s') })"

definition page_aligned_allocate :: "nat \<Rightarrow> 's os \<Rightarrow> nat \<Rightarrow> nat \<Rightarrow> nat \<Rightarrow> mem_cache \<Rightarrow> 's
    \<Rightarrow> ((alloc_exn + nat) \<times> mem_cache \<times> 's) option" where
  "page_aligned_allocate page os alignT szT n m s =
     (if n > (u64_limit - 1) div szT then Some (Inl BadArrayNewLength, m, s)
      else if max page alignT > 0 then do {
        (p, m', s') \<leftarrow> allocate_aligned page os (max page alignT) (szT * n) m s;
        Some (if p \<noteq> 0 then Inr p else Inl BadAlloc, m', s') }
      else Some (Inl BadAlloc, m, s))"

subsection \<open>Buffers with a content\<close>

text \<open>
  The helpers that fill what they allocate.  \<open>gen\<close> is the generator of random bytes
  (\<open>utils/random.hpp\<close>) over a state of its own, \<open>fresh\<close> the content memory has when it is allocated
  for overwriting.
\<close>

definition make_unique_zeroed_bytes :: "nat \<Rightarrow> byte list" where
  "make_unique_zeroed_bytes sz = replicate sz 0"

fun make_unique_randomized_bytes :: "('g \<Rightarrow> byte \<times> 'g) \<Rightarrow> nat \<Rightarrow> 'g \<Rightarrow> byte list \<times> 'g" where
  "make_unique_randomized_bytes gen 0 g = ([], g)"
| "make_unique_randomized_bytes gen (Suc n) g =
     (let (b, g1) = gen g; (bs, g2) = make_unique_randomized_bytes gen n g1 in (b # bs, g2))"

definition duplicate_unique :: "nat \<Rightarrow> byte list \<Rightarrow> nat \<Rightarrow> nat \<Rightarrow> byte list \<Rightarrow> byte list option" where
  "duplicate_unique pa p sz da fresh = do {
     expects (sz \<le> length p);
     copy_stl pa (take sz p) da fresh }"

lemma length_randomized: "length (fst (make_unique_randomized_bytes gen n g)) = n"
  by (induction gen n g rule: make_unique_randomized_bytes.induct) (auto split: prod.splits)

lemma duplicate_unique_eq:
  "length fresh = sz \<Longrightarrow> duplicate_unique pa p sz da fresh = (if sz \<le> length p then Some (take sz p) else None)"
  by (simp add: duplicate_unique_def copy_stl_eq copy_at_def)

subsection \<open>The tables\<close>

definition tbl_keys :: "'v table \<Rightarrow> nat set" where
  "tbl_keys t = fst ` set t"

lemma tbl_get_put: "tbl_get x d (tbl_put k v t) = (if x = k \<and> k \<in> tbl_keys t then v else tbl_get x d t)"
  by (induction t) (force simp: tbl_keys_def)+

lemma tbl_keys_put [simp]: "tbl_keys (tbl_put k v t) = tbl_keys t"
  by (induction k v t rule: tbl_put.induct) (auto simp: tbl_keys_def)

lemma tbl_lower_bound_cases:
  "case tbl_lower_bound k t of Some x \<Rightarrow> x \<in> tbl_keys t \<and> k \<le> x | None \<Rightarrow> \<forall>x \<in> tbl_keys t. x < k"
  by (induction k t rule: tbl_lower_bound.induct) (fastforce simp: tbl_keys_def split: option.splits)+

lemma tbl_get_snoc: "tbl_get x d (t @ [(k, d)]) = tbl_get x d t"
  by (induction t) auto

lemma tbl_reserve_spec:
  assumes "tbl_reserve k d t = (x, t')"
  shows "k \<le> x" "x \<in> tbl_keys t'" "tbl_get y d t' = tbl_get y d t" "tbl_keys t' = tbl_keys t \<union> {x}"
    "x \<in> tbl_keys t \<or> x = k"
  using assms tbl_lower_bound_cases [where k = k and t = t] tbl_get_snoc [where x = y and d = d and t = t and k = k]
  by (auto simp: tbl_reserve_def tbl_keys_def split: option.splits)

subsection \<open>The caching allocator never hands out a chunk twice\<close>

text \<open>
  A system that never fails: it grants blocks that are disjoint from the granted ones, aligned as
  asked or, for \<open>mmap\<close>, to a page.  \<open>granted\<close> is the set of blocks it has handed out.
\<close>

fun req_size :: "alloc_req \<Rightarrow> nat" where
  "req_size (AllocNew a sz) = sz"
| "req_size (AllocMmap h sz) = sz"

fun req_align :: "nat \<Rightarrow> alloc_req \<Rightarrow> nat" where
  "req_align page (AllocNew a sz) = a"
| "req_align page (AllocMmap h sz) = page"

definition apart_blocks :: "nat \<times> nat \<Rightarrow> nat \<times> nat \<Rightarrow> bool" where
  "apart_blocks b c \<longleftrightarrow> fst b + snd b \<le> fst c \<or> fst c + snd c \<le> fst b"

definition os_law :: "nat \<Rightarrow> 's os \<Rightarrow> ('s \<Rightarrow> (nat \<times> nat) set) \<Rightarrow> bool" where
  "os_law page os granted \<longleftrightarrow> (\<forall>r s. power_of_two (req_align page r) \<longrightarrow> (\<exists>p s'. os r s = (p, s') \<and> p \<noteq> 0 \<and> req_align page r dvd p \<and>
     granted s' = insert (p, req_size r) (granted s) \<and> (\<forall>b \<in> granted s. apart_blocks (p, req_size r) b)))"

definition free_of :: "mem_cache \<Rightarrow> nat \<Rightarrow> nat \<Rightarrow> nat list" where
  "free_of m a z = tbl_get z [] (tbl_get a [] (mc_ftbl m))"

definition keys_ok :: "nat \<Rightarrow> mem_cache \<Rightarrow> bool" where
  "keys_ok page m \<longleftrightarrow> (\<forall>a \<in> tbl_keys (mc_ftbl m). power_of_two a \<and> 16 \<le> a \<and> a \<le> page)"

definition blocks_apart :: "(nat \<times> nat) set \<Rightarrow> bool" where
  "blocks_apart G \<longleftrightarrow> (\<forall>b \<in> G. \<forall>c \<in> G. b = c \<or> apart_blocks b c)"

definition frees_ok :: "(nat \<times> nat) set \<Rightarrow> mem_cache \<Rightarrow> bool" where
  "frees_ok G m \<longleftrightarrow> (\<forall>a z. distinct (free_of m a z) \<and> (\<forall>p \<in> set (free_of m a z). p \<noteq> 0 \<and> a dvd p \<and> 0 < z \<and> (p, z) \<in> G \<and>
        p \<notin> fst ` set (mc_btbl m) \<and> (\<forall>b y. p \<in> set (free_of m b y) \<longrightarrow> b = a \<and> y = z)))"

definition busy_ok :: "(nat \<times> nat) set \<Rightarrow> mem_cache \<Rightarrow> bool" where
  "busy_ok G m \<longleftrightarrow> distinct (map fst (mc_btbl m)) \<and> (\<forall>(p, a, z) \<in> set (mc_btbl m). p \<noteq> 0 \<and> a dvd p \<and> 0 < z \<and> (p, z) \<in> G \<and>
        a \<in> tbl_keys (mc_ftbl m) \<and> z \<in> tbl_keys (tbl_get a [] (mc_ftbl m)))"

definition mem_inv :: "nat \<Rightarrow> (nat \<times> nat) set \<Rightarrow> mem_cache \<Rightarrow> bool" where
  "mem_inv page G m \<longleftrightarrow> keys_ok page m \<and> blocks_apart G \<and> frees_ok G m \<and> busy_ok G m"

lemma power_of_two_dvd:
  assumes "power_of_two a" "power_of_two b" "a \<le> b"
  shows "a dvd b"
proof -
  obtain i j where "a = 2 ^ i" "b = 2 ^ j" using assms(1,2) by (auto simp: power_of_two_def)
  moreover from this assms(3) have "i \<le> j" by (simp add: power_increasing_iff)
  ultimately show ?thesis by (simp add: le_imp_power_dvd)
qed

lemma power_of_two_max: "power_of_two a \<Longrightarrow> power_of_two b \<Longrightarrow> power_of_two (max a b)"
  by (simp add: max_def)

lemma generate_ok:
  assumes "os_law page os granted" "power_of_two a" "16 \<le> a" "a \<le> page" "power_of_two page" "0 < z"
  shows "\<exists>p s'. generate os (unique_bytes_generator page a z) s = Some (p, s') \<and> p \<noteq> 0 \<and> a dvd p \<and>
    granted s' = insert (p, z) (granted s) \<and> (\<forall>b \<in> granted s. apart_blocks (p, z) b)"
proof -
  have d: "a dvd page" using power_of_two_dvd assms(2,4,5) by blast
  have law: "\<exists>p s'. os r s = (p, s') \<and> p \<noteq> 0 \<and> req_align page r dvd p \<and>
     granted s' = insert (p, req_size r) (granted s) \<and> (\<forall>b \<in> granted s. apart_blocks (p, req_size r) b)"
    if "power_of_two (req_align page r)" for r
    using assms(1) that by (simp add: os_law_def)
  consider (new) "z < page" | (huge) "\<not> z < page" "\<not> z < 2 * 2 ^ 20" | (pages) "\<not> z < page" "z < 2 * 2 ^ 20" by blast
  then show ?thesis
  proof cases
    case new
    have "max a 16 = a" using assms(3) by simp
    with law [of "AllocNew a z"] new assms(2) show ?thesis by (auto simp: unique_bytes_generator_def)
  next
    case huge
    with law [of "AllocMmap True z"] assms(5) show ?thesis by (auto simp: unique_bytes_generator_def intro: dvd_trans [OF d])
  next
    case pages
    with law [of "AllocMmap False z"] assms(5) show ?thesis by (auto simp: unique_bytes_generator_def intro: dvd_trans [OF d])
  qed
qed

lemma free_of_put:
  assumes "a \<in> tbl_keys (mc_ftbl m)" "z \<in> tbl_keys (tbl_get a [] (mc_ftbl m))"
  shows "free_of (m\<lparr>mc_ftbl := tbl_put a (tbl_put z ps (tbl_get a [] (mc_ftbl m))) (mc_ftbl m)\<rparr>) b y =
    (if b = a \<and> y = z then ps else free_of m b y)"
  using assms by (simp add: free_of_def tbl_get_put)

lemma reserve_tables:
  assumes "tbl_reserve k [] (mc_ftbl m) = (a, f1)" "tbl_reserve l [] (tbl_get a [] f1) = (z, d1)"
  shows "free_of (m\<lparr>mc_ftbl := tbl_put a (tbl_put z ps d1) f1, mc_btbl := bt\<rparr>) b y = (if b = a \<and> y = z then ps else free_of m b y)"
    and "tbl_get z [] d1 = free_of m a z"
    and "tbl_keys (tbl_put a (tbl_put z ps d1) f1) = insert a (tbl_keys (mc_ftbl m))"
    and "z \<in> tbl_keys (tbl_get a [] (tbl_put a (tbl_put z ps d1) f1))"
    and "y \<in> tbl_keys (tbl_get b [] (mc_ftbl m)) \<Longrightarrow> y \<in> tbl_keys (tbl_get b [] (tbl_put a (tbl_put z ps d1) f1))"
proof -
  note r1 = tbl_reserve_spec [OF assms(1)] and r2 = tbl_reserve_spec [OF assms(2)]
  show "free_of (m\<lparr>mc_ftbl := tbl_put a (tbl_put z ps d1) f1, mc_btbl := bt\<rparr>) b y = (if b = a \<and> y = z then ps else free_of m b y)"
    by (simp add: free_of_def tbl_get_put r1(2,3) r2(2,3))
  show "tbl_get z [] d1 = free_of m a z" by (simp add: free_of_def r1(3) r2(3))
  show "tbl_keys (tbl_put a (tbl_put z ps d1) f1) = insert a (tbl_keys (mc_ftbl m))" by (simp add: r1(4))
  show "z \<in> tbl_keys (tbl_get a [] (tbl_put a (tbl_put z ps d1) f1))" by (simp add: tbl_get_put r1(2) r2(2))
  show "y \<in> tbl_keys (tbl_get b [] (tbl_put a (tbl_put z ps d1) f1))" if "y \<in> tbl_keys (tbl_get b [] (mc_ftbl m))"
    using that by (auto simp: tbl_get_put r1(2,3) r2(4))
qed

text \<open>Taking a chunk of an entry for use.\<close>

lemma frees_okD:
  assumes "frees_ok G m" "p \<in> set (free_of m a z)"
  shows "p \<noteq> 0" "a dvd p" "0 < z" "(p, z) \<in> G" "p \<notin> fst ` set (mc_btbl m)"
    "p \<in> set (free_of m b y) \<Longrightarrow> b = a \<and> y = z"
  using assms(1)[unfolded frees_ok_def, THEN spec, THEN spec, THEN conjunct2, THEN bspec, OF assms(2)] by blast+

lemma frees_take:
  assumes "frees_ok G m" "\<And>b y. set (free_of m' b y) \<subseteq> set (free_of m b y) - {p}" "\<And>b y. distinct (free_of m' b y)"
    and "fst ` set (mc_btbl m') \<subseteq> insert p (fst ` set (mc_btbl m))"
  shows "frees_ok G m'"
  unfolding frees_ok_def
proof (intro allI conjI ballI impI)
  fix a z q assume "q \<in> set (free_of m' a z)"
  then have q: "q \<in> set (free_of m a z)" "q \<noteq> p" using assms(2) by blast+
  note d = frees_okD [OF assms(1) q(1)]
  show "q \<noteq> 0" "a dvd q" "0 < z" "(q, z) \<in> G" by (rule d)+
  show "q \<notin> fst ` set (mc_btbl m')" using d(5) q(2) assms(4) by blast
  fix b y assume "q \<in> set (free_of m' b y)"
  then show "b = a" "y = z" using d(6) assms(2) by blast+
qed (rule assms(3))

lemma frees_more: "frees_ok G m \<Longrightarrow> G \<subseteq> H \<Longrightarrow> frees_ok H m"
  unfolding frees_ok_def by blast

lemma busy_more: "busy_ok G m \<Longrightarrow> G \<subseteq> H \<Longrightarrow> busy_ok H m"
  unfolding busy_ok_def by blast

lemma busy_take:
  assumes "busy_ok G m" "p \<noteq> 0" "a dvd p" "0 < z" "(p, z) \<in> G" "p \<notin> fst ` set (mc_btbl m)"
    and "mc_btbl m' = (p, a, z) # mc_btbl m" "a \<in> tbl_keys (mc_ftbl m')" "z \<in> tbl_keys (tbl_get a [] (mc_ftbl m'))"
    and "tbl_keys (mc_ftbl m) \<subseteq> tbl_keys (mc_ftbl m')"
    and "\<And>b. tbl_keys (tbl_get b [] (mc_ftbl m)) \<subseteq> tbl_keys (tbl_get b [] (mc_ftbl m'))"
  shows "busy_ok G m'"
proof -
  have "b \<in> tbl_keys (mc_ftbl m') \<and> y \<in> tbl_keys (tbl_get b [] (mc_ftbl m'))"
    if "b \<in> tbl_keys (mc_ftbl m)" "y \<in> tbl_keys (tbl_get b [] (mc_ftbl m))" for b y
    using that assms(10,11) by blast
  then show ?thesis using assms(1-9) unfolding busy_ok_def by auto
qed

lemma blocks_apart_insert:
  "blocks_apart G \<Longrightarrow> \<forall>b \<in> G. apart_blocks x b \<Longrightarrow> blocks_apart (insert x G)"
  by (auto simp: blocks_apart_def apart_blocks_def)

lemma allocate_ok:
  assumes os: "os_law page os granted" and inv: "mem_inv page (granted s) m" and page: "power_of_two page" "16 \<le> page"
    and req: "power_of_two alignment" "alignment \<le> page" "sz \<noteq> 0"
  shows "\<exists>p m' s' a z. allocate_aligned page os alignment sz m s = Some (p, m', s') \<and> mem_inv page (granted s') m' \<and>
    mc_btbl m' = (p, a, z) # mc_btbl m \<and> alignment dvd p \<and> sz \<le> z \<and> p \<notin> fst ` set (mc_btbl m)"
proof -
  obtain a f1 where r1: "tbl_reserve (max alignment 16) [] (mc_ftbl m) = (a, f1)" by fastforce
  obtain z d1 where r2: "tbl_reserve (max sz a) [] (tbl_get a [] f1) = (z, d1)" by fastforce
  note s1 = tbl_reserve_spec [OF r1] and s2 = tbl_reserve_spec [OF r2] and t = reserve_tables [OF r1 r2]
  have p16: "power_of_two 16" by (simp add: power_of_two_def exI [of _ 4])
  have a: "power_of_two a" "16 \<le> a" "a \<le> page" "alignment \<le> a"
    using s1(1,5) inv req page power_of_two_max [OF req(1) p16] by (auto simp: mem_inv_def keys_ok_def)
  have z: "0 < z" "sz \<le> z" using s2(1) a(2) by auto
  have da: "alignment dvd a" using power_of_two_dvd [OF req(1) a(1,4)] .
  have fr: "frees_ok (granted s) m" and bu: "busy_ok (granted s) m" and ap: "blocks_apart (granted s)" and ke: "keys_ok page m"
    using inv by (simp_all add: mem_inv_def)
  have step: "mem_inv page G \<lparr>mc_ftbl = tbl_put a (tbl_put z ps d1) f1, mc_btbl = (p, a, z) # mc_btbl m\<rparr>"
    if G: "granted s \<subseteq> G" "blocks_apart G" and p: "p \<noteq> 0" "a dvd p" "(p, z) \<in> G" "p \<notin> fst ` set (mc_btbl m)"
      and ps: "distinct ps" "set ps \<subseteq> set (free_of m a z) - {p}" "\<And>b y. \<not> (b = a \<and> y = z) \<Longrightarrow> p \<notin> set (free_of m b y)" for G p ps
  proof -
    let ?m' = "\<lparr>mc_ftbl = tbl_put a (tbl_put z ps d1) f1, mc_btbl = (p, a, z) # mc_btbl m\<rparr>"
    have free: "free_of ?m' b y = (if b = a \<and> y = z then ps else free_of m b y)" for b y
      using t(1) [where ps = ps and bt = "(p, a, z) # mc_btbl m" and b = b and y = y] by (simp add: free_of_def)
    have "frees_ok G ?m'"
    proof (rule frees_take [OF frees_more [OF fr G(1)], of _ p])
      show "set (free_of ?m' b y) \<subseteq> set (free_of m b y) - {p}" for b y using free [of b y] ps(2) ps(3) [of b y] by auto
      show "distinct (free_of ?m' b y)" for b y using free [of b y] ps(1) fr by (auto simp: frees_ok_def)
    qed simp
    moreover have "busy_ok G ?m'"
      by (rule busy_take [OF busy_more [OF bu G(1)] p(1,2) z(1) p(3,4)]) (use t(3-5) in auto)
    moreover have "keys_ok page ?m'" using ke a t(3) by (simp add: keys_ok_def)
    ultimately show ?thesis using G(2) by (simp add: mem_inv_def)
  qed
  show ?thesis
  proof (cases "free_of m a z")
    case Nil
    obtain p s' where g: "generate os (unique_bytes_generator page a z) s = Some (p, s')" "p \<noteq> 0" "a dvd p"
      "granted s' = insert (p, z) (granted s)" "\<forall>b \<in> granted s. apart_blocks (p, z) b"
      using generate_ok [OF os a(1-3) page(1) z(1)] by blast
    have new: "(p, y) \<notin> granted s" if "0 < y" for y using g(5) that z(1) by (auto simp: apart_blocks_def)
    have nb: "p \<notin> fst ` set (mc_btbl m)" using bu new by (force simp: busy_ok_def)
    moreover have "p \<notin> set (free_of m b y)" for b y using frees_okD(3,4) [OF fr] new by blast
    moreover have "blocks_apart (granted s')" unfolding g(4) by (rule blocks_apart_insert [OF ap g(5)])
    ultimately have "mem_inv page (granted s') \<lparr>mc_ftbl = tbl_put a (tbl_put z [] d1) f1, mc_btbl = (p, a, z) # mc_btbl m\<rparr>"
      using step [where G = "granted s'" and p = p and ps = "[]"] g by auto
    moreover have "allocate_aligned page os alignment sz m s =
        Some (p, \<lparr>mc_ftbl = tbl_put a (tbl_put z [] d1) f1, mc_btbl = (p, a, z) # mc_btbl m\<rparr>, s')"
      using r1 r2 g(1) t(2) Nil req nb by (simp add: allocate_aligned_def)
    ultimately show ?thesis using z(2) dvd_trans [OF da g(3)] nb by (intro exI conjI) (assumption | simp)+
  next
    case (Cons p ps)
    have "distinct (free_of m a z)" using fr by (simp add: frees_ok_def)
    then have p: "p \<in> set (free_of m a z)" and dist: "distinct (p # ps)" using Cons by simp_all
    note d = frees_okD [OF fr p]
    have el: "p \<notin> set (free_of m b y)" if "\<not> (b = a \<and> y = z)" for b y using d(6) that by blast
    have ps: "distinct ps" "set ps \<subseteq> set (free_of m a z) - {p}" using dist Cons by auto
    have "mem_inv page (granted s) \<lparr>mc_ftbl = tbl_put a (tbl_put z ps d1) f1, mc_btbl = (p, a, z) # mc_btbl m\<rparr>"
      by (rule step [OF subset_refl ap d(1,2,4,5) ps el])
    moreover have "allocate_aligned page os alignment sz m s =
        Some (p, \<lparr>mc_ftbl = tbl_put a (tbl_put z ps d1) f1, mc_btbl = (p, a, z) # mc_btbl m\<rparr>, s)"
      using r1 r2 t(2) Cons req d(5) by (simp add: allocate_aligned_def)
    ultimately show ?thesis using z(2) dvd_trans [OF da d(2)] d(5) by (intro exI conjI) (assumption | simp)+
  qed
qed

lemma free_ok:
  assumes inv: "mem_inv page G m" and p: "p \<in> fst ` set (mc_btbl m)"
  shows "\<exists>m'. mem_free p m = Some m' \<and> mem_inv page G m' \<and> mc_btbl m' = filter (\<lambda>(q, e). q \<noteq> p) (mc_btbl m)"
proof -
  have fr: "frees_ok G m" and bu: "busy_ok G m" and ap: "blocks_apart G" and ke: "keys_ok page m"
    using inv by (simp_all add: mem_inv_def)
  obtain a z where az: "(p, a, z) \<in> set (mc_btbl m)" using p by auto
  have d: "distinct (map fst (mc_btbl m))" using bu by (simp add: busy_ok_def)
  have mo: "map_of (mc_btbl m) p = Some (a, z)" using az d by simp
  have e: "p \<noteq> 0" "a dvd p" "0 < z" "(p, z) \<in> G" "a \<in> tbl_keys (mc_ftbl m)" "z \<in> tbl_keys (tbl_get a [] (mc_ftbl m))"
    using bu az unfolding busy_ok_def by blast+
  let ?bt = "filter (\<lambda>(q, e). q \<noteq> p) (mc_btbl m)"
  let ?m' = "\<lparr>mc_ftbl = tbl_put a (tbl_put z (p # free_of m a z) (tbl_get a [] (mc_ftbl m))) (mc_ftbl m), mc_btbl = ?bt\<rparr>"
  have free: "free_of ?m' b y = (if b = a \<and> y = z then p # free_of m a z else free_of m b y)" for b y
    using free_of_put [OF e(5,6), of "p # free_of m a z" b y] by (simp add: free_of_def)
  have pn: "p \<notin> set (free_of m b y)" for b y using frees_okD(5) [OF fr] p by blast
  have bt: "fst ` set ?bt = fst ` set (mc_btbl m) - {p}" by force
  have "frees_ok G ?m'" unfolding frees_ok_def
  proof (intro allI conjI ballI impI)
    fix b y show "distinct (free_of ?m' b y)" using free [of b y] pn fr by (auto simp: frees_ok_def)
    fix q assume "q \<in> set (free_of ?m' b y)"
    then consider (this) "q = p" "b = a" "y = z" | (other) "q \<noteq> p" "q \<in> set (free_of m b y)" | "q \<in> set (free_of m b y)"
      using free [of b y] by (auto split: if_splits)
    then have c: "q = p \<and> b = a \<and> y = z \<or> q \<noteq> p \<and> q \<in> set (free_of m b y)" using pn by cases auto
    show "q \<noteq> 0" "b dvd q" "0 < y" "(q, y) \<in> G" using c e(1-4) frees_okD(1-4) [OF fr] by blast+
    show "q \<notin> fst ` set (mc_btbl ?m')"
    proof (cases "q = p")
      case True
      then show ?thesis using bt by (simp del: set_filter)
    next
      case False
      then show ?thesis using c bt frees_okD(5) [OF fr] by (simp del: set_filter)
    qed
    fix b' y' assume "q \<in> set (free_of ?m' b' y')"
    then have "q = p \<and> b' = a \<and> y' = z \<or> q \<noteq> p \<and> q \<in> set (free_of m b' y')" using free [of b' y'] pn by (auto split: if_splits)
    then show "b' = b" "y' = y" using c frees_okD(6) [OF fr] by blast+
  qed
  moreover have "keys_ok page ?m'" using ke by (simp add: keys_ok_def)
  moreover have "busy_ok G ?m'"
  proof -
    have "x \<in> tbl_keys (tbl_get b [] (mc_ftbl ?m'))" if "x \<in> tbl_keys (tbl_get b [] (mc_ftbl m))" for b x
      using that by (auto simp: tbl_get_put)
    then show ?thesis using bu d unfolding busy_ok_def by (auto simp: distinct_map_filter)
  qed
  ultimately show ?thesis using mo ap by (simp add: mem_free_def Let_def mem_inv_def free_of_def)
qed

definition mem_empty :: mem_cache where
  "mem_empty = \<lparr>mc_ftbl = [], mc_btbl = []\<rparr>"

inductive mem_reach :: "nat \<Rightarrow> 's os \<Rightarrow> ('s \<Rightarrow> (nat \<times> nat) set) \<Rightarrow> mem_cache \<Rightarrow> 's \<Rightarrow> bool"
  for page os granted where
  mem_start: "blocks_apart (granted s) \<Longrightarrow> mem_reach page os granted mem_empty s"
| mem_alloc: "mem_reach page os granted m s \<Longrightarrow> power_of_two alignment \<Longrightarrow> alignment \<le> page \<Longrightarrow> sz \<noteq> 0 \<Longrightarrow>
    allocate_aligned page os alignment sz m s = Some (p, m', s') \<Longrightarrow> mem_reach page os granted m' s'"
| mem_release: "mem_reach page os granted m s \<Longrightarrow> mem_free p m = Some m' \<Longrightarrow> mem_reach page os granted m' s"

lemma mem_reach_inv:
  assumes "mem_reach page os granted m s" "os_law page os granted" "power_of_two page" "16 \<le> page"
  shows "mem_inv page (granted s) m"
  using assms(1)
proof induction
  case (mem_start s)
  have "free_of mem_empty a z = []" for a z by (simp add: free_of_def mem_empty_def)
  with mem_start show ?case by (simp add: mem_inv_def keys_ok_def frees_ok_def busy_ok_def) (simp add: mem_empty_def tbl_keys_def)
next
  case (mem_alloc m s alignment sz p m' s')
  then show ?case using allocate_ok [OF assms(2) _ assms(3,4), of s m alignment sz] by auto
next
  case (mem_release m s p m')
  then have "map_of (mc_btbl m) p \<noteq> None" by (auto simp: mem_free_def split: option.splits)
  then have "p \<in> fst ` set (mc_btbl m)" by (simp add: map_of_eq_None_iff)
  with mem_release show ?case using free_ok [of page "granted s" m p] by auto
qed


text \<open>A system that places every block behind all others.\<close>

definition bump_os :: "(nat \<times> nat) list os" where
  "bump_os r bs = (let p = req_align 4096 r * Suc (sum_list (map (\<lambda>(q, n). q + n) bs)) in (p, (p, req_size r) # bs))"

lemma bump_os_law: "os_law 4096 bump_os set"
proof -
  have "0 < req_align 4096 r" if "power_of_two (req_align 4096 r)" for r using that by (auto simp: power_of_two_def)
  moreover have "q + n \<le> k * Suc (sum_list (map (\<lambda>(q, n). q + n) bs))"
    if "(q, n) \<in> set bs" "0 < k" for q n k and bs :: "(nat \<times> nat) list"
  proof -
    let ?s = "sum_list (map (\<lambda>(q, n). q + n) bs)"
    have "q + n \<in> set (map (\<lambda>(q, n). q + n) bs)" using that(1) by force
    then have "q + n \<le> ?s" using member_le_sum_list by blast
    also have "?s \<le> k * Suc ?s" using that(2) by (cases k) simp_all
    finally show ?thesis .
  qed
  ultimately show ?thesis by (auto simp: os_law_def bump_os_def Let_def apart_blocks_def)
qed




end
