(* ===== verification/Array_Tests.thy ===== *)
theory Array_Tests
  imports Target_Tests Memory
begin

unbundle bit_operations_syntax

text \<open>
  The tests under \<open>ut/raid0\<close> and \<open>ut/raid1\<close> that read and write whole arrays: functions of their
  parameters and of the random contents they draw, which the instantiations at the end of each file
  fix.  \<open>None\<close> is a failed \<open>EXPECT\<close> inside a mock, an unexpected call or a violated contract, \<open>Some
  False\<close> a failed \<open>EXPECT\<close> of the test.
\<close>

subsection \<open>Mocks of RAID0\<close>

text \<open>
  A mock expects its calls in order, each with an offset and the bytes of a strip: it checks the
  offset and the size, and a read gets the bytes.  The mocks of a write copy what they get into the
  storage, which the test then compares with the buffer: as the strips do not overlap, comparing
  each strip when it arrives is the same.
\<close>

type_synonym script = "(nat \<times> byte list) list"

fun script_read :: "script read_fn" where
  "script_read off buf [] = None"
| "script_read off buf ((o', bs) # es) = do {
     expects (off = o');
     expects (length buf = length bs);
     Some (0, 0, bs, es) }"

fun script_write :: "script write_fn" where
  "script_write off buf [] = None"
| "script_write off buf ((o', bs) # es) = do {
     expects (off = o');
     expects (buf = bs);
     Some (0, 0, es) }"

definition script_ops :: "script rw_handler" where
  "script_ops = \<lparr>submit_rd = script_read, submit_wr = script_write\<rparr>"

text \<open>The expectations of one request of \<open>sz\<close> bytes at \<open>off\<close>: \<open>co\<close> is the offset in the chunk.\<close>

function expect_chunk :: "nat \<Rightarrow> nat \<Rightarrow> byte list \<Rightarrow> nat \<Rightarrow> nat \<Rightarrow> nat \<Rightarrow> script list" where
  "expect_chunk S n data off sz co =
     (if \<not> co < sz \<or> S = 0 then replicate n []
      else let req_off = off + co; strip_off = req_off mod S; req_sz = min (sz - co) (S - strip_off);
               strip_id = req_off div S; stripe_id = strip_id div n; hid = strip_id mod n;
               later = expect_chunk S n data off sz (co + req_sz)
        in later[hid := (stripe_id * S + strip_off, subspan data co req_sz) # later ! hid])"
  by pat_completeness auto

termination
  by (relation "measure (\<lambda>(S, n, data, off, sz, co). sz - co)")
    (auto simp: min.commute [of "_ - _" "_ - _ mod _"] intro: chunk_progress)

declare expect_chunk.simps [simp del]

lemma length_expect_chunk [simp]: "length (expect_chunk S n data off sz co) = n"
  by (induction S n data off sz co rule: expect_chunk.induct) (subst expect_chunk.simps, simp add: Let_def)

lemma strip_step:
  fixes S :: nat
  assumes "0 < S" "r = min rest (S - q mod S)" "rest - r \<noteq> 0"
  shows "(q + r) div S = Suc (q div S)" "(q + r) mod S = 0"
proof -
  have "r = S - q mod S" using assms(2,3) by (auto simp: min_def split: if_splits)
  moreover have "q mod S < S" using assms(1) by simp
  moreover have "S * (q div S) + q mod S = q" by simp
  ultimately have e: "q + r = S * Suc (q div S)" unfolding mult_Suc_right by linarith
  show "(q + r) div S = Suc (q div S)" "(q + r) mod S = 0" unfolding e using assms(1) by simp_all
qed

lemma raid0_script_read:
  assumes "S = 2 ^ sh" "0 < n" "length data = sz" "length buf = sz" "co \<le> sz"
    and "co = sz \<or> k = (off + co) div S \<and> so = (off + co) mod S"
  shows "raid0_read_loop script_ops S sh sz k so co 0 buf (expect_chunk S n data off sz co) =
    Some (0, 0, copy_at buf co (subspan data co (sz - co)), replicate n [])"
  using assms(4-)
proof (induction "sz - co" arbitrary: k so co buf rule: less_induct)
  case less
  have S: "0 < S" using assms(1) by simp
  show ?case
  proof (cases "co < sz")
    case False
    then show ?thesis using less.prems by (subst raid0_read_loop.simps, subst expect_chunk.simps) simp
  next
    case True
    then have k: "k = (off + co) div S" "so = (off + co) mod S" using less.prems(3) by auto
    let ?sz = "min (S - so) (sz - co)" and ?later = "expect_chunk S n data off sz (co + min (S - so) (sz - co))"
    have sz: "0 < ?sz" "co + ?sz \<le> sz" using True S k(2) by auto
    have e: "expect_chunk S n data off sz co =
        ?later[k mod n := (k div n * S + so, subspan data co ?sz) # ?later ! (k mod n)]"
      using True S k by (subst expect_chunk.simps) (simp add: Let_def min.commute)
    have sq: "subquery buf co ?sz = Some (subspan buf co ?sz)" "length (subspan buf co ?sz) = ?sz"
      "length (subspan data co ?sz) = ?sz"
      using sz less.prems(1) assms(3) by (simp_all add: subquery_eq)
    have "k mod n < n" using assms(2) by simp
    then have r: "raid0_read_loop script_ops S sh sz k so co 0 buf (expect_chunk S n data off sz co) =
        raid0_read_loop script_ops S sh sz (Suc k) 0 (co + ?sz) 0 (copy_at buf co (subspan data co ?sz)) ?later"
      using True sq unfolding e by (subst raid0_read_loop.simps)
        (simp add: Let_def script_ops_def assms(1) push_bit_eq_mult add.commute)
    have "raid0_read_loop script_ops S sh sz (Suc k) 0 (co + ?sz) 0 (copy_at buf co (subspan data co ?sz)) ?later =
      Some (0, 0, copy_at (copy_at buf co (subspan data co ?sz)) (co + ?sz) (subspan data (co + ?sz) (sz - (co + ?sz))), replicate n [])"
    proof (rule less.hyps)
      show "sz - (co + ?sz) < sz - co" using sz True by linarith
      have "co + length (subspan data co ?sz) \<le> length buf" using sq(3) sz(2) less.prems(1) by linarith
      from trans [OF length_copy_at [OF this] less.prems(1)] show "length (copy_at buf co (subspan data co ?sz)) = sz" .
      show "co + ?sz = sz \<or> Suc k = (off + (co + ?sz)) div S \<and> 0 = (off + (co + ?sz)) mod S"
      proof (cases "co + ?sz = sz")
        case False
        then have "sz - co - ?sz \<noteq> 0" using sz(2) by linarith
        moreover have "?sz = min (sz - co) (S - (off + co) mod S)" by (simp only: k(2) min.commute)
        ultimately show ?thesis using strip_step [OF S, of ?sz "sz - co" "off + co"] unfolding k(1) by (simp only: add.assoc simp_thms)
      qed simp
    qed (rule sz(2))
    moreover have "copy_at (copy_at buf co (subspan data co ?sz)) (co + ?sz) (subspan data (co + ?sz) (sz - (co + ?sz))) =
        copy_at buf co (subspan data co (sz - co))"
    proof -
      have e: "?sz + (sz - (co + ?sz)) = sz - co" using sz(2) by simp
      have j: "subspan data co ?sz @ subspan data (co + ?sz) (sz - (co + ?sz)) = subspan data co (sz - co)"
        by (simp only: subspan_append [symmetric] e)
      have "length (subspan data co (sz - co)) = sz - co" using less.prems(2) assms(3) by (intro length_subspan_in) linarith
      then have "co + length (subspan data co ?sz @ subspan data (co + ?sz) (sz - (co + ?sz))) \<le> length buf"
        unfolding j using less.prems(1,2) by linarith
      from copy_at_append [OF this] show ?thesis unfolding j sq(3) .
    qed
    ultimately show ?thesis unfolding r by simp
  qed
qed

lemma raid0_script_write:
  assumes "S = 2 ^ sh" "0 < n" "length buf = sz" "co \<le> sz"
    and "co = sz \<or> k = (off + co) div S \<and> so = (off + co) mod S"
  shows "raid0_write_loop script_ops S sh sz k so co 0 buf (expect_chunk S n buf off sz co) = Some (0, 0, replicate n [])"
  using assms(4-)
proof (induction "sz - co" arbitrary: k so co rule: less_induct)
  case less
  have S: "0 < S" using assms(1) by simp
  show ?case
  proof (cases "co < sz")
    case False
    then show ?thesis using less.prems by (subst raid0_write_loop.simps, subst expect_chunk.simps) simp
  next
    case True
    then have k: "k = (off + co) div S" "so = (off + co) mod S" using less.prems(2) by auto
    let ?sz = "min (S - so) (sz - co)" and ?later = "expect_chunk S n buf off sz (co + min (S - so) (sz - co))"
    have sz: "0 < ?sz" "co + ?sz \<le> sz" using True S k(2) by auto
    have e: "expect_chunk S n buf off sz co =
        ?later[k mod n := (k div n * S + so, subspan buf co ?sz) # ?later ! (k mod n)]"
      using True S k by (subst expect_chunk.simps) (simp add: Let_def min.commute)
    have sq: "subquery buf co ?sz = Some (subspan buf co ?sz)"
      using sz assms(3) by (simp add: subquery_eq)
    have "k mod n < n" using assms(2) by simp
    then have r: "raid0_write_loop script_ops S sh sz k so co 0 buf (expect_chunk S n buf off sz co) =
        raid0_write_loop script_ops S sh sz (Suc k) 0 (co + ?sz) 0 buf ?later"
      using True sq unfolding e by (subst raid0_write_loop.simps)
        (simp add: Let_def script_ops_def assms(1) push_bit_eq_mult add.commute)
    have "raid0_write_loop script_ops S sh sz (Suc k) 0 (co + ?sz) 0 buf ?later = Some (0, 0, replicate n [])"
    proof (rule less.hyps)
      show "sz - (co + ?sz) < sz - co" using sz True by linarith
      show "co + ?sz = sz \<or> Suc k = (off + (co + ?sz)) div S \<and> 0 = (off + (co + ?sz)) mod S"
      proof (cases "co + ?sz = sz")
        case False
        then have "sz - co - ?sz \<noteq> 0" using sz(2) by linarith
        moreover have "?sz = min (sz - co) (S - (off + co) mod S)" by (simp only: k(2) min.commute)
        ultimately show ?thesis using strip_step [OF S, of ?sz "sz - co" "off + co"] unfolding k(1) by (simp only: add.assoc simp_thms)
      qed simp
    qed (rule sz(2))
    then show ?thesis unfolding r .
  qed
qed

lemma raid0_chunk_ok:
  assumes "0 < n" "length data = sz" "0 < sz"
  shows "length buf = sz \<Longrightarrow> raid0_read script_ops off buf
      \<lparr>r0_strip_sz = 2 ^ k, r0_strip_shift = k, r0_hs = expect_chunk (2 ^ k) n data off sz 0\<rparr> =
      Some (0, 0, data, \<lparr>r0_strip_sz = 2 ^ k, r0_strip_shift = k, r0_hs = replicate n []\<rparr>)"
    and "raid0_write script_ops off data \<lparr>r0_strip_sz = 2 ^ k, r0_strip_shift = k, r0_hs = expect_chunk (2 ^ k) n data off sz 0\<rparr> =
      Some (0, 0, \<lparr>r0_strip_sz = 2 ^ k, r0_strip_shift = k, r0_hs = replicate n []\<rparr>)"
proof -
  have c: "drop_bit k off = (off + 0) div 2 ^ k" "and off (2 ^ k - 1) = (off + 0) mod 2 ^ k"
    using raid0_shift(1,2) by simp_all
  show "raid0_read script_ops off buf \<lparr>r0_strip_sz = 2 ^ k, r0_strip_shift = k, r0_hs = expect_chunk (2 ^ k) n data off sz 0\<rparr> =
      Some (0, 0, data, \<lparr>r0_strip_sz = 2 ^ k, r0_strip_shift = k, r0_hs = replicate n []\<rparr>)" if "length buf = sz"
    using raid0_script_read [of "2 ^ k" k n data sz buf 0 _ off] assms that c
    by (auto simp: raid0_read_def Let_def)
  show "raid0_write script_ops off data \<lparr>r0_strip_sz = 2 ^ k, r0_strip_shift = k, r0_hs = expect_chunk (2 ^ k) n data off sz 0\<rparr> =
      Some (0, 0, \<lparr>r0_strip_sz = 2 ^ k, r0_strip_shift = k, r0_hs = replicate n []\<rparr>)"
    using raid0_script_write [of "2 ^ k" k n data sz 0 _ off] assms c
    by (auto simp: raid0_write_def Let_def)
qed

subsection \<open>ut/raid0\<close>

definition raid0_base :: "nat \<Rightarrow> nat \<Rightarrow> script raid0 option" where
  "raid0_base S n = raid0_create S (replicate n (Some []))"

record chunk_param =
  cp_strip_sz :: nat
  cp_strips :: nat
  cp_stripes :: nat
  cp_start :: nat
  cp_nend :: int
  cp_chunk :: nat

definition cp_storage_sz :: "chunk_param \<Rightarrow> nat" where
  "cp_storage_sz p = cp_strip_sz p * cp_strips p * cp_stripes p"

definition cp_end :: "chunk_param \<Rightarrow> nat" where
  "cp_end p = nat (int (cp_storage_sz p) + cp_nend p)"

definition cp_sz :: "chunk_param \<Rightarrow> nat \<Rightarrow> nat" where
  "cp_sz p off = min (min (cp_chunk p) (cp_strip_sz p * cp_strips p)) (cp_end p - off)"

text \<open>A chunk of size 0, which no instantiation has, would repeat for ever.\<close>

function chunk_reads :: "chunk_param \<Rightarrow> byte list \<Rightarrow> nat \<Rightarrow> script raid0 \<Rightarrow> bool option" where
  "chunk_reads p storage off be =
     (if \<not> off < cp_end p \<or> cp_chunk p = 0 then Some True
      else let data = subspan storage off (cp_sz p off) in do {
        (r, e, buf, be') \<leftarrow> raid0_read script_ops off (make_unique_zeroed_bytes (cp_sz p off))
          (be\<lparr>r0_hs := expect_chunk (cp_strip_sz p) (cp_strips p) data off (cp_sz p off) 0\<rparr>);
        if r = 0 \<and> e = 0 \<and> buf = data \<and> list_all (\<lambda>m. m = []) (r0_hs be')
        then chunk_reads p storage (off + cp_chunk p) be' else Some False })"
  by pat_completeness auto

termination
  by (relation "measure (\<lambda>(p, storage, off, be). cp_end p - off)") auto

function chunk_writes :: "chunk_param \<Rightarrow> (nat \<Rightarrow> nat \<Rightarrow> byte) \<Rightarrow> nat \<Rightarrow> script raid0 \<Rightarrow> bool option" where
  "chunk_writes p content off be =
     (if \<not> off < cp_end p \<or> cp_chunk p = 0 then Some True
      else let data = map (content off) [0..<cp_sz p off] in do {
        (r, e, be') \<leftarrow> raid0_write script_ops off data
          (be\<lparr>r0_hs := expect_chunk (cp_strip_sz p) (cp_strips p) data off (cp_sz p off) 0\<rparr>);
        if r = 0 \<and> e = 0 \<and> list_all (\<lambda>m. m = []) (r0_hs be')
        then chunk_writes p content (off + cp_chunk p) be' else Some False })"
  by pat_completeness auto

termination
  by (relation "measure (\<lambda>(p, content, off, be). cp_end p - off)") auto

declare chunk_reads.simps [simp del] chunk_writes.simps [simp del]

definition raid0_chunk_read :: "chunk_param \<Rightarrow> byte list \<Rightarrow> bool option" where
  "raid0_chunk_read p storage = do { be \<leftarrow> raid0_base (cp_strip_sz p) (cp_strips p); chunk_reads p storage (cp_start p) be }"

definition raid0_chunk_write :: "chunk_param \<Rightarrow> (nat \<Rightarrow> nat \<Rightarrow> byte) \<Rightarrow> bool option" where
  "raid0_chunk_write p content = do { be \<leftarrow> raid0_base (cp_strip_sz p) (cp_strips p); chunk_writes p content (cp_start p) be }"

lemma raid0_base_ok: "0 < n \<Longrightarrow> raid0_base (2 ^ k) n = Some \<lparr>r0_strip_sz = 2 ^ k, r0_strip_shift = k, r0_hs = replicate n []\<rparr>"
  by (auto simp: raid0_base_def raid0_create_def expects_def intro: self_le_power less_imp_le)

lemma chunk_loops_ok:
  assumes p: "cp_strip_sz p = 2 ^ k" "0 < cp_strips p"
  shows "length storage = cp_storage_sz p \<Longrightarrow> cp_nend p \<le> 0 \<Longrightarrow>
      chunk_reads p storage off \<lparr>r0_strip_sz = 2 ^ k, r0_strip_shift = k, r0_hs = replicate (cp_strips p) []\<rparr> = Some True"
    and "chunk_writes p content off \<lparr>r0_strip_sz = 2 ^ k, r0_strip_shift = k, r0_hs = replicate (cp_strips p) []\<rparr> = Some True"
proof -
  have pos: "0 < cp_sz p off" if "off < cp_end p" "cp_chunk p \<noteq> 0" for off
    using that p by (simp add: cp_sz_def)
  have inside: "length (subspan storage off (cp_sz p off)) = cp_sz p off"
    if "length storage = cp_storage_sz p" "cp_nend p \<le> 0" "off < cp_end p" for off
  proof (rule length_subspan_in)
    have "cp_end p \<le> cp_storage_sz p" using that(2) unfolding cp_end_def by linarith
    moreover have "cp_sz p off \<le> cp_end p - off" by (simp add: cp_sz_def)
    ultimately show "off + cp_sz p off \<le> length storage" using that(1,3) by linarith
  qed
  show "chunk_reads p storage off \<lparr>r0_strip_sz = 2 ^ k, r0_strip_shift = k, r0_hs = replicate (cp_strips p) []\<rparr> = Some True"
    if l: "length storage = cp_storage_sz p" "cp_nend p \<le> 0"
  proof (induction "cp_end p - off" arbitrary: off rule: less_induct)
    case less
    show ?case
    proof (cases "off < cp_end p \<and> cp_chunk p \<noteq> 0")
      case False
      then show ?thesis by (subst chunk_reads.simps) auto
    next
      case True
      then have "cp_end p - (off + cp_chunk p) < cp_end p - off" by auto
      from less [OF this] show ?thesis using True p inside [OF l] pos
        by (subst chunk_reads.simps) (simp add: Let_def raid0_chunk_ok(1) make_unique_zeroed_bytes_def list_all_iff)
    qed
  qed
  show "chunk_writes p content off \<lparr>r0_strip_sz = 2 ^ k, r0_strip_shift = k, r0_hs = replicate (cp_strips p) []\<rparr> = Some True"
  proof (induction "cp_end p - off" arbitrary: off rule: less_induct)
    case less
    show ?case
    proof (cases "off < cp_end p \<and> cp_chunk p \<noteq> 0")
      case False
      then show ?thesis by (subst chunk_writes.simps) auto
    next
      case True
      then have "cp_end p - (off + cp_chunk p) < cp_end p - off" by auto
      from less [OF this] show ?thesis using True p pos
        by (subst chunk_writes.simps) (simp add: Let_def raid0_chunk_ok(2) list_all_iff)
    qed
  qed
qed

text \<open>Stripe by stripe: one strip per disk, for the stripes in turn.\<close>

definition expect_stripe :: "nat \<Rightarrow> nat \<Rightarrow> byte list \<Rightarrow> nat \<Rightarrow> script list" where
  "expect_stripe S n data stripe_id = map (\<lambda>i. [(S * stripe_id, subspan data (i * S) S)]) [0..<n]"

fun stripe_reads :: "nat \<Rightarrow> nat \<Rightarrow> (nat \<Rightarrow> nat \<Rightarrow> byte) \<Rightarrow> nat list \<Rightarrow> script raid0 \<Rightarrow> bool option" where
  "stripe_reads S n content [] be = Some True"
| "stripe_reads S n content (s # ss) be = (let sz = S * n; data = map (content s) [0..<sz] in do {
     (r, e, buf, be') \<leftarrow> raid0_read script_ops (s * sz) (make_unique_zeroed_bytes sz) (be\<lparr>r0_hs := expect_stripe S n data s\<rparr>);
     if r = 0 \<and> e = 0 \<and> buf = data \<and> list_all (\<lambda>m. m = []) (r0_hs be')
     then stripe_reads S n content ss be' else Some False })"

fun stripe_writes :: "nat \<Rightarrow> nat \<Rightarrow> (nat \<Rightarrow> nat \<Rightarrow> byte) \<Rightarrow> nat list \<Rightarrow> script raid0 \<Rightarrow> bool option" where
  "stripe_writes S n content [] be = Some True"
| "stripe_writes S n content (s # ss) be = (let sz = S * n; data = map (content s) [0..<sz] in do {
     (r, e, be') \<leftarrow> raid0_write script_ops (s * sz) data (be\<lparr>r0_hs := expect_stripe S n data s\<rparr>);
     if r = 0 \<and> e = 0 \<and> list_all (\<lambda>m. m = []) (r0_hs be')
     then stripe_writes S n content ss be' else Some False })"

definition raid0_stripe_read :: "nat \<Rightarrow> nat \<Rightarrow> nat \<Rightarrow> (nat \<Rightarrow> nat \<Rightarrow> byte) \<Rightarrow> bool option" where
  "raid0_stripe_read S n stripes content = do { be \<leftarrow> raid0_base S n; stripe_reads S n content [0..<stripes] be }"

definition raid0_stripe_write :: "nat \<Rightarrow> nat \<Rightarrow> nat \<Rightarrow> (nat \<Rightarrow> nat \<Rightarrow> byte) \<Rightarrow> bool option" where
  "raid0_stripe_write S n stripes content = do { be \<leftarrow> raid0_base S n; stripe_writes S n content [0..<stripes] be }"

lemma replicate_update_last: "(replicate (Suc j) x)[j := y] = replicate j x @ [y]"
  by (induction j) simp_all

lemma expect_stripe_from:
  assumes "0 < S" "j \<le> n"
  shows "expect_chunk S n data (s * (S * n)) (S * n) (j * S) =
    replicate j [] @ map (\<lambda>i. [(s * S, subspan data (i * S) S)]) [j..<n]"
  using assms(2)
proof (induction rule: inc_induct)
  case base
  then show ?case by (subst expect_chunk.simps) simp
next
  case (step j)
  have q: "s * (S * n) + j * S = (s * n + j) * S" by (simp add: algebra_simps)
  have "Suc j * S \<le> n * S" using step.hyps by (intro mult_le_mono1) simp
  then have sz: "j * S < S * n" "min (S * n - j * S) S = S"
    using assms(1) step.hyps by (simp_all add: mult.commute)
  have "(s * n + j) div n = s" "(s * n + j) mod n = j" using step.hyps by simp_all
  with sz assms(1) q step.hyps(2) have "expect_chunk S n data (s * (S * n)) (S * n) (j * S) =
      (expect_chunk S n data (s * (S * n)) (S * n) (Suc j * S))[j := (s * S, subspan data (j * S) S) #
        expect_chunk S n data (s * (S * n)) (S * n) (Suc j * S) ! j]"
    by (subst expect_chunk.simps) (simp add: Let_def add.commute)
  then show ?case using step.hyps unfolding step.IH
    by (simp add: upt_conv_Cons nth_append list_update_append replicate_update_last del: replicate_Suc replicate.simps)
qed

lemma expect_stripe_eq:
  "0 < S \<Longrightarrow> expect_stripe S n data s = expect_chunk S n data (s * (S * n)) (S * n) 0"
  using expect_stripe_from [of S 0 n data s] by (simp add: expect_stripe_def mult.commute)

lemma stripe_loops_ok:
  assumes "0 < n"
  shows "stripe_reads (2 ^ k) n content ss \<lparr>r0_strip_sz = 2 ^ k, r0_strip_shift = k, r0_hs = replicate n []\<rparr> = Some True"
    and "stripe_writes (2 ^ k) n content ss \<lparr>r0_strip_sz = 2 ^ k, r0_strip_shift = k, r0_hs = replicate n []\<rparr> = Some True"
  using assms by (induction ss) (simp_all add: expect_stripe_eq raid0_chunk_ok make_unique_zeroed_bytes_def list_all_iff)

text \<open>
  The RAID0 backend passes the tests that go through an array stripe by stripe and chunk by chunk, for every power of
  two as strip size, every number of disks and every content: each strip goes to the disk and to the offset that the
  test computes on its own, in one call, and nothing else is called.
\<close>

lemma raid0_array_tests_pass:
  assumes "0 < n" "cp_strip_sz p = 2 ^ k" "0 < cp_strips p" "cp_nend p \<le> 0" "length storage = cp_storage_sz p"
  shows "raid0_stripe_read (2 ^ k) n stripes content = Some True \<and> raid0_stripe_write (2 ^ k) n stripes content = Some True \<and>
    raid0_chunk_read p storage = Some True \<and> raid0_chunk_write p content = Some True"
  using assms by (simp add: raid0_stripe_read_def raid0_stripe_write_def raid0_chunk_read_def raid0_chunk_write_def
      raid0_base_ok stripe_loops_ok chunk_loops_ok)

text \<open>The parameters of the third instantiation.\<close>

definition chunk_param_3 :: chunk_param where
  "chunk_param_3 = \<lparr>cp_strip_sz = 4096, cp_strips = 3, cp_stripes = 10, cp_start = 3072, cp_nend = -1024, cp_chunk = 6144\<rparr>"

subsection \<open>Storages\<close>

text \<open>
  \<open>make_inmem_reader\<close> and \<open>make_inmem_writer\<close> behind mocks that expect a number of calls, the
  reads before the writes when they expect both; a call too many or out of order is \<open>None\<close>, and the
  tests check that none is left.
\<close>

record store =
  st_bytes :: "byte list"
  st_reads :: nat
  st_writes :: nat

definition store_read :: "store read_fn" where
  "store_read off buf h = do {
     expects (st_reads h \<noteq> 0);
     expects (buf \<noteq> []);
     expects (length buf + off \<le> length (st_bytes h));
     Some (0, 0, subspan (st_bytes h) off (length buf), h\<lparr>st_reads := st_reads h - 1\<rparr>) }"

definition store_write :: "store write_fn" where
  "store_write off buf h = do {
     expects (st_reads h = 0);
     expects (st_writes h \<noteq> 0);
     expects (buf \<noteq> []);
     expects (length buf + off \<le> length (st_bytes h));
     Some (0, 0, h\<lparr>st_bytes := copy_at (st_bytes h) off buf, st_writes := st_writes h - 1\<rparr>) }"

definition store_ops :: "store rw_handler" where
  "store_ops = \<lparr>submit_rd = store_read, submit_wr = store_write\<rparr>"

definition calls_done :: "store list \<Rightarrow> bool" where
  "calls_done hs = list_all (\<lambda>h. st_reads h = 0 \<and> st_writes h = 0) hs"

subsection \<open>ut/raid1\<close>

definition raid1_reading :: "nat \<Rightarrow> nat \<Rightarrow> byte list list \<Rightarrow> bool option" where
  "raid1_reading block sz storages = (let n = length storages; reads_nr = strips_round_up sz block in do {
     be \<leftarrow> raid1_create block (map (\<lambda>i. Some \<lparr>st_bytes = storages ! i,
       st_reads = reads_nr div n + (if i < reads_nr mod n then 1 else 0), st_writes = 0\<rparr>) [0..<n]);
     (r, e, buf, t) \<leftarrow> raid1_target_read store_ops 0 (make_unique_zeroed_bytes sz) \<lparr>fsm = Online, backend = be\<rparr>;
     Some (list_all (\<lambda>k. subspan buf (k * block) block = subspan (storages ! (k mod n)) (k * block) block) [0..<reads_nr]
       \<and> calls_done (r1_hs (backend t))) })"

definition raid1_writing :: "nat \<Rightarrow> nat \<Rightarrow> nat \<Rightarrow> byte list \<Rightarrow> bool option" where
  "raid1_writing block n sz buf = do {
     be \<leftarrow> raid1_create block (replicate n (Some \<lparr>st_bytes = make_unique_zeroed_bytes sz, st_reads = 0, st_writes = 1\<rparr>));
     (r, e, t) \<leftarrow> raid1_target_write store_ops 0 buf \<lparr>fsm = Online, backend = be\<rparr>;
     Some (list_all (\<lambda>h. buf = st_bytes h) (r1_hs (backend t)) \<and> calls_done (r1_hs (backend t))) }"

lemma raid1_writes_all:
  assumes "buf \<noteq> []" "length buf = sz"
  shows "raid1_write_loop store_ops 0 buf 0 dn (replicate n \<lparr>st_bytes = replicate sz 0, st_reads = 0, st_writes = 1\<rparr>) =
    Some (0, 0, dn @ replicate n \<lparr>st_bytes = buf, st_reads = 0, st_writes = 0\<rparr>)"
  using assms by (induction n arbitrary: dn) (simp_all add: store_ops_def store_write_def)

text \<open>The reads of disk \<open>i\<close> from piece \<open>k\<close> on.\<close>

definition turns :: "nat \<Rightarrow> nat \<Rightarrow> nat \<Rightarrow> nat \<Rightarrow> nat" where
  "turns n k r i = length (filter (\<lambda>j. j mod n = i) [k..<r])"

lemma turns_total: "i < n \<Longrightarrow> turns n 0 r i = r div n + (if i < r mod n then 1 else 0)"
proof (induction r)
  case (Suc r)
  have "turns n 0 (Suc r) i = turns n 0 r i + (if r mod n = i then 1 else 0)" by (simp add: turns_def)
  then show ?case using Suc by (auto simp: div_Suc mod_Suc)
qed (simp add: turns_def)

lemma turns_step: "k < r \<Longrightarrow> turns n k r i = (if i = k mod n then 1 else 0) + turns n (Suc k) r i"
  by (simp add: turns_def upt_conv_Cons)

lemma length_concat_same: "\<forall>x \<in> set xs. length x = L \<Longrightarrow> length (concat xs) = length xs * L"
  by (induction xs) auto

definition mirror_left :: "nat \<Rightarrow> nat \<Rightarrow> byte list list \<Rightarrow> store list" where
  "mirror_left k r ss = map (\<lambda>i. \<lparr>st_bytes = ss ! i, st_reads = turns (length ss) k r i, st_writes = 0\<rparr>) [0..<length ss]"

lemma mirror_left_step:
  assumes "k < r" "ss \<noteq> []"
  shows "(mirror_left k r ss)[k mod length ss := \<lparr>st_bytes = ss ! (k mod length ss), st_reads = turns (length ss) (Suc k) r (k mod length ss),
      st_writes = 0\<rparr>] = mirror_left (Suc k) r ss"
  using assms(2) by (intro nth_equalityI) (auto simp: mirror_left_def nth_list_update turns_step [OF assms(1)])

lemma raid1_reads_all:
  assumes "0 < block" "ss \<noteq> []" "\<forall>s \<in> set ss. length s = r * block" "k \<le> r" "length buf = r * block"
  shows "raid1_read_loop store_ops 0 (r * block) (k * block) 0 buf
      \<lparr>r1_read_strip_sz = block, r1_next_hid = k mod length ss, r1_hs = mirror_left k r ss\<rparr> =
    Some (0, 0, copy_at buf (k * block) (concat (map (\<lambda>j. subspan (ss ! (j mod length ss)) (j * block) block) [k..<r])),
      \<lparr>r1_read_strip_sz = block, r1_next_hid = r mod length ss, r1_hs = mirror_left r r ss\<rparr>)"
  using assms(4,5)
proof (induction arbitrary: buf rule: inc_induct)
  case base
  then show ?case by (subst raid1_read_loop.simps) simp
next
  case (step k)
  let ?h = "k mod length ss" and ?rest = "concat (map (\<lambda>j. subspan (ss ! (j mod length ss)) (j * block) block) [Suc k..<r])"
  have h: "?h < length ss" using assms(2) by simp
  have lt: "k * block + block \<le> r * block" using mult_le_mono1 [of "Suc k" r block] step.hyps(2) by simp
  have l: "length (ss ! j) = r * block" if "j < length ss" for j using that assms(3) by simp
  then have piece: "length (subspan (ss ! ?h) (k * block) block) = block" using h lt by simp
  have sq: "subquery buf (k * block) block = Some (subspan buf (k * block) block)" "length (subspan buf (k * block) block) = block"
    using lt assms(1) step.prems by (simp_all add: subquery_eq)
  have nonempty: "subspan buf (k * block) block \<noteq> []" unfolding length_0_conv [symmetric] sq(2) using assms(1) by simp
  have chunk: "k * block < r * block" "min block (r * block - k * block) = block" using lt assms(1) by linarith+
  have hth: "mirror_left k r ss ! ?h = \<lparr>st_bytes = ss ! ?h, st_reads = Suc (turns (length ss) (Suc k) r ?h), st_writes = 0\<rparr>"
    using h turns_step [OF step.hyps(2), of "length ss" ?h] by (simp add: mirror_left_def)
  have next_id: "Suc ?h mod length (mirror_left k r ss) = Suc k mod length ss"
    by (simp add: mirror_left_def mod_Suc_eq)
  have "raid1_read_loop store_ops 0 (r * block) (k * block) 0 buf
      \<lparr>r1_read_strip_sz = block, r1_next_hid = ?h, r1_hs = mirror_left k r ss\<rparr> =
    raid1_read_loop store_ops 0 (r * block) (Suc k * block) 0 (copy_at buf (k * block) (subspan (ss ! ?h) (k * block) block))
      \<lparr>r1_read_strip_sz = block, r1_next_hid = Suc k mod length ss, r1_hs = mirror_left (Suc k) r ss\<rparr>"
    using chunk sq nonempty l [OF h] lt mirror_left_step [OF step.hyps(2) assms(2)] next_id
    by (subst raid1_read_loop.simps) (simp add: Let_def store_ops_def store_read_def hth add.commute)
  also have "\<dots> = Some (0, 0, copy_at (copy_at buf (k * block) (subspan (ss ! ?h) (k * block) block)) (Suc k * block) ?rest,
      \<lparr>r1_read_strip_sz = block, r1_next_hid = r mod length ss, r1_hs = mirror_left r r ss\<rparr>)"
    by (rule step.IH) (use step.prems piece lt in simp)
  also have "copy_at (copy_at buf (k * block) (subspan (ss ! ?h) (k * block) block)) (Suc k * block) ?rest =
      copy_at buf (k * block) (subspan (ss ! ?h) (k * block) block @ ?rest)"
  proof -
    have "length (subspan (ss ! (j mod length ss)) (j * block) block) = block" if "j < r" for j
      using l [of "j mod length ss"] assms(2) mult_le_mono1 [of "Suc j" r block] that by simp
    then have "length ?rest = (r - Suc k) * block" by (subst length_concat_same [of _ block]) auto
    then have "k * block + length (subspan (ss ! ?h) (k * block) block @ ?rest) \<le> length buf"
      using step.prems step.hyps(2) piece lt by (simp add: diff_mult_distrib)
    from copy_at_append [OF this] show ?thesis unfolding piece by (simp add: add.commute)
  qed
  finally show ?case using step.hyps(2) by (simp add: upt_conv_Cons)
qed

lemma subspan_concat:
  assumes "\<forall>x \<in> set xs. length x = L" "k < length xs"
  shows "subspan (concat xs) (k * L) L = xs ! k"
  using assms
proof (induction xs arbitrary: k)
  case (Cons x xs)
  then show ?case by (cases k) (auto simp: subspan_def)
qed simp

lemma raid1_reading_ok:
  assumes "block mod 512 = 0" "0 < block" "0 < r" "2 \<le> length ss" "\<forall>s \<in> set ss. length s = r * block"
  shows "raid1_reading block (r * block) ss = Some True"
proof -
  have n: "ss \<noteq> []" "0 < length ss" using assms(4) by auto
  have r: "strips_round_up (r * block) block = r" by (rule strips_round_up_mult [OF assms(2)])
  let ?h = "\<lambda>i. \<lparr>st_bytes = ss ! i, st_reads = r div length ss + (if i < r mod length ss then 1 else 0), st_writes = 0\<rparr>"
  have hs: "map ?h [0..<length ss] = mirror_left 0 r ss"
    by (auto simp: mirror_left_def turns_total)
  have c: "raid1_create block (map (\<lambda>i. Some (?h i)) [0..<length ss]) =
      Some \<lparr>r1_read_strip_sz = block, r1_next_hid = 0, r1_hs = mirror_left 0 r ss\<rparr>"
    using assms(1,4) by (simp add: raid1_create_def expects_def o_def hs [symmetric] del: One_nat_def) 
  let ?pieces = "map (\<lambda>j. subspan (ss ! (j mod length ss)) (j * block) block) [0..<r]"
  have len: "\<forall>x \<in> set ?pieces. length x = block"
  proof -
    have "length (subspan (ss ! (j mod length ss)) (j * block) block) = block" if "j < r" for j
      using n(2) assms(5) mult_le_mono1 [of "Suc j" r block] that by simp
    then show ?thesis by auto
  qed
  then have "length (concat ?pieces) = r * block" using length_concat_same [OF len] by simp
  then have "raid1_read_loop store_ops 0 (r * block) 0 0 (replicate (r * block) 0)
      \<lparr>r1_read_strip_sz = block, r1_next_hid = 0, r1_hs = mirror_left 0 r ss\<rparr> =
    Some (0, 0, concat ?pieces, \<lparr>r1_read_strip_sz = block, r1_next_hid = r mod length ss, r1_hs = mirror_left r r ss\<rparr>)"
    using raid1_reads_all [OF assms(2) n(1) assms(5), of 0 "replicate (r * block) 0"] by simp
  moreover have "replicate (r * block) (0 :: byte) \<noteq> []" using assms(2,3) by simp
  ultimately have "raid1_target_read store_ops 0 (make_unique_zeroed_bytes (r * block))
      \<lparr>fsm = Online, backend = \<lparr>r1_read_strip_sz = block, r1_next_hid = 0, r1_hs = mirror_left 0 r ss\<rparr>\<rparr> =
    Some (0, 0, concat ?pieces, \<lparr>fsm = Online, backend = \<lparr>r1_read_strip_sz = block, r1_next_hid = r mod length ss, r1_hs = mirror_left r r ss\<rparr>\<rparr>)"
    using assms(2,3) unfolding raid1_target_read_def
    by (subst target_read_online [where r = 0 and e = 0]) (simp_all add: make_unique_zeroed_bytes_def raid1_read_def)
  moreover have "calls_done (mirror_left r r ss)" by (simp add: calls_done_def mirror_left_def turns_def list_all_iff)
  ultimately show ?thesis
    using c subspan_concat [OF len] by (simp add: raid1_reading_def Let_def r list_all_iff)
qed

lemma raid1_writing_ok:
  assumes "block mod 512 = 0" "2 \<le> n" "buf \<noteq> []"
  shows "raid1_writing block n (length buf) buf = Some True"
proof -
  have c: "raid1_create block (replicate n (Some \<lparr>st_bytes = make_unique_zeroed_bytes (length buf), st_reads = 0, st_writes = 1\<rparr>)) =
      Some \<lparr>r1_read_strip_sz = block, r1_next_hid = 0, r1_hs = replicate n \<lparr>st_bytes = make_unique_zeroed_bytes (length buf), st_reads = 0, st_writes = 1\<rparr>\<rparr>"
    using assms(1,2) by (simp add: raid1_create_def)
  show ?thesis using assms(3) raid1_writes_all [OF assms(3) refl, of "[]" n] unfolding raid1_writing_def c
    by (simp add: raid1_target_write_def target_write_online raid1_write_def make_unique_zeroed_bytes_def
        calls_done_def list_all_iff)
qed

text \<open>
  RAID1 passes its tests of reading and writing whole mirrors, for every size and number of mirrors: a read takes the
  pieces from the mirrors in turn and each mirror serves exactly its share of the reads; a write reaches every mirror once.
\<close>

lemma raid1_tests_pass:
  assumes "block mod 512 = 0" "0 < block" "0 < r" "2 \<le> length ss" "\<forall>s \<in> set ss. length s = r * block" "2 \<le> n" "buf \<noteq> []"
  shows "raid1_reading block (r * block) ss = Some True \<and> raid1_writing block n (length buf) buf = Some True"
  using assms by (simp add: raid1_reading_ok raid1_writing_ok)

end
