(* ===== verification/Parity_Tests.thy ===== *)
theory Parity_Tests
  imports Array_Tests
begin

unbundle bit_operations_syntax

text \<open>
  The tests of \<open>ut/raid4/raid4.cpp\<close> and \<open>ut/raid5/raid5.cpp\<close> that read and write all stripes of an
  array at once, over the storages of theory Array_Tests.
\<close>

subsection \<open>Reading\<close>

text \<open>The mocks that go with the disks, the reads of the whole array, and the buffer.\<close>

definition sp_read_all :: "store sp_create \<Rightarrow> nat \<Rightarrow> store list \<Rightarrow> nat \<Rightarrow> (byte list \<times> store list) option" where
  "sp_read_all create S mocks buf_sz = do {
     acc \<leftarrow> create S (map Some mocks);
     (r, e, buf, t) \<leftarrow> raidsp_target_read store_ops 0 (make_unique_zeroed_bytes buf_sz) \<lparr>fsm = Online, backend = acc\<rparr>;
     Some (buf, sp_hs (acc_be (backend t))) }"

definition raid4_reading :: "nat \<Rightarrow> nat \<Rightarrow> byte list list \<Rightarrow> bool option" where
  "raid4_reading S stripes storages = (let nd = length storages in do {
     (buf, hs) \<leftarrow> sp_read_all raid4_create S
       (map (\<lambda>s. \<lparr>st_bytes = s, st_reads = stripes, st_writes = 0\<rparr>) storages @ [\<lparr>st_bytes = [], st_reads = 0, st_writes = 0\<rparr>])
       (nd * S * stripes);
     Some (list_all (\<lambda>k. subspan buf (k * S) S = subspan (storages ! (k mod nd)) (k div nd * S) S) [0..<nd * stripes]
       \<and> calls_done hs) })"

definition raid5_sids :: "nat \<Rightarrow> nat \<Rightarrow> nat list" where
  "raid5_sids n stripe_id = (let sid_parity = n - stripe_id mod n - 1 in [0..<sid_parity] @ [sid_parity + 1..<n])"

definition raid5_reading :: "nat \<Rightarrow> nat \<Rightarrow> byte list list \<Rightarrow> bool option" where
  "raid5_reading S stripes storages =
     (let n = length storages; full = stripes div n; rem = stripes mod n in do {
     (buf, hs) \<leftarrow> sp_read_all raid5_create S
       (map (\<lambda>i. \<lparr>st_bytes = storages ! i, st_reads = (n - 1) * full + rem - (if i < n - rem then 0 else 1), st_writes = 0\<rparr>) [0..<n])
       ((n - 1) * S * stripes);
     Some (list_all (\<lambda>k. let stripe_id = k div (n - 1); sid = raid5_sids n stripe_id ! (k mod (n - 1))
         in subspan buf (k * S) S = subspan (storages ! sid) (stripe_id * S) S) [0..<(n - 1) * stripes]
       \<and> calls_done hs) })"

lemma map_upt_update: "d < n \<Longrightarrow> (map f [0..<n])[d := x] = map (f(d := x)) [0..<n]"
  by (intro nth_equalityI) (auto simp: nth_list_update)

definition took :: "store \<Rightarrow> store" where
  "took h = h\<lparr>st_reads := st_reads h - 1\<rparr>"

lemma sp_read_stores:
  assumes "distinct ds" "0 < S" "rb + length ds * S \<le> length buf"
    and "\<forall>d \<in> set ds. d < n \<and> st_reads (f d) \<noteq> 0 \<and> s * S + S \<le> length (st_bytes (f d))"
  shows "sp_read_strips store_ops S s 0 (length ds * S) rb 0 buf (map f [0..<n]) ds =
    Some (0, rb + length ds * S, 0, 0, copy_at buf rb (concat (map (\<lambda>d. subspan (st_bytes (f d)) (s * S) S) ds)),
      map (\<lambda>i. if i \<in> set ds then took (f i) else f i) [0..<n])"
  using assms(1,3,4)
proof (induction ds arbitrary: rb buf f)
  case (Cons d ds)
  let ?p = "subspan (st_bytes (f d)) (s * S) S" and ?rest = "concat (map (\<lambda>d. subspan (st_bytes (f d)) (s * S) S) ds)"
  have d: "d < n" "st_reads (f d) \<noteq> 0" "s * S + S \<le> length (st_bytes (f d))" using Cons.prems(3) by auto
  have sq: "subquery buf rb S = Some (subspan buf rb S)" "length (subspan buf rb S) = S"
    using Cons.prems(2) assms(2) by (simp_all add: subquery_eq)
  then have ne: "subspan buf rb S \<noteq> []" using assms(2) by auto
  have p: "length ?p = S" using d(3) by simp
  have rest: "length ?rest = length ds * S" using Cons.prems(3) by (subst length_concat_same [of _ S]) auto
  have lt: "rb + S \<le> length buf" "rb + S + length ds * S \<le> length buf" using Cons.prems(2) by simp_all
  have "sp_read_strips store_ops S s 0 (length (d # ds) * S) rb 0 buf (map f [0..<n]) (d # ds) =
      sp_read_strips store_ops S s 0 (length ds * S) (rb + S) 0 (copy_at buf rb ?p) (map (f(d := took (f d))) [0..<n]) ds"
    using d sq ne by (simp add: Let_def store_ops_def store_read_def map_upt_update took_def add.commute)
  also have "\<dots> = Some (0, rb + S + length ds * S, 0, 0,
      copy_at (copy_at buf rb ?p) (rb + S) (concat (map (\<lambda>e. subspan (st_bytes ((f(d := took (f d))) e)) (s * S) S) ds)),
      map (\<lambda>i. if i \<in> set ds then took ((f(d := took (f d))) i) else (f(d := took (f d))) i) [0..<n])"
    by (rule Cons.IH) (use Cons.prems lt p in auto)
  also have "map (\<lambda>e. subspan (st_bytes ((f(d := took (f d))) e)) (s * S) S) ds = map (\<lambda>d. subspan (st_bytes (f d)) (s * S) S) ds"
    using Cons.prems(1) by auto
  also have "map (\<lambda>i. if i \<in> set ds then took ((f(d := took (f d))) i) else (f(d := took (f d))) i) [0..<n] =
      map (\<lambda>i. if i \<in> set (d # ds) then took (f i) else f i) [0..<n]"
    using Cons.prems(1) by auto
  also have "copy_at (copy_at buf rb ?p) (rb + S) ?rest = copy_at buf rb (?p @ ?rest)"
  proof -
    have "rb + length (?p @ ?rest) \<le> length buf" using lt(2) p rest by simp
    from copy_at_append [OF this] show ?thesis unfolding p .
  qed
  finally show ?case by (simp add: add.assoc)
qed simp

text \<open>The data strips of stripe \<open>t\<close>, and the mocks before stripe \<open>s\<close> is read.\<close>

definition stripe_of :: "nat \<Rightarrow> nat \<Rightarrow> (nat \<Rightarrow> nat) \<Rightarrow> (nat \<Rightarrow> byte list) \<Rightarrow> nat \<Rightarrow> byte list" where
  "stripe_of S n pid st t = concat (map (\<lambda>d. subspan (st d) (t * S) S) (map (data_disk (pid t)) [0..<n - 1]))"

definition reads_left :: "nat \<Rightarrow> (nat \<Rightarrow> nat) \<Rightarrow> (nat \<Rightarrow> byte list) \<Rightarrow> nat \<Rightarrow> nat \<Rightarrow> store list" where
  "reads_left n pid st m s =
     map (\<lambda>i. \<lparr>st_bytes = st i, st_reads = length (filter (\<lambda>t. pid t \<noteq> i) [s..<m]), st_writes = 0\<rparr>) [0..<n]"

lemma sp_reads_all:
  assumes "0 < S" "2 \<le> n" "\<forall>t. pid t < n" "\<forall>t < m. \<forall>i < n. i \<noteq> pid t \<longrightarrow> length (st i) = m * S"
    and "sp_strip_sz be = S" "sp_stripe_data_sz be = S * (n - 1)" "sp_pid be = pid" "D = S * (n - 1)"
    and "s \<le> m" "length buf = m * D"
  shows "sp_data_read_loop store_ops be (m * D) s 0 (s * D) 0 buf (reads_left n pid st m s) =
    Some (0, 0, copy_at buf (s * D) (concat (map (stripe_of S n pid st) [s..<m])), reads_left n pid st m m)"
  using assms(9,10)
proof (induction arbitrary: buf rule: inc_induct)
  case base
  then show ?case by (subst sp_data_read_loop.simps) simp
next
  case (step s)
  let ?ds = "map (data_disk (pid s)) [0..<n - 1]" and ?b = "stripe_of S n pid st s"
  let ?rest = "concat (map (stripe_of S n pid st) [Suc s..<m])"
  let ?f = "\<lambda>i. \<lparr>st_bytes = st i, st_reads = length (filter (\<lambda>t. pid t \<noteq> i) [s..<m]), st_writes = 0\<rparr>"
  have bd: "sp_stripe_data_sz be = D" using assms(6,8) by simp
  have D: "0 < D" using assms(1,2,8) by simp
  have lt: "s * D + D \<le> m * D" "s * S + S \<le> m * S" "s * D < m * D"
    using mult_le_mono1 [of "Suc s" m D] mult_le_mono1 [of "Suc s" m S] step.hyps(2) D by simp_all
  have ds: "set ?ds = {0..<n} - {pid s}" "distinct ?ds" "length ?ds * S = D"
  proof -
    show "set ?ds = {0..<n} - {pid s}"
    proof (intro set_eqI iffI)
      fix i assume i: "i \<in> {0..<n} - {pid s}"
      show "i \<in> set ?ds"
      proof (cases "i < pid s")
        case True
        then have "i = data_disk (pid s) i" "i < n - 1" using assms(3) [rule_format, of s] by (simp_all add: data_disk_def)
        then show ?thesis by auto
      next
        case False
        with i have "i = data_disk (pid s) (i - 1)" "i - 1 < n - 1" by (auto simp: data_disk_def)
        then show ?thesis by (metis atLeastLessThan_iff image_eqI le0 set_map set_upt)
      qed
    qed (use data_disk_facts(1,3) assms(3) in auto)
    show "distinct ?ds" by (simp add: distinct_map inj_on_def data_disk_facts)
    show "length ?ds * S = D" by (simp add: assms(8) mult.commute)
  qed
  have lb: "length (stripe_of S n pid st t) = D" if "t < m" for t
  proof -
    have "length (subspan (st (data_disk (pid t) e)) (t * S) S) = S" if "e < n - 1" for e
      using assms(3,4) data_disk_facts(1,3) \<open>t < m\<close> that mult_le_mono1 [of "Suc t" m S] by simp
    then show ?thesis unfolding stripe_of_def by (subst length_concat_same [of _ S]) (auto simp: assms(8))
  qed
  have u: "strips_round_up D S = n - 1" using strips_round_up_mult [OF assms(1), of "n - 1"] by (simp add: assms(8) mult.commute)
  have view: "handlers_data_view n (pid s) 0 (n - 1) = Some ?ds"
    using handlers_data_view_eq [of "pid s" n 0 "n - 1"] assms(2,3) by simp
  have l: "length (reads_left n pid st m t) = n" for t by (simp add: reads_left_def)
  have "sp_read_strips store_ops S s 0 (length ?ds * S) (s * D) 0 buf (map ?f [0..<n]) ?ds =
      Some (0, s * D + length ?ds * S, 0, 0, copy_at buf (s * D) (concat (map (\<lambda>d. subspan (st_bytes (?f d)) (s * S) S) ?ds)),
        map (\<lambda>i. if i \<in> set ?ds then took (?f i) else ?f i) [0..<n])"
  proof (rule sp_read_stores)
    show "\<forall>d \<in> set ?ds. d < n \<and> st_reads (?f d) \<noteq> 0 \<and> s * S + S \<le> length (st_bytes (?f d))"
      unfolding ds(1) using step.hyps(2) lt(2) assms(4) by (auto simp: filter_empty_conv)
  qed (use ds lt(1) step.prems assms(1) in simp_all)
  moreover have "map (\<lambda>i. if i \<in> set ?ds then took (?f i) else ?f i) [0..<n] = reads_left n pid st m (Suc s)"
    unfolding ds(1) reads_left_def using step.hyps(2) by (auto simp: took_def upt_conv_Cons)
  ultimately have r: "sp_read_strips store_ops S s 0 D (s * D) 0 buf (reads_left n pid st m s) ?ds =
      Some (0, s * D + D, 0, 0, copy_at buf (s * D) ?b, reads_left n pid st m (Suc s))"
    unfolding ds(3) stripe_of_def reads_left_def by simp
  have "min D (m * D - s * D) = D" using lt(1) by simp
  then have "sp_data_read_loop store_ops be (m * D) s 0 (s * D) 0 buf (reads_left n pid st m s) =
      sp_data_read_loop store_ops be (m * D) (Suc s) 0 (Suc s * D) 0 (copy_at buf (s * D) ?b) (reads_left n pid st m (Suc s))"
    using lt(3) D r assms(3) u view
    by (subst sp_data_read_loop.simps) (simp add: Let_def assms(5,7) bd l add.commute)
  also have "\<dots> = Some (0, 0, copy_at (copy_at buf (s * D) ?b) (Suc s * D) ?rest, reads_left n pid st m m)"
    by (rule step.IH) (use step.prems lb [OF step.hyps(2)] lt(1) in simp)
  also have "copy_at (copy_at buf (s * D) ?b) (Suc s * D) ?rest = copy_at buf (s * D) (?b @ ?rest)"
  proof -
    have "length ?rest = (m - Suc s) * D" using lb by (subst length_concat_same [of _ D]) auto
    then have "s * D + length (?b @ ?rest) \<le> length buf"
      using step.prems step.hyps(2) lb [OF step.hyps(2)] lt by (simp add: diff_mult_distrib)
    from copy_at_append [OF this] show ?thesis unfolding lb [OF step.hyps(2)] by (simp add: add.commute)
  qed
  finally show ?case using step.hyps(2) by (simp add: upt_conv_Cons)
qed

lemma sp_read_all_ok:
  assumes "0 < S" "2 \<le> n" "\<forall>t. pid t < n" "\<forall>t < m. \<forall>i < n. i \<noteq> pid t \<longrightarrow> length (st i) = m * S" "0 < m"
    and "create S (map Some (reads_left n pid st m 0)) = Some \<lparr>acc_be = \<lparr>sp_strip_sz = S, sp_stripe_data_sz = S * (n - 1),
      sp_stripe_sz = S * (n - 1) + S, sp_pid = pid, sp_hs = reads_left n pid st m 0\<rparr>, acc_lock = [], acc_coherent = []\<rparr>"
  shows "sp_read_all create S (reads_left n pid st m 0) ((n - 1) * S * m) =
    Some (concat (map (stripe_of S n pid st) [0..<m]), reads_left n pid st m m)"
proof -
  let ?be = "\<lparr>sp_strip_sz = S, sp_stripe_data_sz = S * (n - 1), sp_stripe_sz = S * (n - 1) + S, sp_pid = pid, sp_hs = reads_left n pid st m 0\<rparr>"
  let ?D = "S * (n - 1)" and ?buf = "replicate (m * (S * (n - 1))) (0 :: byte)" and ?out = "concat (map (stripe_of S n pid st) [0..<m])"
  have D: "0 < ?D" using assms(1,2) by simp
  have sb: "subspan ?buf 0 (m * ?D) = ?buf" by (simp add: subspan_def)
  have lb: "length ?out = m * ?D"
  proof -
    have "length (subspan (st (data_disk (pid t) e)) (t * S) S) = S" if "t < m" "e < n - 1" for t e
      using assms(3,4) data_disk_facts(1,3) that mult_le_mono1 [of "Suc t" m S] by simp
    then have "\<forall>x \<in> set (map (stripe_of S n pid st) [0..<m]). length x = ?D"
      unfolding stripe_of_def by (auto simp: length_concat_same [of _ S] mult.commute)
    from length_concat_same [OF this] show ?thesis by simp
  qed
  have "sp_data_read_loop store_ops ?be (m * ?D) 0 0 0 0 ?buf (reads_left n pid st m 0) = Some (0, 0, ?out, reads_left n pid st m m)"
    using sp_reads_all [OF assms(1-4), of ?be ?D 0 ?buf] lb by simp
  then have "acc_read store_ops 0 ?buf \<lparr>acc_be = ?be, acc_lock = [], acc_coherent = []\<rparr> =
      Some (0, 0, ?out, \<lparr>acc_be = ?be\<lparr>sp_hs := reads_left n pid st m m\<rparr>, acc_lock = [], acc_coherent = []\<rparr>)"
    using D assms(5) lb sb by (simp add: acc_read_def sp_data_read_def subquery_eq Let_def)
  moreover have "?buf \<noteq> []" using D assms(5) by simp
  ultimately have "raidsp_target_read store_ops 0 ?buf \<lparr>fsm = Online, backend = \<lparr>acc_be = ?be, acc_lock = [], acc_coherent = []\<rparr>\<rparr> =
      Some (0, 0, ?out, \<lparr>fsm = Online, backend = \<lparr>acc_be = ?be\<lparr>sp_hs := reads_left n pid st m m\<rparr>, acc_lock = [], acc_coherent = []\<rparr>\<rparr>)"
    unfolding raidsp_target_read_def by (subst target_read_online [where r = 0 and e = 0]) simp_all
  moreover have "(n - 1) * S * m = m * ?D" by (simp only: mult.commute mult.left_commute)
  ultimately show ?thesis unfolding sp_read_all_def assms(6) make_unique_zeroed_bytes_def by (simp only: option.map option.simps bind_simps bind.simps prod.case target.simps acceptor.simps raidsp.simps)
qed

lemma strip_of_array:
  assumes "0 < S" "2 \<le> n" "\<forall>t. pid t < n" "\<forall>t < m. \<forall>i < n. i \<noteq> pid t \<longrightarrow> length (st i) = m * S" "k < (n - 1) * m"
  shows "subspan (concat (map (stripe_of S n pid st) [0..<m])) (k * S) S =
    subspan (st (data_disk (pid (k div (n - 1))) (k mod (n - 1)))) (k div (n - 1) * S) S"
proof -
  let ?s = "k div (n - 1)" and ?e = "k mod (n - 1)" and ?D = "S * (n - 1)"
  have n: "0 < n - 1" using assms(2) by simp
  have s: "?s < m" "?e < n - 1" using assms(5) n by (simp_all add: less_mult_imp_div_less mult.commute)
  have len: "length (subspan (st (data_disk (pid t) e)) (t * S) S) = S" if "t < m" "e < n - 1" for t e
    using assms(3,4) data_disk_facts(1,3) that mult_le_mono1 [of "Suc t" m S] by simp
  then have b: "\<forall>x \<in> set (map (stripe_of S n pid st) [0..<m]). length x = ?D"
    unfolding stripe_of_def by (auto simp: length_concat_same [of _ S] mult.commute)
  have k: "k * S = ?s * ?D + ?e * S" using div_mult_mod_eq [of k "n - 1"] by (metis add_mult_distrib mult.assoc mult.commute)
  have "?e * S + S \<le> ?D" using s(2) mult_le_mono1 [of "Suc ?e" "n - 1" S] by (simp add: mult.commute)
  then have "subspan (concat (map (stripe_of S n pid st) [0..<m])) (k * S) S =
      subspan (subspan (concat (map (stripe_of S n pid st) [0..<m])) (?s * ?D) ?D) (?e * S) S"
    unfolding k by (rule subspan_subspan [symmetric])
  also have "\<dots> = subspan (stripe_of S n pid st ?s) (?e * S) S"
    using subspan_concat [OF b] s(1) by simp
  also have "\<dots> = subspan (st (data_disk (pid ?s) ?e)) (?s * S) S"
    using subspan_concat [of "map (\<lambda>d. subspan (st d) (?s * S) S) (map (data_disk (pid ?s)) [0..<n - 1])" S ?e] len s
    by (simp add: stripe_of_def)
  finally show ?thesis .
qed

lemma create_arrays:
  assumes "S = 2 ^ k" "S mod 512 = 0" "3 \<le> length hs"
  shows "raid4_create S (map Some hs) = Some \<lparr>acc_be = \<lparr>sp_strip_sz = S, sp_stripe_data_sz = S * (length hs - 1),
      sp_stripe_sz = S * (length hs - 1) + S, sp_pid = raid4_parity (length hs), sp_hs = hs\<rparr>, acc_lock = [], acc_coherent = []\<rparr>"
    and "raid5_create S (map Some hs) = Some \<lparr>acc_be = \<lparr>sp_strip_sz = S, sp_stripe_data_sz = S * (length hs - 1),
      sp_stripe_sz = S * (length hs - 1) + S, sp_pid = raid5_parity (length hs), sp_hs = hs\<rparr>, acc_lock = [], acc_coherent = []\<rparr>"
proof -
  have "\<exists>n\<le>S. S = 2 ^ n" using assms(1) by (intro exI [of _ k]) simp
  moreover have "\<not> length hs < 3" using assms(3) by simp
  ultimately show "raid4_create S (map Some hs) = Some \<lparr>acc_be = \<lparr>sp_strip_sz = S, sp_stripe_data_sz = S * (length hs - 1),
      sp_stripe_sz = S * (length hs - 1) + S, sp_pid = raid4_parity (length hs), sp_hs = hs\<rparr>, acc_lock = [], acc_coherent = []\<rparr>"
    "raid5_create S (map Some hs) = Some \<lparr>acc_be = \<lparr>sp_strip_sz = S, sp_stripe_data_sz = S * (length hs - 1),
      sp_stripe_sz = S * (length hs - 1) + S, sp_pid = raid5_parity (length hs), sp_hs = hs\<rparr>, acc_lock = [], acc_coherent = []\<rparr>"
    using assms(2) by (auto simp: raid4_create_def raid5_create_def acceptor_create_def raidsp_create_def o_def Let_def)
qed

lemma length_reads_left [simp]: "length (reads_left n pid st m s) = n"
  by (simp add: reads_left_def)

lemma reads_done: "calls_done (reads_left n pid st m m)"
  by (simp add: calls_done_def reads_left_def list_all_iff)

lemma raid4_reading_ok:
  assumes "S = 2 ^ k" "S mod 512 = 0" "2 \<le> length ss" "0 < m" "\<forall>s \<in> set ss. length s = m * S"
  shows "raid4_reading S m ss = Some True"
proof -
  let ?n = "Suc (length ss)" and ?st = "\<lambda>i. if i < length ss then ss ! i else []" and ?pid = "raid4_parity (Suc (length ss))"
  have hs: "map (\<lambda>s. \<lparr>st_bytes = s, st_reads = m, st_writes = 0\<rparr>) ss @ [\<lparr>st_bytes = [], st_reads = 0, st_writes = 0\<rparr>] =
      reads_left ?n ?pid ?st m 0"
  proof (rule nth_equalityI)
    fix i assume "i < length (map (\<lambda>s. \<lparr>st_bytes = s, st_reads = m, st_writes = 0\<rparr>) ss @ [\<lparr>st_bytes = [], st_reads = 0, st_writes = 0\<rparr>])"
    then show "(map (\<lambda>s. \<lparr>st_bytes = s, st_reads = m, st_writes = 0\<rparr>) ss @ [\<lparr>st_bytes = [], st_reads = 0, st_writes = 0\<rparr>]) ! i =
        reads_left ?n ?pid ?st m 0 ! i"
      by (cases "i < length ss") (auto simp: reads_left_def nth_append raid4_parity_def nth_map_upt [of i ?n 0, simplified] simp del: upt_Suc)
  qed (simp add: reads_left_def del: upt_Suc)
  have a: "0 < S" "2 \<le> ?n" "\<forall>t. ?pid t < ?n" "\<forall>t < m. \<forall>i < ?n. i \<noteq> ?pid t \<longrightarrow> length (?st i) = m * S"
    using assms by (auto simp: raid4_parity_def)
  have "sp_read_all raid4_create S (reads_left ?n ?pid ?st m 0) ((?n - 1) * S * m) =
      Some (concat (map (stripe_of S ?n ?pid ?st) [0..<m]), reads_left ?n ?pid ?st m m)"
    by (rule sp_read_all_ok [OF a assms(4)]) (use create_arrays(1) [OF assms(1,2), of "reads_left ?n ?pid ?st m 0"] assms(3) in simp)
  moreover have "subspan (concat (map (stripe_of S ?n ?pid ?st) [0..<m])) (k * S) S = subspan (ss ! (k mod length ss)) (k div length ss * S) S"
    if "k < length ss * m" for k
  proof -
    have "0 < length ss" using assms(3) by linarith
    then have "k mod length ss < length ss" by simp
    then have "data_disk (?pid s) (k mod length ss) = k mod length ss" for s by (simp add: data_disk_def raid4_parity_def)
    with \<open>k mod length ss < length ss\<close> show ?thesis using strip_of_array [OF a, of k] that by simp
  qed
  ultimately show ?thesis by (simp add: raid4_reading_def Let_def hs list_all_iff reads_done)
qed

lemma raid5_sids_nth: "j < n - 1 \<Longrightarrow> raid5_sids n s ! j = data_disk (raid5_parity n s) j"
  using raid_parity_range(2) [of n s] by (auto simp: raid5_sids_def raid5_parity_def Let_def nth_append data_disk_def)

lemma raid5_turns:
  assumes "i < n"
  shows "length (filter (\<lambda>t. raid5_parity n t \<noteq> i) [0..<m]) = (n - 1) * (m div n) + m mod n - (if i < n - m mod n then 0 else 1)"
proof -
  have "raid5_parity n t = i \<longleftrightarrow> t mod n = n - 1 - i" for t
  proof -
    have "n - q - 1 = i \<longleftrightarrow> q = n - 1 - i" if "q < n" for q using assms that by arith
    moreover have "t mod n < n" using assms by simp
    ultimately show ?thesis by (simp only: raid5_parity_def)
  qed
  then have "filter (\<lambda>t. raid5_parity n t = i) [0..<m] = filter (\<lambda>t. t mod n = n - 1 - i) [0..<m]" by simp
  then have p: "length (filter (\<lambda>t. raid5_parity n t = i) [0..<m]) = m div n + (if n - 1 - i < m mod n then 1 else 0)"
    using turns_total [of "n - 1 - i" n m] assms by (simp add: turns_def)
  have "length (filter (\<lambda>t. raid5_parity n t = i) [0..<m]) + length (filter (\<lambda>t. raid5_parity n t \<noteq> i) [0..<m]) = m"
    using sum_length_filter_compl [of "\<lambda>t. raid5_parity n t = i" "[0..<m]"] by simp
  moreover have "m = n * (m div n) + m mod n" by simp
  moreover have "n * (m div n) = (n - 1) * (m div n) + m div n" using assms by (cases n) auto
  moreover have "n - 1 - i < m mod n \<longleftrightarrow> \<not> i < n - m mod n" using assms by auto
  ultimately show ?thesis using p by (cases "i < n - m mod n") auto
qed

lemma raid5_reading_ok:
  assumes "S = 2 ^ k" "S mod 512 = 0" "3 \<le> length ss" "0 < m" "\<forall>s \<in> set ss. length s = m * S"
  shows "raid5_reading S m ss = Some True"
proof -
  let ?n = "length ss" and ?st = "\<lambda>i. ss ! i" and ?pid = "raid5_parity (length ss)"
  have hs: "map (\<lambda>i. \<lparr>st_bytes = ss ! i, st_reads = (?n - 1) * (m div ?n) + m mod ?n - (if i < ?n - m mod ?n then 0 else 1), st_writes = 0\<rparr>) [0..<?n] =
      reads_left ?n ?pid ?st m 0"
    by (auto simp: reads_left_def raid5_turns simp del: One_nat_def)
  have n: "0 < ?n" using assms(3) by linarith
  have a: "0 < S" "2 \<le> ?n" "\<forall>t. ?pid t < ?n" "\<forall>t < m. \<forall>i < ?n. i \<noteq> ?pid t \<longrightarrow> length (?st i) = m * S"
    using assms raid_parity_range(2) [OF n] by auto
  have "sp_read_all raid5_create S (reads_left ?n ?pid ?st m 0) ((?n - 1) * S * m) =
      Some (concat (map (stripe_of S ?n ?pid ?st) [0..<m]), reads_left ?n ?pid ?st m m)"
    by (rule sp_read_all_ok [OF a assms(4)]) (use create_arrays(2) [OF assms(1,2), of "reads_left ?n ?pid ?st m 0"] assms(3) in simp)
  moreover have "subspan (concat (map (stripe_of S ?n ?pid ?st) [0..<m])) (k * S) S =
      subspan (ss ! (raid5_sids ?n (k div (?n - 1)) ! (k mod (?n - 1)))) (k div (?n - 1) * S) S"
    if "k < (?n - 1) * m" for k
  proof -
    have "k mod (?n - 1) < ?n - 1" using assms(3) by (intro mod_less_divisor) linarith
    then show ?thesis using strip_of_array [OF a that] by (simp only: raid5_sids_nth)
  qed
  ultimately show ?thesis unfolding raid5_reading_def Let_def hs by (simp add: list_all_iff reads_done)
qed

subsection \<open>Writing\<close>

definition parity_verify :: "byte list list \<Rightarrow> nat \<Rightarrow> bool" where
  "parity_verify storages check_sz =
     list_all (\<lambda>i. foldl (XOR) (last storages ! i) (map (\<lambda>s. s ! i) (butlast storages)) = 0) [0..<check_sz]"

definition expect_writes :: "nat \<Rightarrow> store acceptor target \<Rightarrow> store acceptor target" where
  "expect_writes m t = t\<lparr>backend := (backend t)\<lparr>acc_be := (acc_be (backend t))\<lparr>
     sp_hs := map (\<lambda>h. h\<lparr>st_writes := m\<rparr>) (sp_hs (acc_be (backend t)))\<rparr>\<rparr>\<rparr>"

text \<open>One round per buffer; \<open>sid\<close> is the disk the test expects strip \<open>k\<close> of the buffer on.\<close>

fun sp_write_rounds :: "(nat \<Rightarrow> nat) \<Rightarrow> nat \<Rightarrow> nat \<Rightarrow> nat \<Rightarrow> byte list list \<Rightarrow> store acceptor target \<Rightarrow> bool option" where
  "sp_write_rounds sid S n m [] t = Some True"
| "sp_write_rounds sid S n m (buf # bufs) t = do {
     (r, e, t') \<leftarrow> raidsp_target_write store_ops 0 buf (expect_writes m t);
     let hs = sp_hs (acc_be (backend t'));
     if list_all (\<lambda>k. subspan buf (k * S) S = subspan (st_bytes (hs ! sid k)) (k div (n - 1) * S) S) [0..<(n - 1) * m]
       \<and> parity_verify (map st_bytes hs) S \<and> calls_done hs
     then sp_write_rounds sid S n m bufs t' else Some False }"

definition raid4_writing :: "nat \<Rightarrow> nat \<Rightarrow> nat \<Rightarrow> byte list \<Rightarrow> byte list \<Rightarrow> bool option" where
  "raid4_writing S n m buf1 buf2 = do {
     acc \<leftarrow> raid4_create S (replicate n (Some \<lparr>st_bytes = make_unique_zeroed_bytes (S * m), st_reads = 0, st_writes = 0\<rparr>));
     sp_write_rounds (\<lambda>k. k mod (n - 1)) S n m [buf1, buf2] \<lparr>fsm = Online, backend = acc\<rparr> }"

definition raid5_writing :: "nat \<Rightarrow> nat \<Rightarrow> nat \<Rightarrow> byte list \<Rightarrow> byte list \<Rightarrow> bool option" where
  "raid5_writing S n m buf1 buf2 = do {
     acc \<leftarrow> raid5_create S (replicate n (Some \<lparr>st_bytes = make_unique_zeroed_bytes (S * m), st_reads = 0, st_writes = 0\<rparr>));
     sp_write_rounds (\<lambda>k. raid5_sids n (k div (n - 1)) ! (k mod (n - 1))) S n m [buf1, buf2] \<lparr>fsm = Online, backend = acc\<rparr> }"

definition put :: "nat \<Rightarrow> byte list \<Rightarrow> store \<Rightarrow> store" where
  "put off b h = h\<lparr>st_bytes := copy_at (st_bytes h) off b, st_writes := st_writes h - 1\<rparr>"

fun puts :: "nat \<Rightarrow> nat \<Rightarrow> byte list \<Rightarrow> nat \<Rightarrow> nat list \<Rightarrow> (nat \<Rightarrow> store) \<Rightarrow> nat \<Rightarrow> store" where
  "puts S s buf wb [] f = f"
| "puts S s buf wb (d # ds) f = puts S s buf (wb + S) ds (f(d := put (s * S) (subspan buf wb S) (f d)))"

lemma puts_out: "d \<notin> set ds \<Longrightarrow> puts S s buf wb ds f d = f d"
  by (induction ds arbitrary: wb f) auto

lemma puts_nth:
  "distinct ds \<Longrightarrow> j < length ds \<Longrightarrow> puts S s buf wb ds f (ds ! j) = put (s * S) (subspan buf (wb + j * S) S) (f (ds ! j))"
proof (induction ds arbitrary: wb f j)
  case (Cons d ds)
  show ?case
  proof (cases j)
    case 0
    then show ?thesis using Cons.prems(1) by (simp add: puts_out)
  next
    case (Suc i)
    then have "ds ! i \<noteq> d" using Cons.prems by auto
    then show ?thesis using Suc Cons.prems Cons.IH [of i "wb + S"] by (simp add: add.assoc)
  qed
qed simp

lemma store_write_eq:
  "st_reads h = 0 \<Longrightarrow> st_writes h \<noteq> 0 \<Longrightarrow> b \<noteq> [] \<Longrightarrow> off + length b \<le> length (st_bytes h) \<Longrightarrow> store_write off b h = Some (0, 0, put off b h)"
  by (simp add: store_write_def put_def add.commute)

lemma sp_write_stores:
  assumes "distinct ds" "0 < S" "wb + length ds * S \<le> length buf"
    and "\<forall>d \<in> set ds. d < n \<and> st_reads (f d) = 0 \<and> st_writes (f d) \<noteq> 0 \<and> s * S + S \<le> length (st_bytes (f d))"
  shows "sp_write_strips store_ops S s 0 wb 0 buf (map f [0..<n]) ds =
    Some (0, wb + length ds * S, 0, map (puts S s buf wb ds f) [0..<n])"
  using assms(1,3,4)
proof (induction ds arbitrary: wb f)
  case (Cons d ds)
  have d: "d < n" "st_reads (f d) = 0" "st_writes (f d) \<noteq> 0" "s * S + S \<le> length (st_bytes (f d))" using Cons.prems(3) by auto
  have lt: "wb + S \<le> length buf" "wb + S + length ds * S \<le> length buf" using Cons.prems(2) by simp_all
  have sq: "subquery buf wb S = Some (subspan buf wb S)" "length (subspan buf wb S) = S"
    using lt(1) assms(2) by (simp_all add: subquery_eq)
  then have "subspan buf wb S \<noteq> []" using assms(2) by auto
  then have w: "store_write (s * S) (subspan buf wb S) (f d) = Some (0, 0, put (s * S) (subspan buf wb S) (f d))"
    using d(2-4) sq(2) by (intro store_write_eq) simp_all
  have "min S (length buf - wb) = S" using lt(1) by simp
  then have "sp_write_strips store_ops S s 0 wb 0 buf (map f [0..<n]) (d # ds) =
      sp_write_strips store_ops S s 0 (wb + S) 0 buf (map (f(d := put (s * S) (subspan buf wb S) (f d))) [0..<n]) ds"
    using d(1) sq(1) w by (simp add: Let_def store_ops_def map_upt_update)
  also have "\<dots> = Some (0, wb + S + length ds * S, 0, map (puts S s buf (wb + S) ds (f(d := put (s * S) (subspan buf wb S) (f d)))) [0..<n])"
    by (rule Cons.IH) (use Cons.prems lt in auto)
  finally show ?case by (simp add: add.assoc)
qed simp

text \<open>What disk \<open>i\<close> gets of the stripe \<open>b\<close> when the parity goes to disk \<open>p\<close>.\<close>

definition piece :: "nat \<Rightarrow> nat \<Rightarrow> byte list \<Rightarrow> nat \<Rightarrow> byte list" where
  "piece S p b i = (if i = p then parity_of S b else subspan b ((if i < p then i else i - 1) * S) S)"

lemma piece_data: "piece S p b (data_disk p e) = subspan b (e * S) S"
  by (simp add: piece_def data_disk_def)

lemma length_piece:
  assumes "length b = S * (n - 1)" "i < n" "p < n"
  shows "length (piece S p b i) = S"
proof -
  have "(if i < p then i else i - 1) < n - 1" if "i \<noteq> p" using assms(2,3) that by auto
  then have "(if i < p then i else i - 1) * S + S \<le> S * (n - 1)" if "i \<noteq> p"
    using that mult_le_mono1 [of "Suc (if i < p then i else i - 1)" "n - 1" S] by (simp add: mult.commute)
  then show ?thesis using assms(1) by (auto simp: piece_def)
qed

text \<open>The disks of the first \<open>q\<close> data strips of a stripe.\<close>

definition data_disks :: "nat \<Rightarrow> nat \<Rightarrow> nat set" where
  "data_disks p q = data_disk p ` {0..<q}"

lemma data_disks_all: "p < n \<Longrightarrow> i \<in> data_disks p (n - 1) \<longleftrightarrow> i < n \<and> i \<noteq> p"
proof
  assume p: "p < n" and i: "i < n \<and> i \<noteq> p"
  then have "i = data_disk p (if i < p then i else i - 1)" "(if i < p then i else i - 1) < n - 1"
    by (auto simp: data_disk_def)
  then show "i \<in> data_disks p (n - 1)" unfolding data_disks_def by fastforce
qed (auto simp: data_disks_def data_disk_def)

lemma data_disks_out [simp]: "p \<notin> data_disks p q"
  by (auto simp: data_disks_def data_disk_def)

lemma set_data_disks [simp]: "set (map (data_disk p) [0..<q]) = data_disks p q"
  by (simp add: data_disks_def)

lemma data_disks_list:
  "q \<le> n - 1 \<Longrightarrow> p < n \<Longrightarrow> i \<in> data_disks p q \<Longrightarrow> i < n" "distinct (map (data_disk p) [0..<q])"
  by (auto simp: data_disks_def data_disk_def distinct_map inj_on_def)

text \<open>Writing the first \<open>q\<close> strips of a stripe and its parity.\<close>

lemma sp_part_stripe:
  assumes "0 < S" "2 \<le> n" "pid s < n" "0 < q" "q \<le> n - 1" "length b = q * S" "length par = S"
    and "\<forall>i < n. i = pid s \<or> i \<in> data_disks (pid s) q \<longrightarrow>
      st_reads (f i) = 0 \<and> st_writes (f i) \<noteq> 0 \<and> s * S + S \<le> length (st_bytes (f i))"
    and be: "sp_strip_sz be = S" "sp_stripe_data_sz be = S * (n - 1)" "sp_pid be = pid" "sp_hs be = map f [0..<n]"
  shows "sp_stripe_write store_ops s (0, b) (0, par) be = Some (0, 0, 0, be\<lparr>sp_hs := map (\<lambda>i.
      if i = pid s then put (s * S) par (f i)
      else if i \<in> data_disks (pid s) q then put (s * S) (piece S (pid s) b i) (f i) else f i) [0..<n]\<rparr>)"
proof -
  let ?p = "pid s" and ?ds = "map (data_disk (pid s)) [0..<q]"
  let ?g = "puts S s b 0 ?ds f"
  have u: "strips_round_up (q * S) S = q" by (rule strips_round_up_mult [OF assms(1)])
  have view: "handlers_data_view n ?p 0 q = Some ?ds"
    using handlers_data_view_eq [of "?p" n 0 q] assms(2,3,5) by simp
  have "sp_write_strips store_ops S s 0 0 0 b (map f [0..<n]) ?ds = Some (0, 0 + length ?ds * S, 0, map ?g [0..<n])"
  proof (rule sp_write_stores)
    show "\<forall>d \<in> set ?ds. d < n \<and> st_reads (f d) = 0 \<and> st_writes (f d) \<noteq> 0 \<and> s * S + S \<le> length (st_bytes (f d))"
      unfolding set_data_disks using data_disks_list(1) [OF assms(5,3)] assms(8) by blast
  qed (use assms(1,6) data_disks_list(2) in simp_all)
  then have w: "sp_write_strips store_ops S s 0 0 0 b (map f [0..<n]) ?ds = Some (0, q * S, 0, map ?g [0..<n])" by simp
  have g: "?g i = f i" if "i \<notin> data_disks ?p q" for i
    using that by (intro puts_out) (simp only: set_data_disks not_False_eq_True)
  have ne: "b \<noteq> []" "par \<noteq> []" using assms(1,4,6,7) by auto
  have pw: "store_write (s * S) par (?g ?p) = Some (0, 0, put (s * S) par (?g ?p))"
    unfolding g [OF data_disks_out] using assms(3,7,8) ne by (intro store_write_eq) simp_all
  have sp: "subspan par 0 S = par" using assms(7) by (simp add: subspan_def)
  have le: "q * S \<le> S * (n - 1)" using mult_le_mono1 [OF assms(5), of S] by (simp add: mult.commute)
  have "map (?g(?p := put (s * S) par (?g ?p))) [0..<n] = map (\<lambda>i. if i = ?p then put (s * S) par (f i)
      else if i \<in> data_disks ?p q then put (s * S) (piece S ?p b i) (f i) else f i) [0..<n]"
  proof (rule map_cong [OF refl])
    fix i
    show "(?g(?p := put (s * S) par (?g ?p))) i = (if i = ?p then put (s * S) par (f i)
        else if i \<in> data_disks ?p q then put (s * S) (piece S ?p b i) (f i) else f i)"
    proof (cases "i \<in> data_disks ?p q")
      case True
      then obtain j where j: "i = data_disk ?p j" "j < q" by (auto simp: data_disks_def)
      have "?g i = put (s * S) (piece S ?p b i) (f i)"
        using j puts_nth [of ?ds j S s b 0 f] data_disks_list(2) by (simp add: piece_data)
      then show ?thesis using True by auto
    qed (use g in auto)
  qed
  then show ?thesis
    using assms(1,3,6,7) ne u view w pw sp le
    by (simp add: sp_stripe_write_def be Let_def subquery_eq store_ops_def map_upt_update)
qed

lemma sp_full_stripe:
  assumes "0 < S" "2 \<le> n" "pid s < n" "length b = S * (n - 1)" "length par = S" "par = parity_of S b"
    and "\<forall>i < n. st_reads (f i) = 0 \<and> st_writes (f i) \<noteq> 0 \<and> s * S + S \<le> length (st_bytes (f i))"
    and be: "sp_strip_sz be = S" "sp_stripe_data_sz be = S * (n - 1)" "sp_pid be = pid" "sp_hs be = map f [0..<n]"
  shows "sp_stripe_write store_ops s (0, b) (0, par) be =
    Some (0, 0, 0, be\<lparr>sp_hs := map (\<lambda>i. put (s * S) (piece S (pid s) b i) (f i)) [0..<n]\<rparr>)"
proof -
  have e: "map (\<lambda>i. if i = pid s then put (s * S) par (f i)
      else if i \<in> data_disks (pid s) (n - 1) then put (s * S) (piece S (pid s) b i) (f i) else f i) [0..<n] =
      map (\<lambda>i. put (s * S) (piece S (pid s) b i) (f i)) [0..<n]"
    using assms(6) data_disks_all [OF assms(3)] by (intro map_cong) (auto simp: piece_def)
  have q: "0 < n - 1" "n - 1 \<le> n - 1" "length b = (n - 1) * S" using assms(2,4) by simp_all
  have f: "\<forall>i < n. i = pid s \<or> i \<in> data_disks (pid s) (n - 1) \<longrightarrow>
      st_reads (f i) = 0 \<and> st_writes (f i) \<noteq> 0 \<and> s * S + S \<le> length (st_bytes (f i))"
    using assms(7) by simp
  show ?thesis using sp_part_stripe [where f = f, OF assms(1-3) q assms(5) f be] unfolding e .
qed

text \<open>An array of \<open>n\<close> disks, not busy.\<close>

definition array :: "nat \<Rightarrow> nat \<Rightarrow> (nat \<Rightarrow> nat) \<Rightarrow> (nat \<Rightarrow> store) \<Rightarrow> nat \<Rightarrow> bool list \<Rightarrow> store acceptor" where
  "array S n pid f l co = \<lparr>acc_be = \<lparr>sp_strip_sz = S, sp_stripe_data_sz = S * (n - 1), sp_stripe_sz = S * (n - 1) + S,
     sp_pid = pid, sp_hs = map f [0..<n]\<rparr>, acc_lock = replicate l False, acc_coherent = co\<rparr>"

lemma array_simps [simp]:
  "sp_stripe_data_sz (acc_be (array S n pid f l co)) = S * (n - 1)" "sp_strip_sz (acc_be (array S n pid f l co)) = S"
  "sp_hs (acc_be (array S n pid f l co)) = map f [0..<n]" "acc_lock (array S n pid f l co) = replicate l False"
  "acc_coherent (array S n pid f l co) = co"
  by (simp_all add: array_def)

lemma acc_full_stripe:
  assumes "0 < S" "8 dvd S" "2 \<le> n" "pid s < n" "length b = S * (n - 1)" "s < length co"
    and "\<forall>i < n. st_reads (f i) = 0 \<and> st_writes (f i) \<noteq> 0 \<and> s * S + S \<le> length (st_bytes (f i))"
  shows "acc_process_stripe store_ops s (0, b) ((array S n pid f l co)\<lparr>acc_lock := lk\<rparr>) =
    Some (0, 0, (array S n pid (\<lambda>i. put (s * S) (piece S (pid s) b i) (f i)) l (co[s := True]))\<lparr>acc_lock := lk\<rparr>)"
proof -
  have ne: "b \<noteq> []" using assms(1,3,5) by auto
  have par: "parity_renew 0 b 0 (replicate S 0) = Some (parity_of S b)"
    using assms(1,2,5) parity_renew_eq [of 0 0 b "replicate S 0"] by simp
  have w: "sp_stripe_write store_ops s (0, b) (0, parity_of S b) (acc_be (array S n pid f l co)) =
      Some (0, 0, 0, acc_be (array S n pid (\<lambda>i. put (s * S) (piece S (pid s) b i) (f i)) l co))"
    using sp_full_stripe [of S n pid s b "parity_of S b" f "acc_be (array S n pid f l co)"] assms
    by (simp add: array_def)
  have "stripe_write store_ops s (0, b) (0, parity_of S b) ((array S n pid f l co)\<lparr>acc_lock := lk\<rparr>) =
      Some (0, 0, 0, (array S n pid (\<lambda>i. put (s * S) (piece S (pid s) b i) (f i)) l (co[s := True]))\<lparr>acc_lock := lk\<rparr>)"
    using w assms(6) update_True [of s co]
    by (simp add: stripe_write_def stripe_coherent_parity_write_def stripe_incoherent_parity_write_def
        is_stripe_parity_coherent_def) (auto simp: array_def)
  then show ?thesis using par ne assms(5)
    by (simp add: acc_process_stripe_def stripe_data_write_def Let_def)
qed

definition filled :: "nat \<Rightarrow> nat \<Rightarrow> (nat \<Rightarrow> nat) \<Rightarrow> nat \<Rightarrow> byte list \<Rightarrow> nat \<Rightarrow> nat \<Rightarrow> nat \<Rightarrow> byte list" where
  "filled S n pid D buf s m i = concat (map (\<lambda>t. piece S (pid t) (subspan buf (t * D) D) i) [s..<m])"

lemma pieces_length:
  assumes "length buf = m * (S * (n - 1))" "i < n" "\<forall>t. pid t < n" "t < m"
  shows "length (piece S (pid t) (subspan buf (t * (S * (n - 1))) (S * (n - 1))) i) = S"
proof (rule length_piece)
  show "length (subspan buf (t * (S * (n - 1))) (S * (n - 1))) = S * (n - 1)"
    using assms(1) mult_le_mono1 [of "Suc t" m "S * (n - 1)"] assms(4) by (intro length_subspan_in) simp
qed (use assms in auto)

lemma length_filled:
  assumes "length buf = m * (S * (n - 1))" "i < n" "\<forall>t. pid t < n"
  shows "length (filled S n pid (S * (n - 1)) buf s m i) = (m - s) * S"
  unfolding filled_def using pieces_length [OF assms] by (subst length_concat_same [of _ S]) auto

lemma acc_write_stripes:
  assumes "0 < S" "8 dvd S" "2 \<le> n" "\<forall>t. pid t < n" "length buf = m * D" "D = S * (n - 1)" "m \<le> l" "length co = l"
    and "\<forall>i < n. st_reads (f i) = 0 \<and> st_writes (f i) = m - s \<and> length (st_bytes (f i)) = m * S" "s \<le> m"
  shows "\<exists>co'. length co' = l \<and> acc_write_loop store_ops buf s 0 (s * D) 0 (array S n pid f l co) =
    Some (0, 0, array S n pid (\<lambda>i. (f i)\<lparr>st_bytes := copy_at (st_bytes (f i)) (s * S) (filled S n pid D buf s m i), st_writes := 0\<rparr>) l co')"
  using assms(10,8,9)
proof (induction arbitrary: f co rule: inc_induct)
  case base
  have "map f [0..<n] = map (\<lambda>i. (f i)\<lparr>st_bytes := copy_at (st_bytes (f i)) (m * S) (filled S n pid D buf m m i), st_writes := 0\<rparr>) [0..<n]"
    using base.prems(2) by (auto simp: filled_def)
  then have "array S n pid f l co =
      array S n pid (\<lambda>i. (f i)\<lparr>st_bytes := copy_at (st_bytes (f i)) (m * S) (filled S n pid D buf m m i), st_writes := 0\<rparr>) l co"
    by (simp add: array_def)
  then show ?case using base.prems(1) assms(5) by (intro exI [of _ co]) (subst acc_write_loop.simps, simp)
next
  case (step s)
  let ?b = "subspan buf (s * D) D"
  let ?f = "\<lambda>i. put (s * S) (piece S (pid s) ?b i) (f i)"
  have D: "0 < D" using assms(1,3,6) by simp
  have lt: "s * D + D \<le> m * D" "s * S + S \<le> m * S" "s < l"
    using mult_le_mono1 [of "Suc s" m D] mult_le_mono1 [of "Suc s" m S] step.hyps(2) assms(7) by simp_all
  have lb: "length ?b = D" using lt(1) assms(5) by simp
  have lp: "length (piece S (pid t) (subspan buf (t * D) D) i) = S" if "i < n" "t < m" for i t
    using pieces_length [OF _ that(1) assms(4) that(2)] assms(5,6) by simp
  have fi: "\<forall>i < n. st_reads (f i) = 0 \<and> st_writes (f i) \<noteq> 0 \<and> s * S + S \<le> length (st_bytes (f i))"
    using step.prems(2) step.hyps(2) lt(2) by auto
  have p: "acc_process_stripe store_ops s (0, ?b) ((array S n pid f l co)\<lparr>acc_lock := (replicate l False)[s := True]\<rparr>) =
      Some (0, 0, (array S n pid ?f l (co[s := True]))\<lparr>acc_lock := (replicate l False)[s := True]\<rparr>)"
    using acc_full_stripe [where S = S and n = n and pid = pid and s = s and b = ?b and co = co and f = f and l = l] assms(1-4,6) lb lt(3) step.prems(1) fi by simp
  have "\<forall>i < n. st_reads (?f i) = 0 \<and> st_writes (?f i) = m - Suc s \<and> length (st_bytes (?f i)) = m * S"
    using step.prems(2) lp [OF _ step.hyps(2)] lt(2) by (auto simp: put_def)
  with step.IH [of "co[s := True]" ?f] step.prems(1) obtain co' where co': "length co' = l"
    "acc_write_loop store_ops buf (Suc s) 0 (Suc s * D) 0 (array S n pid ?f l (co[s := True])) =
      Some (0, 0, array S n pid (\<lambda>i. (?f i)\<lparr>st_bytes := copy_at (st_bytes (?f i)) (Suc s * S) (filled S n pid D buf (Suc s) m i), st_writes := 0\<rparr>) l co')"
    by auto
  have "map (\<lambda>i. (?f i)\<lparr>st_bytes := copy_at (st_bytes (?f i)) (Suc s * S) (filled S n pid D buf (Suc s) m i), st_writes := 0\<rparr>) [0..<n] =
      map (\<lambda>i. (f i)\<lparr>st_bytes := copy_at (st_bytes (f i)) (s * S) (filled S n pid D buf s m i), st_writes := 0\<rparr>) [0..<n]"
  proof (rule map_cong [OF refl])
    fix i assume "i \<in> set [0..<n]"
    then have i: "i < n" by simp
    let ?x = "piece S (pid s) ?b i" and ?y = "filled S n pid D buf (Suc s) m i"
    have e: "filled S n pid D buf s m i = ?x @ ?y" using step.hyps(2) by (simp add: filled_def upt_conv_Cons)
    have "length ?y = (m - Suc s) * S" using length_filled [OF _ i assms(4)] assms(5,6) by simp
    then have "s * S + length (?x @ ?y) \<le> length (st_bytes (f i))"
      using lp [OF i step.hyps(2)] step.prems(2) i lt(2) by (simp add: diff_mult_distrib)
    from copy_at_append [OF this] have "copy_at (copy_at (st_bytes (f i)) (s * S) ?x) (Suc s * S) ?y = copy_at (st_bytes (f i)) (s * S) (?x @ ?y)"
      unfolding lp [OF i step.hyps(2)] by (simp add: add.commute)
    then show "(?f i)\<lparr>st_bytes := copy_at (st_bytes (?f i)) (Suc s * S) ?y, st_writes := 0\<rparr> =
        (f i)\<lparr>st_bytes := copy_at (st_bytes (f i)) (s * S) (filled S n pid D buf s m i), st_writes := 0\<rparr>"
      unfolding e by (simp add: put_def)
  qed
  then have arr: "array S n pid (\<lambda>i. (?f i)\<lparr>st_bytes := copy_at (st_bytes (?f i)) (Suc s * S) (filled S n pid D buf (Suc s) m i), st_writes := 0\<rparr>) l co' =
      array S n pid (\<lambda>i. (f i)\<lparr>st_bytes := copy_at (st_bytes (f i)) (s * S) (filled S n pid D buf s m i), st_writes := 0\<rparr>) l co'"
    by (simp add: array_def)
  have ul: "(array S n pid ?f l (co[s := True]))\<lparr>acc_lock := replicate l False\<rparr> = array S n pid ?f l (co[s := True])"
    by (simp add: array_def)
  have "acc_write_loop store_ops buf s 0 (s * D) 0 (array S n pid f l co) =
      acc_write_loop store_ops buf (Suc s) 0 (Suc s * D) 0 (array S n pid ?f l (co[s := True]))"
  proof -
    have c: "min (D - 0) (length buf - s * D) = D" "s * D < length buf" using lt(1) D assms(5) by linarith+
    have sq: "subquery buf (s * D) D = Some ?b" using lt(1) D assms(5) by (simp add: subquery_eq)
    have lk: "lk_try_lock (replicate l False) s = Some (True, (replicate l False)[s := True])"
      "lk_unlock ((replicate l False)[s := True]) s = Some (replicate l False)"
      using lt(3) by (simp_all add: lk_try_lock_def lk_unlock_def list_update_same_conv)
    show ?thesis using c p
      by (subst acc_write_loop.simps)
        (simp add: Let_def assms(6) [symmetric] sq lk acc_complete_def ul add.commute del: One_nat_def)
  qed
  with co' arr show ?case by auto
qed

lemma array_write_all:
  assumes "0 < S" "8 dvd S" "2 \<le> n" "\<forall>t. pid t < n" "0 < m" "length buf = m * (S * (n - 1))" "l \<le> m" "length co = l"
    and "\<forall>i < n. st_reads (f i) = 0 \<and> length (st_bytes (f i)) = m * S"
  shows "\<exists>co'. length co' = m \<and> raidsp_target_write store_ops 0 buf (expect_writes m \<lparr>fsm = Online, backend = array S n pid f l co\<rparr>) =
    Some (0, 0, \<lparr>fsm = Online, backend = array S n pid
      (\<lambda>i. \<lparr>st_bytes = filled S n pid (S * (n - 1)) buf 0 m i, st_reads = 0, st_writes = 0\<rparr>) m co'\<rparr>)"
proof -
  let ?D = "S * (n - 1)" and ?f = "\<lambda>i. (f i)\<lparr>st_writes := m\<rparr>"
  let ?g = "\<lambda>i. \<lparr>st_bytes = filled S n pid (S * (n - 1)) buf 0 m i, st_reads = 0, st_writes = 0\<rparr>"
  have D: "0 < ?D" using assms(1,3) by simp
  have e: "expect_writes m \<lparr>fsm = Online, backend = array S n pid f l co\<rparr> = \<lparr>fsm = Online, backend = array S n pid ?f l co\<rparr>"
    by (simp add: expect_writes_def array_def)
  have u: "strips_round_up (m * ?D) ?D = m" by (rule strips_round_up_mult [OF D])
  have lk: "lk_extend (replicate l False) m = replicate m False"
    using assms(7) by (auto simp: lk_extend_def resize_unlocked)
  have "\<forall>i < n. st_reads (?f i) = 0 \<and> st_writes (?f i) = m - 0 \<and> length (st_bytes (?f i)) = m * S" using assms(9) by simp
  from acc_write_stripes [OF assms(1-4,6) refl order_refl length_bs_resize this] obtain co' where co': "length co' = m"
    "acc_write_loop store_ops buf 0 0 (0 * ?D) 0 (array S n pid ?f m (bs_resize co m)) =
      Some (0, 0, array S n pid (\<lambda>i. (?f i)\<lparr>st_bytes := copy_at (st_bytes (?f i)) (0 * S) (filled S n pid ?D buf 0 m i), st_writes := 0\<rparr>) m co')"
    by auto
  have "map (\<lambda>i. (?f i)\<lparr>st_bytes := copy_at (st_bytes (?f i)) (0 * S) (filled S n pid ?D buf 0 m i), st_writes := 0\<rparr>) [0..<n] = map ?g [0..<n]"
    using assms(9) length_filled [OF assms(6) _ assms(4), of _ 0] by (auto intro!: store.equality)
  then have arr: "array S n pid (\<lambda>i. (?f i)\<lparr>st_bytes := copy_at (st_bytes (?f i)) (0 * S) (filled S n pid ?D buf 0 m i), st_writes := 0\<rparr>) m co' =
      array S n pid ?g m co'" by (simp only: array_def)
  have ne: "buf \<noteq> []" using D assms(5,6) by auto
  have "(array S n pid ?f l co)\<lparr>acc_lock := replicate m False, acc_coherent := bs_resize co m\<rparr> = array S n pid ?f m (bs_resize co m)"
    by (simp add: array_def)
  then have "acc_write store_ops 0 buf (array S n pid ?f l co) = Some (0, 0, array S n pid ?g m co')"
    using co'(2) ne D unfolding arr by (simp add: acc_write_def Let_def assms(6) u lk max_absorb2 [OF assms(7)] del: One_nat_def)
  then have "raidsp_target_write store_ops 0 buf \<lparr>fsm = Online, backend = array S n pid ?f l co\<rparr> =
      Some (0, 0, \<lparr>fsm = Online, backend = array S n pid ?g m co'\<rparr>)"
    unfolding raidsp_target_write_def using ne by (subst target_write_online [where r = 0 and e = 0]) simp_all
  with co'(1) show ?thesis unfolding e by blast
qed

lemma filled_strip:
  assumes "length buf = m * (S * (n - 1))" "\<forall>t. pid t < n" "2 \<le> n" "k < (n - 1) * m"
  shows "subspan (filled S n pid (S * (n - 1)) buf 0 m (data_disk (pid (k div (n - 1))) (k mod (n - 1)))) (k div (n - 1) * S) S =
    subspan buf (k * S) S"
proof -
  let ?s = "k div (n - 1)" and ?e = "k mod (n - 1)" and ?D = "S * (n - 1)"
  let ?i = "data_disk (pid ?s) ?e"
  have n: "0 < n - 1" using assms(3) by simp
  have s: "?s < m" "?e < n - 1" using assms(4) n by (simp_all add: less_mult_imp_div_less mult.commute)
  have i: "?i < n" using data_disk_facts(3) s(2) assms(2) by simp
  have k: "?s * ?D + ?e * S = k * S" using div_mult_mod_eq [of k "n - 1"] by (metis add_mult_distrib mult.assoc mult.commute)
  have le: "?e * S + S \<le> ?D" using mult_le_mono1 [of "Suc ?e" "n - 1" S] s(2) by (simp add: mult.commute)
  have "subspan (filled S n pid ?D buf 0 m ?i) (?s * S) S = piece S (pid ?s) (subspan buf (?s * ?D) ?D) ?i"
    unfolding filled_def using pieces_length [OF assms(1) i assms(2)] s(1)
    by (subst subspan_concat [where k = ?s]) auto
  also have "\<dots> = subspan buf (k * S) S" unfolding piece_data k [symmetric] by (rule subspan_subspan [OF le])
  finally show ?thesis .
qed

lemma col_strip: "off + length ys \<le> S \<Longrightarrow> i < S \<Longrightarrow>
    col S i off ys = (if off \<le> i \<and> i < off + length ys then ys ! (i - off) else 0)"
proof (induction ys arbitrary: off)
  case (Cons y ys)
  then have "col S i (Suc off) ys = (if Suc off \<le> i \<and> i < Suc off + length ys then ys ! (i - Suc off) else 0)" by simp
  then show ?case using Cons.prems by (auto simp: nth_Cons' Suc_diff_Suc)
qed auto

lemma col_strips:
  assumes "length b = q * S" "i < S"
  shows "col S i 0 b = foldr (XOR) (map (\<lambda>j. b ! (j * S + i)) [0..<q]) 0"
  using assms(1)
proof (induction q arbitrary: b)
  case (Suc q)
  let ?x = "take S b" and ?y = "drop S b"
  have l: "length ?x = S" "length ?y = q * S" using Suc.prems by simp_all
  have "col S i 0 b = col S i 0 ?x XOR col S i S ?y" using col_append [of S i 0 ?x ?y] l(1) by simp
  also have "col S i S ?y = col S i 0 ?y" by (rule col_mod) simp
  also have "col S i 0 ?y = foldr (XOR) (map (\<lambda>j. ?y ! (j * S + i)) [0..<q]) 0" by (rule Suc.IH [OF l(2)])
  also have "map (\<lambda>j. ?y ! (j * S + i)) [0..<q] = map (\<lambda>j. b ! (Suc j * S + i)) [0..<q]"
    using l Suc.prems by (auto simp: add.assoc)
  also have "col S i 0 ?x = b ! i" using l(1) assms(2) by (simp add: col_strip)
  finally show ?case unfolding map_upt_Suc by simp
qed simp

lemma foldl_xor: "foldl (XOR) c xs = c XOR foldr (XOR) xs (0 :: 'a::len word)"
  by (induction xs arbitrary: c) (simp_all add: xor.assoc)

lemma first_stripe_parity:
  assumes "2 \<le> n" "length buf = m * (S * (n - 1))" "0 < m" "\<forall>t. pid t < n" "pid 0 = n - 1"
  shows "parity_verify (map (filled S n pid (S * (n - 1)) buf 0 m) [0..<n]) S"
proof -
  let ?D = "S * (n - 1)" and ?F = "filled S n pid (S * (n - 1)) buf 0 m"
  obtain q where n: "n = Suc q" using assms(1) by (cases n) auto
  have b: "length (subspan buf 0 ?D) = q * S"
    using assms(2,3) n mult_le_mono1 [of 1 m ?D] by (simp add: mult.commute)
  have nth: "?F j ! i = piece S (n - 1) (subspan buf 0 ?D) j ! i" if "i < S" "j < n" for i j
  proof -
    have l: "length (piece S (pid 0) (subspan buf (0 * ?D) ?D) j) = S" by (rule pieces_length [OF assms(2) that(2) assms(4,3)])
    have "?F j = piece S (pid 0) (subspan buf (0 * ?D) ?D) j @ filled S n pid ?D buf 1 m j"
      using assms(3) by (simp add: filled_def upt_conv_Cons)
    then show ?thesis using l that(1) assms(5) by (simp add: nth_append)
  qed
  have "foldl (XOR) (last (map ?F [0..<n]) ! i) (map (\<lambda>s. s ! i) (butlast (map ?F [0..<n]))) = 0" if i: "i < S" for i
  proof -
    have "last (map ?F [0..<n]) ! i = col S i 0 (subspan buf 0 ?D)"
      using nth [OF i, of q] i n by (simp add: piece_def parity_of_def)
    moreover have "map (\<lambda>s. s ! i) (butlast (map ?F [0..<n])) = map (\<lambda>j. subspan buf 0 ?D ! (j * S + i)) [0..<q]"
    proof -
      have "?F j ! i = subspan buf 0 ?D ! (j * S + i)" if "j < q" for j
      proof -
        have "j * S + S \<le> q * S" using mult_le_mono1 [of "Suc j" q S] that by simp
        then show ?thesis using nth [OF i, of j] that n b i by (simp add: piece_def nth_subspan)
      qed
      then show ?thesis using n by (simp add: map_butlast [symmetric] o_def)
    qed
    ultimately show ?thesis using col_strips [OF b i] by (simp add: foldl_xor)
  qed
  then show ?thesis by (simp add: parity_verify_def list_all_iff)
qed

lemma write_rounds_ok:
  assumes "0 < S" "8 dvd S" "2 \<le> n" "\<forall>t. pid t < n" "0 < m" "pid 0 = n - 1"
    and "\<forall>k < (n - 1) * m. sid k = data_disk (pid (k div (n - 1))) (k mod (n - 1))"
    and "\<forall>buf \<in> set bufs. length buf = m * (S * (n - 1))" "l \<le> m" "length co = l"
    and "\<forall>i < n. st_reads (f i) = 0 \<and> length (st_bytes (f i)) = m * S"
  shows "sp_write_rounds sid S n m bufs \<lparr>fsm = Online, backend = array S n pid f l co\<rparr> = Some True"
  using assms(8-)
proof (induction bufs arbitrary: f l co)
  case (Cons buf bufs)
  let ?g = "\<lambda>i. \<lparr>st_bytes = filled S n pid (S * (n - 1)) buf 0 m i, st_reads = 0, st_writes = 0\<rparr>"
  have lb: "length buf = m * (S * (n - 1))" using Cons.prems(1) by simp
  from array_write_all [OF assms(1-5) lb Cons.prems(2-4)] obtain co' where co': "length co' = m"
    "raidsp_target_write store_ops 0 buf (expect_writes m \<lparr>fsm = Online, backend = array S n pid f l co\<rparr>) =
      Some (0, 0, \<lparr>fsm = Online, backend = array S n pid ?g m co'\<rparr>)" by blast
  have "subspan buf (k * S) S = subspan (st_bytes (map ?g [0..<n] ! sid k)) (k div (n - 1) * S) S" if "k < (n - 1) * m" for k
  proof -
    have "0 < n - 1" using assms(3) by simp
    then have "k mod (n - 1) < n - 1" by simp
    then have "sid k < n" using assms(4,7) that data_disk_facts(3) by simp
    then show ?thesis using filled_strip [OF lb assms(4,3) that] assms(7) that by simp
  qed
  moreover have "parity_verify (map st_bytes (map ?g [0..<n])) S"
    using first_stripe_parity [OF assms(3) lb assms(5,4,6)] by (simp add: o_def)
  moreover have "calls_done (map ?g [0..<n])" by (simp add: calls_done_def list_all_iff)
  moreover have "sp_write_rounds sid S n m bufs \<lparr>fsm = Online, backend = array S n pid ?g m co'\<rparr> = Some True"
    by (rule Cons.IH) (use Cons.prems(1) co'(1) length_filled [OF lb _ assms(4)] in auto)
  ultimately show ?case by (simp add: co'(2) Let_def list_all_iff del: One_nat_def)
qed simp

lemma replicate_upt: "replicate n x = map (\<lambda>i. x) [0..<n]"
  by (simp add: map_replicate_const)

lemma raid45_writing_ok:
  assumes "S = 2 ^ k" "S mod 512 = 0" "3 \<le> n" "0 < m" "length buf1 = m * (S * (n - 1))" "length buf2 = m * (S * (n - 1))"
  shows "raid4_writing S n m buf1 buf2 = Some True" "raid5_writing S n m buf1 buf2 = Some True"
proof -
  let ?h = "\<lparr>st_bytes = make_unique_zeroed_bytes (S * m), st_reads = 0, st_writes = 0\<rparr>"
  have S: "0 < S" "8 dvd S" using assms(1,2) by (auto dest!: mod_0_imp_dvd intro: dvd_trans [of 8 512])
  have n: "2 \<le> n" "0 < n" "3 \<le> length (replicate n ?h)" using assms(3) by simp_all
  have b: "\<forall>buf \<in> set [buf1, buf2]. length buf = m * (S * (n - 1))" using assms(5,6) by simp
  have f: "\<forall>i < n. st_reads ?h = 0 \<and> length (st_bytes ?h) = m * S" by (simp add: make_unique_zeroed_bytes_def)
  have e: "k mod (n - 1) < n - 1" for k using n(1) by simp
  have p: "\<forall>t. raid4_parity n t < n" "\<forall>t. raid5_parity n t < n" "raid4_parity n 0 = n - 1" "raid5_parity n 0 = n - 1"
    using raid_parity_range n(2) by (auto simp: raid4_parity_def raid5_parity_def)
  have "raid4_create S (map Some (replicate n ?h)) = Some (array S n (raid4_parity n) (\<lambda>i. ?h) 0 [])"
    "raid5_create S (map Some (replicate n ?h)) = Some (array S n (raid5_parity n) (\<lambda>i. ?h) 0 [])"
    using create_arrays [OF assms(1,2) n(3)] by (simp_all add: array_def replicate_upt [symmetric])
  then have c: "raid4_create S (replicate n (Some ?h)) = Some (array S n (raid4_parity n) (\<lambda>i. ?h) 0 [])"
    "raid5_create S (replicate n (Some ?h)) = Some (array S n (raid5_parity n) (\<lambda>i. ?h) 0 [])" by simp_all
  have "\<forall>k < (n - 1) * m. k mod (n - 1) = data_disk (raid4_parity n (k div (n - 1))) (k mod (n - 1))"
    using e by (simp add: data_disk_def raid4_parity_def)
  from write_rounds_ok [OF S n(1) p(1) assms(4) p(3) this b le0 _ f]
  show "raid4_writing S n m buf1 buf2 = Some True" by (simp add: raid4_writing_def c del: One_nat_def sp_write_rounds.simps)
  have "\<forall>k < (n - 1) * m. raid5_sids n (k div (n - 1)) ! (k mod (n - 1)) = data_disk (raid5_parity n (k div (n - 1))) (k mod (n - 1))"
    using e by (simp add: raid5_sids_nth)
  from write_rounds_ok [OF S n(1) p(2) assms(4) p(4) this b le0 _ f]
  show "raid5_writing S n m buf1 buf2 = Some True" by (simp add: raid5_writing_def c del: One_nat_def sp_write_rounds.simps)
qed

text \<open>
  RAID4 and RAID5 pass their tests of reading and writing all stripes at once, for every strip size, number of disks,
  number of stripes and content: each disk is called exactly as often as the test expects, every strip lies on the disk the
  test computes, and after each of two writes the XOR of all disks is zero on the bytes the test checks.
\<close>

lemma raid45_array_tests_pass:
  assumes "S = 2 ^ k" "S mod 512 = 0" "3 \<le> n" "0 < m"
    and "length ds = n - 1" "length ss = n" "\<forall>s \<in> set ds \<union> set ss. length s = m * S"
    and "length buf1 = m * (S * (n - 1))" "length buf2 = m * (S * (n - 1))"
  shows "raid4_reading S m ds = Some True \<and> raid5_reading S m ss = Some True \<and>
    raid4_writing S n m buf1 buf2 = Some True \<and> raid5_writing S n m buf1 buf2 = Some True"
  using assms raid4_reading_ok [OF assms(1,2), of ds m] raid5_reading_ok [OF assms(1,2), of ss m]
    raid45_writing_ok [OF assms(1-4,8,9)] by simp

end
