(* ===== verification/Partial_Tests.thy ===== *)
theory Partial_Tests
  imports Parity_Tests
begin

unbundle bit_operations_syntax

text \<open>
  The tests of \<open>ut/raid4/raid4.cpp\<close> that write stripe by stripe: whole stripes and then their first
  halves, which update the parity by the difference, and first halves only, which compute the parity
  anew.  As for the other tests, each disk is called exactly as often as the test expects; that the
  parity is written after the last read of any disk is not observed by the mock of one disk.
\<close>

subsection \<open>The tests\<close>

text \<open>The expectations of a round: the reads and the writes of each disk, in this order.\<close>

definition expect_calls :: "(nat \<Rightarrow> nat) \<Rightarrow> (nat \<Rightarrow> nat) \<Rightarrow> store acceptor target \<Rightarrow> store acceptor target" where
  "expect_calls r w t = (let be = acc_be (backend t); hs = sp_hs be in
     t\<lparr>backend := (backend t)\<lparr>acc_be := be\<lparr>sp_hs := map (\<lambda>i. (hs ! i)\<lparr>st_reads := r i, st_writes := w i\<rparr>) [0..<length hs]\<rparr>\<rparr>\<rparr>)"

definition disks_of :: "store acceptor target \<Rightarrow> store list" where
  "disks_of t = sp_hs (acc_be (backend t))"

text \<open>
  The comparison after a write at \<open>start\<close>: strip by strip in the first test; in the others with the
  size of a piece computed as the code does, in 64 bits and from the offset in the array rather than
  in the buffer.  An empty piece would repeat for ever.
\<close>

definition strips_stored :: "nat \<Rightarrow> nat \<Rightarrow> nat \<Rightarrow> byte list \<Rightarrow> store list \<Rightarrow> bool" where
  "strips_stored S n start buf hs = list_all (\<lambda>k. let off = start + k * S in
     subspan buf (k * S) S = subspan (st_bytes (hs ! (off div S mod (n - 1)))) (off div (S * (n - 1)) * S) S)
     [0..<strips_round_up (length buf) S]"

lemma parts_progress:
  "off - start < len \<Longrightarrow> expects (c \<noteq> 0) = Some u \<Longrightarrow> start + len - (off + c) < start + len - (off :: nat)"
  by (auto simp: expects_def split: if_splits)

function parts_stored :: "nat \<Rightarrow> nat \<Rightarrow> nat \<Rightarrow> byte list \<Rightarrow> store list \<Rightarrow> nat \<Rightarrow> bool option" where
  "parts_stored S n start buf hs off =
     (if \<not> off - start < length buf then Some True
      else let chunk = min S ((u64_limit + length buf - off) mod u64_limit);
               sid = off div S mod (n - 1); soff = off div (S * (n - 1)) * S in do {
        expects (chunk \<noteq> 0);
        expects (off - start + chunk \<le> length buf);
        expects (soff + chunk \<le> length (st_bytes (hs ! sid)));
        if subspan buf (off - start) chunk = subspan (st_bytes (hs ! sid)) soff chunk
        then parts_stored S n start buf hs (off + chunk) else Some False })"
  by pat_completeness auto

termination
proof (relation "measure (\<lambda>(S, n, start, buf, hs, off). start + length buf - off)", goal_cases)
  case 2
  then show ?case by (simp only: in_measure prod.case not_not) (erule parts_progress)
qed simp

declare parts_stored.simps [simp del]

fun full_rounds :: "nat \<Rightarrow> nat \<Rightarrow> nat \<Rightarrow> byte list list \<Rightarrow> store acceptor target \<Rightarrow> (bool \<times> store acceptor target) option" where
  "full_rounds S n stripe_id [] t = Some (True, t)"
| "full_rounds S n stripe_id (buf # bufs) t = (let start_off = stripe_id * (S * (n - 1)) in do {
     (r, e, t') \<leftarrow> raidsp_target_write store_ops start_off buf (expect_calls (\<lambda>_. 0) (\<lambda>_. 1) t);
     if strips_stored S n start_off buf (disks_of t') \<and> calls_done (disks_of t')
     then full_rounds S n (Suc stripe_id) bufs t' else Some (False, t') })"

text \<open>\<open>r\<close> and \<open>w\<close> are the expected reads and writes of a round.\<close>

fun partial_rounds :: "(nat \<Rightarrow> nat) \<Rightarrow> (nat \<Rightarrow> nat) \<Rightarrow> nat \<Rightarrow> nat \<Rightarrow> nat \<Rightarrow> byte list list \<Rightarrow> store acceptor target \<Rightarrow>
    (bool \<times> store acceptor target) option" where
  "partial_rounds r w S n stripe_id [] t = Some (True, t)"
| "partial_rounds r w S n stripe_id (buf # bufs) t = (let start_off = stripe_id * (S * (n - 1)) in do {
     (res, e, t') \<leftarrow> raidsp_target_write store_ops start_off buf (expect_calls r w t);
     ok \<leftarrow> parts_stored S n start_off buf (disks_of t') start_off;
     if ok \<and> calls_done (disks_of t') then partial_rounds r w S n (Suc stripe_id) bufs t' else Some (False, t') })"

text \<open>The buffers are the random contents; a partial write has half the size of a stripe.\<close>

definition raid4_full_then_partial :: "nat \<Rightarrow> nat \<Rightarrow> nat \<Rightarrow> byte list list \<Rightarrow> byte list list \<Rightarrow> bool option" where
  "raid4_full_then_partial S n m bufs parts = (let affected = strips_round_up (S * (n - 1) div 2) S;
       calls = (\<lambda>i. if i < affected \<or> i = n - 1 then 1 else 0) in do {
     acc \<leftarrow> raid4_create S (replicate n (Some \<lparr>st_bytes = make_unique_zeroed_bytes (S * m), st_reads = 0, st_writes = 0\<rparr>));
     (ok, t) \<leftarrow> full_rounds S n 0 bufs \<lparr>fsm = Online, backend = acc\<rparr>;
     if \<not> ok \<or> \<not> parity_verify (map st_bytes (disks_of t)) S then Some False
     else do {
       (ok', t') \<leftarrow> partial_rounds calls calls S n 0 parts t;
       Some (ok' \<and> parity_verify (map st_bytes (disks_of t')) S) } })"

definition raid4_partial :: "nat \<Rightarrow> nat \<Rightarrow> nat \<Rightarrow> byte list list \<Rightarrow> bool option" where
  "raid4_partial S n m parts = (let affected = strips_round_up (S * (n - 1) div 2) S in do {
     acc \<leftarrow> raid4_create S (replicate n (Some \<lparr>st_bytes = make_unique_zeroed_bytes (S * m), st_reads = 0, st_writes = 0\<rparr>));
     (ok, t) \<leftarrow> partial_rounds (\<lambda>i. if i < n - 1 then 1 else 0) (\<lambda>i. if i < affected \<or> i = n - 1 then 1 else 0)
       S n 0 parts \<lparr>fsm = Online, backend = acc\<rparr>;
     Some (ok \<and> parity_verify (map st_bytes (disks_of t)) S) })"

subsection \<open>Reading a part of a stripe\<close>

lemma concat_strips: "concat (map (\<lambda>e. subspan xs (a + e * S) S) [0..<q]) = subspan xs a (q * S)"
  by (induction q) (simp_all add: subspan_append [symmetric] add.commute)

lemma concat_update:
  assumes "\<forall>x \<in> set xs. length x = L" "length y = L" "s < length xs"
  shows "copy_at (concat xs) (s * L) y = concat (xs[s := y])"
  using assms(1,3)
proof (induction xs arbitrary: s)
  case (Cons x xs)
  have front: "copy_at (x @ ys) (L + k) y = x @ copy_at ys k y" for ys k
    using Cons.prems(1) by (simp add: copy_at_def)
  show ?case
  proof (cases s)
    case 0
    then show ?thesis using Cons.prems(1) assms(2) by (simp add: copy_at_def)
  next
    case (Suc t)
    then show ?thesis using Cons front [of "concat xs" "t * L"] by simp
  qed
qed simp

lemma filled_nth:
  assumes "length V = m * (S * (n - 1))" "\<forall>t. pid t < n" "i < n" "s < m"
  shows "subspan (filled S n pid (S * (n - 1)) V 0 m i) (s * S) S = piece S (pid s) (subspan V (s * (S * (n - 1))) (S * (n - 1))) i"
  unfolding filled_def using pieces_length [OF assms(1,3,2)] assms(4) by (subst subspan_concat [where k = s]) auto

lemma filled_put:
  assumes "length V = m * (S * (n - 1))" "\<forall>t. pid t < n" "i < n" "s < m" "length b \<le> S * (n - 1)"
    and "V' = copy_at V (s * (S * (n - 1))) b"
  shows "copy_at (filled S n pid (S * (n - 1)) V 0 m i) (s * S) (piece S (pid s) (subspan V' (s * (S * (n - 1))) (S * (n - 1))) i) =
    filled S n pid (S * (n - 1)) V' 0 m i"
proof -
  let ?D = "S * (n - 1)"
  let ?P = "\<lambda>V t. piece S (pid t) (subspan V (t * ?D) ?D) i"
  have le: "s * ?D + length b \<le> length V" using strip_bound [OF assms(4), of ?D] assms(1,5) by linarith
  have l: "length V' = m * ?D" using assms(1,6) length_copy_at [OF le] by simp
  have other: "subspan V' (t * ?D) ?D = subspan V (t * ?D) ?D" if "t \<noteq> s" for t
  proof (cases "t < s")
    case True
    then show ?thesis unfolding assms(6) by (intro subspan_copy_at_before [OF le] strip_bound)
  next
    case False
    then have "s * ?D + ?D \<le> t * ?D" using that by (intro strip_bound) simp
    then show ?thesis unfolding assms(6) using assms(5) by (intro subspan_copy_at_after [OF le]) linarith
  qed
  have "(map (?P V) [0..<m])[s := ?P V' s] = map (?P V') [0..<m]"
    by (rule nth_equalityI) (use other assms(4) in \<open>auto simp: nth_list_update\<close>)
  moreover have "copy_at (concat (map (?P V) [0..<m])) (s * S) (?P V' s) = concat ((map (?P V) [0..<m])[s := ?P V' s])"
    using pieces_length [OF assms(1,3,2)] pieces_length [OF l assms(3,2,4)] assms(4) by (intro concat_update) auto
  ultimately show ?thesis unfolding filled_def by simp
qed

lemma sp_part_read:
  assumes "0 < S" "2 \<le> n" "pid s < n" "0 < q" "q \<le> n - 1" "length buf = q * S"
    and "\<forall>i < n. i \<in> data_disks (pid s) q \<longrightarrow> st_reads (f i) \<noteq> 0 \<and> s * S + S \<le> length (st_bytes (f i))"
    and be: "sp_strip_sz be = S" "sp_stripe_data_sz be = S * (n - 1)" "sp_pid be = pid" "sp_hs be = map f [0..<n]"
  shows "sp_data_read store_ops s 0 buf be =
    Some (0, 0, concat (map (\<lambda>e. subspan (st_bytes (f (data_disk (pid s) e))) (s * S) S) [0..<q]),
      be\<lparr>sp_hs := map (\<lambda>i. if i \<in> data_disks (pid s) q then took (f i) else f i) [0..<n]\<rparr>)"
proof -
  let ?p = "pid s" and ?ds = "map (data_disk (pid s)) [0..<q]"
  let ?hs = "map (\<lambda>i. if i \<in> data_disks ?p q then took (f i) else f i) [0..<n]"
    and ?out = "concat (map (\<lambda>d. subspan (st_bytes (f d)) (s * S) S) ?ds)"
  have le: "q * S \<le> S * (n - 1)" using mult_le_mono1 [OF assms(5), of S] by (simp add: mult.commute)
  have D: "0 < S * (n - 1)" using assms(1,2) by simp
  have u: "strips_round_up (q * S) S = q" by (rule strips_round_up_mult [OF assms(1)])
  have view: "handlers_data_view n ?p 0 q = Some ?ds"
    using handlers_data_view_eq [of "?p" n 0 q] assms(2,3,5) by simp
  have ds: "\<forall>d \<in> set ?ds. d < n \<and> st_reads (f d) \<noteq> 0 \<and> s * S + S \<le> length (st_bytes (f d))"
    unfolding set_data_disks using data_disks_list(1) [OF assms(5,3)] assms(7) by blast
  have lo: "length ?out = q * S" using ds by (subst length_concat_same [of _ S]) auto
  have "sp_read_strips store_ops S s 0 (length ?ds * S) 0 0 buf (map f [0..<n]) ?ds =
      Some (0, 0 + length ?ds * S, 0, 0, copy_at buf 0 ?out, map (\<lambda>i. if i \<in> set ?ds then took (f i) else f i) [0..<n])"
    by (rule sp_read_stores) (use assms(1,6) ds data_disks_list(2) in simp_all)
  then have r: "sp_read_strips store_ops S s 0 (q * S) 0 0 buf (map f [0..<n]) ?ds = Some (0, q * S, 0, 0, ?out, ?hs)"
    unfolding set_data_disks using lo assms(6) by simp
  have "sp_data_read_loop store_ops be (q * S) s 0 0 0 buf (map f [0..<n]) =
      sp_data_read_loop store_ops be (q * S) (Suc s) 0 (q * S) 0 ?out ?hs"
    by (subst sp_data_read_loop.simps) (use assms(1-4) le r u view in \<open>simp add: Let_def be\<close>)
  also have "\<dots> = Some (0, 0, ?out, ?hs)" by (subst sp_data_read_loop.simps) simp
  finally show ?thesis
    using assms(1,4,6) D by (auto simp: sp_data_read_def be o_def)
qed

lemma sp_parity_read_store:
  assumes "0 < S" "pid s < n" "length buf = S" "st_reads (f (pid s)) \<noteq> 0" "s * S + S \<le> length (st_bytes (f (pid s)))"
    and be: "sp_strip_sz be = S" "sp_pid be = pid" "sp_hs be = map f [0..<n]"
  shows "sp_parity_read store_ops s 0 buf be =
    Some (0, 0, subspan (st_bytes (f (pid s))) (s * S) S, be\<lparr>sp_hs := map (f(pid s := took (f (pid s)))) [0..<n]\<rparr>)"
proof -
  have "subspan buf 0 S = buf" "buf \<noteq> []" using assms(1,3) by (auto simp: subspan_def)
  then show ?thesis using assms
    by (simp add: sp_parity_read_def Let_def subquery_eq store_ops_def store_read_def took_def map_upt_update add.commute)
qed

subsection \<open>Writing a part of a stripe\<close>

text \<open>The disks of an array whose data is \<open>V\<close> and whose parity strips are the parity of its stripes.\<close>

definition volume_disk :: "nat \<Rightarrow> nat \<Rightarrow> (nat \<Rightarrow> nat) \<Rightarrow> nat \<Rightarrow> byte list \<Rightarrow> (nat \<Rightarrow> nat) \<Rightarrow> (nat \<Rightarrow> nat) \<Rightarrow> nat \<Rightarrow> store" where
  "volume_disk S n pid m V r w i = \<lparr>st_bytes = filled S n pid (S * (n - 1)) V 0 m i, st_reads = r i, st_writes = w i\<rparr>"

lemma volume_disk_simps [simp]:
  "st_bytes (volume_disk S n pid m V r w i) = filled S n pid (S * (n - 1)) V 0 m i"
  "st_reads (volume_disk S n pid m V r w i) = r i" "st_writes (volume_disk S n pid m V r w i) = w i"
  by (simp_all add: volume_disk_def)

lemma array_cong: "\<forall>i < n. f i = g i \<Longrightarrow> array S n pid f l co = array S n pid g l co"
  by (simp add: array_def)

lemma array_hs: "acc_be (array S n pid f l co)\<lparr>sp_hs := map g [0..<n]\<rparr> = acc_be (array S n pid g l co)"
  by (simp add: array_def)

lemma array_be [simp]:
  "(array S n pid f l co)\<lparr>acc_lock := lk, acc_be := acc_be (array S n pid g l co)\<rparr> = (array S n pid g l co)\<lparr>acc_lock := lk\<rparr>"
  by (simp add: array_def)

text \<open>The disks a write of \<open>q\<close> strips touches.\<close>

definition touched :: "(nat \<Rightarrow> nat) \<Rightarrow> nat \<Rightarrow> nat \<Rightarrow> nat \<Rightarrow> nat" where
  "touched pid s q i = (if i = pid s \<or> i \<in> data_disks (pid s) q then 1 else 0)"

lemma piece_update:
  assumes "length b = S * (n - 1)" "length x = q * S" "q \<le> n - 1" "i < n" "i \<noteq> p"
  shows "i \<in> data_disks p q \<Longrightarrow> piece S p (copy_at b 0 x) i = piece S p x i"
    and "p < n \<Longrightarrow> i \<notin> data_disks p q \<Longrightarrow> piece S p (copy_at b 0 x) i = piece S p b i"
proof -
  have le: "0 + length x \<le> length b" using mult_le_mono1 [OF assms(3), of S] assms(1,2) by (simp add: mult.commute)
  show "piece S p (copy_at b 0 x) i = piece S p x i" if i: "i \<in> data_disks p q"
  proof -
    obtain e where e: "i = data_disk p e" "e < q" using i by (auto simp: data_disks_def)
    have l: "e * S + S \<le> length x" using strip_bound [OF e(2), of S] assms(2) by simp
    have "subspan (copy_at b 0 x) (e * S) S = subspan (subspan (copy_at b 0 x) 0 (length x)) (e * S) S"
      using subspan_subspan [OF l, of "copy_at b 0 x" 0] by simp
    then show ?thesis using le by (simp add: e(1) piece_data)
  qed
  show "piece S p (copy_at b 0 x) i = piece S p b i" if p: "p < n" and i: "i \<notin> data_disks p q"
  proof -
    have "i \<in> data_disks p (n - 1)" using data_disks_all [OF p] assms(4,5) by blast
    then obtain e where e: "i = data_disk p e" by (auto simp: data_disks_def)
    then have "q * S \<le> e * S" using i by (intro mult_le_mono1) (auto simp: data_disks_def)
    then show ?thesis using assms(2) by (simp add: e piece_data subspan_copy_at_after [OF le])
  qed
qed

lemma part_write_disks:
  assumes "0 < S" "2 \<le> n" "\<forall>t. pid t < n" "0 < q" "q \<le> n - 1" "length x = q * S" "s < m" "length V = m * (S * (n - 1))"
    and "V' = copy_at V (s * (S * (n - 1))) x" "par = parity_of S (copy_at (subspan V (s * (S * (n - 1))) (S * (n - 1))) 0 x)"
  shows "sp_stripe_write store_ops s (0, x) (0, par) (acc_be (array S n pid (volume_disk S n pid m V (\<lambda>_. 0) (touched pid s q)) l co)) =
    Some (0, 0, 0, acc_be (array S n pid (volume_disk S n pid m V' (\<lambda>_. 0) (\<lambda>_. 0)) l co))"
proof -
  let ?D = "S * (n - 1)" and ?p = "pid s"
  let ?f = "volume_disk S n pid m V (\<lambda>_. 0) (touched pid s q)" and ?g = "volume_disk S n pid m V' (\<lambda>_. 0) (\<lambda>_. 0)"
  let ?b = "subspan V (s * ?D) ?D"
  let ?h = "\<lambda>i. if i = ?p then put (s * S) par (?f i) else if i \<in> data_disks ?p q then put (s * S) (piece S ?p x i) (?f i) else ?f i"
  have p: "?p < n" using assms(3) by simp
  have xD: "length x \<le> ?D" using mult_le_mono1 [OF assms(5), of S] assms(6) by (simp add: mult.commute)
  have sm: "s * ?D + ?D \<le> length V" "s * S + S \<le> m * S"
    using strip_bound [OF assms(7), of ?D] strip_bound [OF assms(7), of S] assms(8) by simp_all
  have lb: "length ?b = ?D" using sm(1) by simp
  have b': "subspan V' (s * ?D) ?D = copy_at ?b 0 x"
    using subspan_copy_at_inside [of 0 x ?D "s * ?D" V] xD sm(1) by (simp add: assms(9))
  have "?h i = ?g i" if i: "i < n" for i
  proof -
    have new: "copy_at (filled S n pid ?D V 0 m i) (s * S) (piece S ?p (copy_at ?b 0 x) i) = filled S n pid ?D V' 0 m i"
      using filled_put [OF assms(8,3) i assms(7) xD assms(9)] unfolding b' .
    have old: "copy_at (filled S n pid ?D V 0 m i) (s * S) (piece S ?p ?b i) = filled S n pid ?D V 0 m i"
      using filled_nth [OF assms(8,3) i assms(7)] length_filled [OF assms(8) i assms(3)] sm(2) copy_at_subspan_id by (metis diff_zero)
    consider "i = ?p" | "i \<noteq> ?p" "i \<in> data_disks ?p q" | "i \<noteq> ?p" "i \<notin> data_disks ?p q" by blast
    then show ?thesis
    proof cases
      case 1
      then have "piece S ?p (copy_at ?b 0 x) i = par" by (simp add: piece_def assms(10))
      then show ?thesis using 1 new by (simp add: put_def volume_disk_def touched_def)
    next
      case 2
      then show ?thesis using new piece_update(1) [OF lb assms(6,5) i 2] by (simp add: put_def volume_disk_def touched_def)
    next
      case 3
      then show ?thesis using new old piece_update(2) [OF lb assms(6,5) i 3(1) p 3(2)] by (simp add: volume_disk_def touched_def)
    qed
  qed
  then have e: "array S n pid ?h l co = array S n pid ?g l co" by (intro array_cong) simp
  have len: "length (filled S n pid ?D V 0 m i) = m * S" if "i < n" for i
    using length_filled [OF assms(8) that assms(3), of 0] by simp
  have "sp_stripe_write store_ops s (0, x) (0, par) (acc_be (array S n pid ?f l co)) =
      Some (0, 0, 0, acc_be (array S n pid ?f l co)\<lparr>sp_hs := map ?h [0..<n]\<rparr>)"
  proof (rule sp_part_stripe [where pid = pid and s = s, OF assms(1,2) p assms(4-6)])
    show "length par = S" by (simp add: assms(10))
    show "\<forall>i < n. i = ?p \<or> i \<in> data_disks ?p q \<longrightarrow> st_reads (?f i) = 0 \<and> st_writes (?f i) \<noteq> 0 \<and> s * S + S \<le> length (st_bytes (?f i))"
      using len sm(2) by (simp add: touched_def)
  qed (simp_all add: array_def)
  then show ?thesis unfolding array_hs e .
qed

text \<open>The reads of a write of \<open>q\<close> strips: none for a full stripe, those of the strips and of the parity when
  the parity is coherent, those of all data otherwise.\<close>

definition reads_of :: "nat \<Rightarrow> (nat \<Rightarrow> nat) \<Rightarrow> nat \<Rightarrow> nat \<Rightarrow> bool \<Rightarrow> nat \<Rightarrow> nat" where
  "reads_of n pid s q coh i = (if q = n - 1 then 0 else if coh then touched pid s q i else if i = pid s then 0 else 1)"

lemma read_disks:
  assumes "\<forall>t. pid t < n" "length V = m * (S * (n - 1))" "s < m" "q \<le> n - 1"
  shows "concat (map (\<lambda>e. subspan (filled S n pid (S * (n - 1)) V 0 m (data_disk (pid s) e)) (s * S) S) [0..<q]) =
    subspan V (s * (S * (n - 1))) (q * S)"
proof -
  let ?D = "S * (n - 1)"
  have "subspan (filled S n pid ?D V 0 m (data_disk (pid s) e)) (s * S) S = subspan V (s * ?D + e * S) S" if "e < q" for e
  proof -
    have e: "e < n - 1" using that assms(4) by simp
    then have i: "data_disk (pid s) e < n" using assms(1) data_disk_facts(3) by blast
    have "e * S + S \<le> ?D" using strip_bound [OF e, of S] by (simp add: mult.commute)
    then show ?thesis using filled_nth [OF assms(2,1) i assms(3)] by (simp add: piece_data subspan_subspan)
  qed
  then have "map (\<lambda>e. subspan (filled S n pid ?D V 0 m (data_disk (pid s) e)) (s * S) S) [0..<q] =
      map (\<lambda>e. subspan V (s * ?D + e * S) S) [0..<q]" by simp
  then show ?thesis by (simp only: concat_strips)
qed

lemma acc_part_stripe:
  assumes "0 < S" "8 dvd S" "2 \<le> n" "\<forall>t. pid t < n" "0 < q" "q \<le> n - 1" "length x = q * S" "s < m"
    and "length V = m * (S * (n - 1))" "s < length co" "V' = copy_at V (s * (S * (n - 1))) x"
  shows "acc_process_stripe store_ops s (0, x)
      ((array S n pid (volume_disk S n pid m V (reads_of n pid s q (co ! s)) (touched pid s q)) l co)\<lparr>acc_lock := lk\<rparr>) =
    Some (0, 0, (array S n pid (volume_disk S n pid m V' (\<lambda>_. 0) (\<lambda>_. 0)) l (co[s := True]))\<lparr>acc_lock := lk\<rparr>)"
proof -
  let ?D = "S * (n - 1)" and ?f = "\<lambda>V r w. volume_disk S n pid m V r w" and ?w = "touched pid s q"
  let ?b = "subspan V (s * ?D) ?D"
  let ?acc = "\<lambda>r. (array S n pid (?f V r ?w) l co)\<lparr>acc_lock := lk\<rparr>"
    and ?done = "(array S n pid (?f V' (\<lambda>_. 0) (\<lambda>_. 0)) l (co[s := True]))\<lparr>acc_lock := lk\<rparr>"
  let ?par = "parity_of S (copy_at ?b 0 x)"
  have D: "0 < ?D" "8 dvd ?D" using assms(1-3) by simp_all
  have x: "x \<noteq> []" "8 dvd length x" using assms(1,2,5,7) by auto
  have xD: "length x \<le> ?D" using mult_le_mono1 [OF assms(6), of S] assms(7) by (simp add: mult.commute)
  have sm: "s * ?D + ?D \<le> length V" "s * S + S \<le> m * S"
    using strip_bound [OF assms(8), of ?D] strip_bound [OF assms(8), of S] assms(9) by simp_all
  have lb: "length ?b = ?D" using sm(1) by simp
  have lf: "length (filled S n pid ?D V 0 m i) = m * S" if "i < n" for i
    using length_filled [OF assms(9) that assms(4), of 0] by simp
  have dd: "i < n" if "i \<in> data_disks (pid s) q'" "q' \<le> n - 1" for i q'
    using data_disks_list(1) [OF that(2)] that(1) assms(4) by blast
  note w = part_write_disks [OF assms(1,3-9,11) refl, of l co]
  have w1: "stripe_incoherent_parity_write store_ops s (0, x) (0, ?par) (?acc (\<lambda>_. 0)) = Some (0, 0, 0, ?done)"
    using w assms(10) by (simp add: stripe_incoherent_parity_write_def) (simp add: array_def)
  have w2: "stripe_coherent_parity_write store_ops s (0, x) (0, ?par) (?acc (\<lambda>_. 0)) = Some (0, 0, 0, ?done)" if "co ! s"
    using w assms(10) that list_update_id [of co s] by (simp add: stripe_coherent_parity_write_def)
  show ?thesis
  proof (cases "q = n - 1")
    case True
    then have lx: "length x = ?D" using assms(7) by (simp add: mult.commute)
    have par: "parity_renew 0 x 0 (replicate S 0) = Some ?par"
      using assms(1,2) D lx lb parity_renew_eq [of 0 0 x "replicate S 0"] by simp
    have "stripe_write store_ops s (0, x) (0, ?par) (?acc (\<lambda>_. 0)) = Some (0, 0, 0, ?done)"
      using w1 w2 by (simp add: stripe_write_def is_stripe_parity_coherent_def)
    moreover have "reads_of n pid s q (co ! s) = (\<lambda>_. 0)" using True by (auto simp: reads_of_def)
    ultimately show ?thesis using par x(1) lx
      by (simp add: acc_process_stripe_def stripe_data_write_def Let_def)
  next
    case False
    then have lt: "length x < ?D" using assms(1,6,7) by (simp add: mult.commute [of S])
    show ?thesis
    proof (cases "co ! s")
      case True
      have r: "reads_of n pid s q (co ! s) = ?w" using False True by (auto simp: reads_of_def)
      let ?g = "?f V (\<lambda>i. if i = pid s then 1 else 0) ?w"
      have "sp_data_read store_ops s 0 (replicate (length x) 0) (acc_be (array S n pid (?f V ?w ?w) l co)) =
          Some (0, 0, concat (map (\<lambda>e. subspan (st_bytes (?f V ?w ?w (data_disk (pid s) e))) (s * S) S) [0..<q]),
            acc_be (array S n pid (?f V ?w ?w) l co)
              \<lparr>sp_hs := map (\<lambda>i. if i \<in> data_disks (pid s) q then took (?f V ?w ?w i) else ?f V ?w ?w i) [0..<n]\<rparr>)"
        by (rule sp_part_read [where pid = pid]) (use assms lf sm(2) in \<open>simp_all add: touched_def array_def\<close>)
      moreover have "array S n pid (\<lambda>i. if i \<in> data_disks (pid s) q then took (?f V ?w ?w i) else ?f V ?w ?w i) l co = array S n pid ?g l co"
        by (rule array_cong) (auto simp: took_def volume_disk_def touched_def)
      ultimately have rd: "sp_data_read store_ops s 0 (replicate (length x) 0) (acc_be (?acc ?w)) =
          Some (0, 0, subspan ?b 0 (length x), acc_be (array S n pid ?g l co))"
        using read_disks [OF assms(4,9,8,6)] subspan_subspan [of 0 "length x" ?D V "s * ?D"] xD assms(7) by (simp add: array_hs)
      have "sp_parity_read store_ops s 0 (replicate S 0) (acc_be (array S n pid ?g l co)) =
          Some (0, 0, subspan (st_bytes (?g (pid s))) (s * S) S,
            acc_be (array S n pid ?g l co)\<lparr>sp_hs := map (?g(pid s := took (?g (pid s)))) [0..<n]\<rparr>)"
        by (rule sp_parity_read_store [where pid = pid]) (use assms(1,4) lf sm(2) in \<open>simp_all add: array_def\<close>)
      moreover have "array S n pid (?g(pid s := took (?g (pid s)))) l co = array S n pid (?f V (\<lambda>_. 0) ?w) l co"
        by (rule array_cong) (auto simp: took_def volume_disk_def)
      moreover have "subspan (filled S n pid ?D V 0 m (pid s)) (s * S) S = parity_of S ?b"
        using filled_nth [OF assms(9,4) _ assms(8)] assms(4) by (simp add: piece_def)
      ultimately have rp: "sp_parity_read store_ops s 0 (replicate S 0) (acc_be (array S n pid ?g l co)) =
          Some (0, 0, parity_of S ?b, acc_be (array S n pid (?f V (\<lambda>_. 0) ?w) l co))"
        by (simp add: array_hs)
      have pt: "parity_to 0 (xor_to x (subspan ?b 0 (length x))) ?D (parity_of S ?b) 0 = Some ?par"
        using parity_rmw_eq [of 0 x 0 ?D S ?b] x(2) D(2) assms(1,2) xD lb by simp
      have "rmw_data_done store_ops s (0, x) 0 (subspan ?b 0 (length x)) ((array S n pid ?g l co)\<lparr>acc_lock := lk\<rparr>) = Some (0, ?done)"
        using rp pt w2 [OF True] by (simp add: rmw_data_done_def rmw_parity_done_def Let_def)
      then show ?thesis using x(1) lt rd True unfolding r by (simp add: acc_process_stripe_def Let_def)
    next
      case inc: False
      let ?r = "\<lambda>i. if i = pid s then 0 else 1"
      have r: "reads_of n pid s q (co ! s) = ?r" using False inc by (auto simp: reads_of_def)
      have "sp_data_read store_ops s 0 (replicate ?D 0) (acc_be (array S n pid (?f V ?r ?w) l co)) =
          Some (0, 0, concat (map (\<lambda>e. subspan (st_bytes (?f V ?r ?w (data_disk (pid s) e))) (s * S) S) [0..<n - 1]),
            acc_be (array S n pid (?f V ?r ?w) l co)
              \<lparr>sp_hs := map (\<lambda>i. if i \<in> data_disks (pid s) (n - 1) then took (?f V ?r ?w i) else ?f V ?r ?w i) [0..<n]\<rparr>)"
        by (rule sp_part_read [where pid = pid])
          (use assms(1,3,4) lf sm(2) in \<open>auto simp: array_def mult.commute\<close>)
      moreover have "array S n pid (\<lambda>i. if i \<in> data_disks (pid s) (n - 1) then took (?f V ?r ?w i) else ?f V ?r ?w i) l co =
          array S n pid (?f V (\<lambda>_. 0) ?w) l co"
        using data_disks_all [of "pid s" n] assms(4) by (intro array_cong) (auto simp: took_def volume_disk_def)
      ultimately have rd: "sp_data_read store_ops s 0 (replicate ?D 0) (acc_be (?acc ?r)) =
          Some (0, 0, ?b, acc_be (array S n pid (?f V (\<lambda>_. 0) ?w) l co))"
        using read_disks [OF assms(4,9,8) order_refl] by (simp add: array_hs mult.commute [of S])
      have cp: "copy_stl 0 x 0 (subspan ?b 0 (length x)) = Some x" using xD lb by (simp add: copy_stl_eq)
      have par: "parity_renew 0 (copy_at ?b 0 x) ?D (replicate S 0) = Some ?par"
        using parity_renew_eq [of 0 ?D "copy_at ?b 0 x" "replicate S 0"] assms(1,2) D(2) lb xD by simp
      have "renew_data_done store_ops s (0, x) 0 ?b (?acc (\<lambda>_. 0)) = Some (0, ?done)"
        using cp par w1 by (simp add: renew_data_done_def Let_def)
      then show ?thesis using x(1) lt rd inc unfolding r by (simp add: acc_process_stripe_def Let_def)
    qed
  qed
qed

lemma array_stripe_write:
  assumes "0 < S" "8 dvd S" "2 \<le> n" "\<forall>t. pid t < n" "0 < q" "q \<le> n - 1" "length x = q * S" "s < m"
    and "length V = m * (S * (n - 1))" "length co = l" "V' = copy_at V (s * (S * (n - 1))) x"
    and "\<forall>i < n. r i = reads_of n pid s q (s < l \<and> co ! s) i \<and> w i = touched pid s q i"
  shows "raidsp_target_write store_ops (s * (S * (n - 1))) x
      (expect_calls r w \<lparr>fsm = Online, backend = array S n pid (volume_disk S n pid m V r0 w0) l co\<rparr>) =
    Some (0, 0, \<lparr>fsm = Online, backend = array S n pid (volume_disk S n pid m V' (\<lambda>_. 0) (\<lambda>_. 0)) (max l (Suc s))
      ((bs_resize co (max l (Suc s)))[s := True])\<rparr>)"
proof -
  let ?D = "S * (n - 1)" and ?l = "max l (Suc s)"
  let ?co = "bs_resize co ?l" and ?f = "volume_disk S n pid m V r w"
  let ?g = "volume_disk S n pid m V' (\<lambda>_. 0) (\<lambda>_. 0)"
  have D: "0 < ?D" using assms(1,3) by simp
  have x: "x \<noteq> []" using assms(1,5,7) by auto
  have xD: "0 < length x" "length x \<le> ?D"
    using mult_le_mono1 [OF assms(6), of S] assms(1,5,7) by (simp_all add: mult.commute)
  have coh: "?co ! s \<longleftrightarrow> s < l \<and> co ! s" using nth_bs_resize [of s ?l co] assms(10) by simp
  have call: "expect_calls r w \<lparr>fsm = Online, backend = array S n pid (volume_disk S n pid m V r0 w0) l co\<rparr> =
      \<lparr>fsm = Online, backend = array S n pid ?f l co\<rparr>"
    by (simp add: expect_calls_def array_def volume_disk_def Let_def)
  have u: "strips_round_up (s * ?D + length x) ?D = Suc s"
  proof -
    have b: "s * ?D + length x \<le> strips_round_up (s * ?D + length x) ?D * ?D"
      "strips_round_up (s * ?D + length x) ?D * ?D < s * ?D + length x + ?D"
      using strips_round_up_bounds [OF D] by blast+
    then have "s * ?D < strips_round_up (s * ?D + length x) ?D * ?D"
      "strips_round_up (s * ?D + length x) ?D * ?D < Suc (Suc s) * ?D" using xD unfolding mult_Suc by linarith+
    then have "s < strips_round_up (s * ?D + length x) ?D" "strips_round_up (s * ?D + length x) ?D < Suc (Suc s)"
      using mult_less_cancel2 by blast+
    then show ?thesis by linarith
  qed
  have lk: "lk_extend (replicate l False) (Suc s) = replicate ?l False"
    by (auto simp: lk_extend_def resize_unlocked max_def)
  have c: "length ?co = ?l" "s < length ?co" by simp_all
  have eq: "array S n pid ?f ?l ?co = array S n pid (volume_disk S n pid m V (reads_of n pid s q (?co ! s)) (touched pid s q)) ?l ?co"
    using assms(12) coh by (intro array_cong) (simp add: volume_disk_def)
  have p: "acc_process_stripe store_ops s (0, x) ((array S n pid ?f ?l ?co)\<lparr>acc_lock := (replicate ?l False)[s := True]\<rparr>) =
      Some (0, 0, (array S n pid ?g ?l (?co[s := True]))\<lparr>acc_lock := (replicate ?l False)[s := True]\<rparr>)"
    unfolding eq by (rule acc_part_stripe [OF assms(1-9) c(2) assms(11)])
  have lks: "lk_try_lock (replicate ?l False) s = Some (True, (replicate ?l False)[s := True])"
    "lk_unlock ((replicate ?l False)[s := True]) s = Some (replicate ?l False)"
    by (simp_all add: lk_try_lock_def lk_unlock_def list_update_same_conv)
  have ul: "(array S n pid ?g ?l co')\<lparr>acc_lock := replicate ?l False\<rparr> = array S n pid ?g ?l co'" for co'
    by (simp add: array_def)
  have sq: "subquery x 0 (length x) = Some x" using x by (simp add: subquery_eq)
  have "acc_write_loop store_ops x s 0 0 0 (array S n pid ?f ?l ?co) =
      acc_write_loop store_ops x (Suc s) 0 (length x) 0 (array S n pid ?g ?l (?co[s := True]))"
    by (subst acc_write_loop.simps)
      (use p lks xD sq in \<open>simp add: Let_def acc_complete_def ul min_absorb2 del: One_nat_def\<close>)
  also have "\<dots> = Some (0, 0, array S n pid ?g ?l (?co[s := True]))" by (subst acc_write_loop.simps) simp
  finally have loop: "acc_write_loop store_ops x s 0 0 0 (array S n pid ?f ?l ?co) = \<dots>" .
  have "(array S n pid ?f l co)\<lparr>acc_lock := replicate ?l False, acc_coherent := ?co\<rparr> = array S n pid ?f ?l ?co"
    by (simp add: array_def)
  then have "acc_write store_ops (s * ?D) x (array S n pid ?f l co) = Some (0, 0, array S n pid ?g ?l (?co[s := True]))"
    using loop x D by (simp add: acc_write_def Let_def u lk del: One_nat_def)
  then show ?thesis
    unfolding call raidsp_target_write_def using x by (subst target_write_online [where r = 0 and e = 0]) simp_all
qed

subsection \<open>The rounds\<close>

text \<open>An idle RAID4 array.\<close>

abbreviation raid4_array :: "nat \<Rightarrow> nat \<Rightarrow> nat \<Rightarrow> byte list \<Rightarrow> nat \<Rightarrow> bool list \<Rightarrow> store acceptor target" where
  "raid4_array S n m V l co \<equiv> \<lparr>fsm = Online, backend =
     array S n (raid4_parity n) (volume_disk S n (raid4_parity n) m V (\<lambda>_. 0) (\<lambda>_. 0)) l co\<rparr>"

lemma raid4_touched: "q \<le> n - 1 \<Longrightarrow> touched (raid4_parity n) s q i = (if i < q \<or> i = n - 1 then 1 else 0)"
proof -
  assume "q \<le> n - 1"
  then have "data_disks (n - 1) q = {0..<q}" by (auto simp: data_disks_def data_disk_def image_iff)
  then show ?thesis by (auto simp: touched_def raid4_parity_def)
qed

lemma raid4_disks_done: "calls_done (disks_of (raid4_array S n m V l co))"
  by (simp add: disks_of_def calls_done_def list_all_iff)

lemma raid4_stored:
  assumes "0 < S" "2 \<le> n" "q \<le> n - 1" "length x = q * S" "s < m" "length V = m * (S * (n - 1))" "k < q"
    and "V' = copy_at V (s * (S * (n - 1))) x" "off = s * (S * (n - 1)) + k * S"
  shows "off div S mod (n - 1) = k" "off div (S * (n - 1)) = s"
    "subspan (st_bytes (disks_of (raid4_array S n m V' l co) ! k)) (s * S) S = subspan x (k * S) S"
    "s * S + S \<le> length (st_bytes (disks_of (raid4_array S n m V' l co) ! k))"
proof -
  let ?D = "S * (n - 1)"
  have k: "k < n - 1" "k < n" using assms(3,7) by simp_all
  have off: "off = (s * (n - 1) + k) * S" unfolding assms(9) by (simp add: algebra_simps)
  show "off div S mod (n - 1) = k" unfolding off using assms(1) k(1) by simp
  have "k * S + S \<le> ?D" using strip_bound [OF k(1), of S] by (simp add: mult.commute)
  then have "k * S < ?D" using assms(1) by linarith
  moreover have "(s * d + j) div d = s" if "j < d" for d j :: nat using that by simp
  ultimately show "off div ?D = s" unfolding assms(9) by blast
  have p: "\<forall>t. raid4_parity n t < n" using assms(2) by (simp add: raid4_parity_def)
  have "length x \<le> ?D" using mult_le_mono1 [OF assms(3), of S] assms(4) by (simp add: mult.commute)
  then have le: "s * ?D + length x \<le> length V" using strip_bound [OF assms(5), of ?D] assms(6) by linarith
  have lV: "length V' = m * ?D" using assms(6,8) length_copy_at [OF le] by simp
  have len: "length (filled S n (raid4_parity n) ?D V' 0 m k) = m * S" using length_filled [OF lV k(2) p, of 0] by simp
  show "s * S + S \<le> length (st_bytes (disks_of (raid4_array S n m V' l co) ! k))"
    using k(2) len strip_bound [OF assms(5), of S] by (simp add: disks_of_def)
  have kx: "k * S + S \<le> length x" using strip_bound [OF assms(7), of S] assms(4) by simp
  have "subspan (filled S n (raid4_parity n) ?D V' 0 m k) (s * S) S = piece S (n - 1) (subspan V' (s * ?D) ?D) k"
    by (rule trans [OF filled_nth [OF lV p k(2) assms(5)]]) (simp add: raid4_parity_def)
  also have "\<dots> = subspan V' (s * ?D + k * S) S"
    using k(1) \<open>k * S + S \<le> ?D\<close> by (simp add: piece_def subspan_subspan)
  also have "\<dots> = subspan (subspan V' (s * ?D) (length x)) (k * S) S" using kx by (simp add: subspan_subspan)
  also have "subspan V' (s * ?D) (length x) = x" unfolding assms(8) using le by simp
  finally show "subspan (st_bytes (disks_of (raid4_array S n m V' l co) ! k)) (s * S) S = subspan x (k * S) S"
    using k(2) by (simp add: disks_of_def)
qed

lemma raid4_round:
  assumes "0 < S" "8 dvd S" "2 \<le> n" "0 < q" "q \<le> n - 1" "length x = q * S" "s < m" "length V = m * (S * (n - 1))" "length co = l"
    and "\<forall>i < n. r i = reads_of n (raid4_parity n) s q (s < l \<and> co ! s) i \<and> w i = (if i < q \<or> i = n - 1 then 1 else 0)"
  obtains co' where "length co' = max l (Suc s)" "co' ! s" "\<forall>t < l. co ! t \<longrightarrow> co' ! t"
    "length (copy_at V (s * (S * (n - 1))) x) = m * (S * (n - 1))"
    "raidsp_target_write store_ops (s * (S * (n - 1))) x (expect_calls r w (raid4_array S n m V l co)) =
      Some (0, 0, raid4_array S n m (copy_at V (s * (S * (n - 1))) x) (max l (Suc s)) co')"
proof
  let ?D = "S * (n - 1)" and ?co = "(bs_resize co (max l (Suc s)))[s := True]"
  have p: "\<forall>t. raid4_parity n t < n" using assms(3) by (simp add: raid4_parity_def)
  show "length ?co = max l (Suc s)" "?co ! s" by simp_all
  show "\<forall>t < l. co ! t \<longrightarrow> ?co ! t" using assms(9) by (auto simp: nth_list_update nth_bs_resize)
  have "length x \<le> ?D" using mult_le_mono1 [OF assms(5), of S] assms(6) by (simp add: mult.commute)
  then have "s * ?D + length x \<le> length V" using strip_bound [OF assms(7), of ?D] assms(8) by linarith
  then show "length (copy_at V (s * ?D) x) = m * ?D" using assms(8) by simp
  show "raidsp_target_write store_ops (s * ?D) x (expect_calls r w (raid4_array S n m V l co)) =
      Some (0, 0, raid4_array S n m (copy_at V (s * ?D) x) (max l (Suc s)) ?co)"
    by (rule array_stripe_write [OF assms(1-3) p assms(4-9) refl]) (use assms(5,10) raid4_touched in auto)
qed

lemma full_rounds_ok:
  assumes "0 < S" "8 dvd S" "2 \<le> n" "\<forall>x \<in> set bufs. length x = S * (n - 1)"
  shows "s + length bufs \<le> m \<Longrightarrow> length V = m * (S * (n - 1)) \<Longrightarrow> length co = s \<Longrightarrow> \<forall>t < s. co ! t \<Longrightarrow>
    \<exists>V' co'. length V' = m * (S * (n - 1)) \<and> length co' = s + length bufs \<and> (\<forall>t < s + length bufs. co' ! t) \<and>
      full_rounds S n s bufs (raid4_array S n m V s co) = Some (True, raid4_array S n m V' (s + length bufs) co')"
  using assms(4)
proof (induction bufs arbitrary: s V co)
  case (Cons x xs)
  have s: "s < m" "0 < n - 1" "length x = (n - 1) * S" "x \<noteq> []"
    using Cons.prems(1,5) assms(1,3) by (auto simp: mult.commute)
  have c: "\<forall>i < n. 0 = reads_of n (raid4_parity n) s (n - 1) (s < s \<and> co ! s) i \<and> 1 = (if i < n - 1 \<or> i = n - 1 then 1 else (0 :: nat))"
    by (auto simp: reads_of_def)
  obtain co' where co': "length co' = Suc s" "co' ! s" "\<forall>t < s. co ! t \<longrightarrow> co' ! t"
    "length (copy_at V (s * (S * (n - 1))) x) = m * (S * (n - 1))"
    "raidsp_target_write store_ops (s * (S * (n - 1))) x (expect_calls (\<lambda>_. 0) (\<lambda>_. 1) (raid4_array S n m V s co)) =
      Some (0, 0, raid4_array S n m (copy_at V (s * (S * (n - 1))) x) (Suc s) co')"
    using raid4_round [where r = "\<lambda>_. 0" and w = "\<lambda>_. 1", OF assms(1-3) s(2) order_refl s(3,1) Cons.prems(2,3) c]
    by (metis max_absorb2 le_Suc_eq order_refl)
  note st = raid4_stored [OF assms(1,3) order_refl s(3,1) Cons.prems(2) _ refl refl]
  have ok: "strips_stored S n (s * (S * (n - 1))) x (disks_of (raid4_array S n m (copy_at V (s * (S * (n - 1))) x) (Suc s) co'))"
    unfolding strips_stored_def list_all_iff Let_def s(3) strips_round_up_mult [OF assms(1)]
    using st by simp
  have "\<exists>V' co''. length V' = m * (S * (n - 1)) \<and> length co'' = Suc s + length xs \<and> (\<forall>t < Suc s + length xs. co'' ! t) \<and>
      full_rounds S n (Suc s) xs (raid4_array S n m (copy_at V (s * (S * (n - 1))) x) (Suc s) co') =
        Some (True, raid4_array S n m V' (Suc s + length xs) co'')"
  proof (rule Cons.IH)
    show "\<forall>t < Suc s. co' ! t" using co'(2,3) Cons.prems(4) by (auto simp: less_Suc_eq)
  qed (use co'(1,4) Cons.prems(1,5) in simp_all)
  then show ?case using co'(5) ok raid4_disks_done by (auto simp: Let_def)
qed auto

text \<open>
  The comparison of a part of a stripe.  In a stripe after the first the difference of the sizes
  wraps around; its value is not below the size of a strip, and the piece is a strip as meant.
\<close>

lemma size_wraps:
  fixes a b c :: nat
  assumes "b < a" "a + c \<le> 2 ^ 63"
  shows "min c ((u64_limit + b - a) mod u64_limit) = c"
  using assms by simp

lemma parts_stored_ok:
  assumes "0 < S" "q < n - 1" "length x = q * S" "s < m" "length V = m * (S * (n - 1))" "m * (S * (n - 1)) \<le> 2 ^ 63"
    and "V' = copy_at V (s * (S * (n - 1))) x" "k \<le> q"
  shows "parts_stored S n (s * (S * (n - 1))) x (disks_of (raid4_array S n m V' l co)) (s * (S * (n - 1)) + k * S) = Some True"
  using assms(8)
proof (induction k rule: inc_induct)
  case base
  then show ?case using assms(3) by (subst parts_stored.simps) simp
next
  case (step k)
  let ?D = "S * (n - 1)" and ?off = "s * (S * (n - 1)) + k * S"
  have n: "2 \<le> n" "q \<le> n - 1" using assms(2) by simp_all
  note st = raid4_stored [OF assms(1) n assms(3-5) step.hyps(2) assms(7) refl]
  have kq: "k * S + S \<le> q * S" by (rule strip_bound [OF step.hyps(2)])
  have qD: "q * S + S \<le> ?D" using strip_bound [OF assms(2), of S] by (simp add: mult.commute)
  have sD: "s * ?D + ?D \<le> 2 ^ 63" using strip_bound [OF assms(4), of ?D] assms(6) by linarith
  have chunk: "min S ((u64_limit + length x - ?off) mod u64_limit) = S"
  proof (cases "s = 0")
    case True
    then have "u64_limit + length x - ?off = u64_limit + (q * S - k * S)" "q * S - k * S < u64_limit" "S \<le> q * S - k * S"
      using kq qD sD assms(3) by simp_all
    then show ?thesis by simp
  next
    case False
    then have "?D \<le> s * ?D" by simp
    then have "q * S < ?off" "?off + S \<le> 2 ^ 63" using kq qD sD assms(1) by linarith+
    then show ?thesis using size_wraps assms(3) by simp
  qed
  have b: "?off - s * ?D = k * S" "k * S < length x" "k * S + S \<le> length x" "?off + S = s * ?D + Suc k * S"
    using kq assms(1,3) step.hyps(2) by simp_all
  show ?case
    by (subst parts_stored.simps) (use chunk b st step.IH assms(1) in \<open>simp add: Let_def add_ac\<close>)
qed

text \<open>\<open>coh\<close>: all stripes are coherent; otherwise none from \<open>s\<close> on has been written.\<close>

lemma partial_rounds_ok:
  assumes "0 < S" "8 dvd S" "0 < q" "q < n - 1" "\<forall>x \<in> set xs. length x = q * S" "m * (S * (n - 1)) \<le> 2 ^ 63"
    and "\<forall>i < n. r i = reads_of n (raid4_parity n) 0 q coh i"
  shows "s + length xs \<le> m \<Longrightarrow> length V = m * (S * (n - 1)) \<Longrightarrow> length co = l \<Longrightarrow>
    (if coh then l = m \<and> (\<forall>t < m. co ! t) else l = s) \<Longrightarrow>
    \<exists>V' l' co'. length V' = m * (S * (n - 1)) \<and>
      partial_rounds r (\<lambda>i. if i < q \<or> i = n - 1 then 1 else 0) S n s xs (raid4_array S n m V l co) = Some (True, raid4_array S n m V' l' co')"
  using assms(5)
proof (induction xs arbitrary: s V l co)
  case (Cons x xs)
  let ?w = "\<lambda>i. if i < q \<or> i = n - 1 then 1 else 0 :: nat" and ?V = "copy_at V (s * (S * (n - 1))) x"
  have n: "2 \<le> n" "q \<le> n - 1" using assms(4) by simp_all
  have s: "s < m" "length x = q * S" "x \<noteq> []" using Cons.prems(1,5) assms(1,3) by auto
  have e: "reads_of n (raid4_parity n) s q = reads_of n (raid4_parity n) 0 q"
    by (simp add: reads_of_def touched_def raid4_parity_def fun_eq_iff)
  have coh: "(s < l \<and> co ! s) = coh" using Cons.prems(4) s(1) by (auto split: if_splits)
  have c: "\<forall>i < n. r i = reads_of n (raid4_parity n) s q (s < l \<and> co ! s) i \<and> ?w i = (if i < q \<or> i = n - 1 then 1 else 0)"
    unfolding e coh using assms(7) by simp
  obtain co' where co': "length co' = max l (Suc s)" "co' ! s" "\<forall>t < l. co ! t \<longrightarrow> co' ! t" "length ?V = m * (S * (n - 1))"
    "raidsp_target_write store_ops (s * (S * (n - 1))) x (expect_calls r ?w (raid4_array S n m V l co)) =
      Some (0, 0, raid4_array S n m ?V (max l (Suc s)) co')"
    by (rule raid4_round [OF assms(1,2) n(1) assms(3) n(2) s(2,1) Cons.prems(2,3) c])
  have ok: "parts_stored S n (s * (S * (n - 1))) x (disks_of (raid4_array S n m ?V (max l (Suc s)) co')) (s * (S * (n - 1))) = Some True"
    using parts_stored_ok [OF assms(1,4) s(2,1) Cons.prems(2) assms(6) refl, of 0] by simp
  have "\<exists>V' l' co''. length V' = m * (S * (n - 1)) \<and>
      partial_rounds r ?w S n (Suc s) xs (raid4_array S n m ?V (max l (Suc s)) co') = Some (True, raid4_array S n m V' l' co'')"
  proof (rule Cons.IH)
    show "if coh then max l (Suc s) = m \<and> (\<forall>t < m. co' ! t) else max l (Suc s) = Suc s"
      using Cons.prems(4) co'(3) s(1) by (auto split: if_splits)
  qed (use co'(1,4) Cons.prems(1,5) in simp_all)
  then show ?case using co'(5) ok raid4_disks_done by (simp add: Let_def)
qed auto

subsection \<open>The tests pass\<close>

lemma col_zero: "col S j off (replicate k 0) = 0"
  by (induction k arbitrary: off) auto

lemma zeroed_disks:
  assumes "i < n"
  shows "\<lparr>st_bytes = make_unique_zeroed_bytes (S * m), st_reads = 0, st_writes = 0\<rparr> =
    volume_disk S n (raid4_parity n) m (replicate (m * (S * (n - 1))) 0) (\<lambda>_. 0) (\<lambda>_. 0) i"
proof -
  let ?D = "S * (n - 1)"
  have "piece S (n - 1) (subspan (replicate (m * ?D) 0) (t * ?D) ?D) i = replicate S 0" if "t < m" for t
  proof -
    have b: "subspan (replicate (m * ?D) (0 :: byte)) (t * ?D) ?D = replicate ?D 0"
      using strip_bound [OF that, of ?D] by (simp add: subspan_def min_def)
    have "parity_of S (replicate ?D 0) = (replicate S 0 :: byte list)"
      by (rule nth_equalityI) (simp_all add: parity_of_def col_zero)
    moreover have "subspan (replicate ?D 0) (i * S) S = (replicate S 0 :: byte list)" if "i < n - 1"
      using strip_bound [OF that, of S] by (simp add: subspan_def min_def mult.commute)
    moreover have "i < n - 1" if "i \<noteq> n - 1" using assms that by simp
    ultimately show ?thesis unfolding b by (auto simp: piece_def)
  qed
  then have "filled S n (raid4_parity n) ?D (replicate (m * ?D) 0) 0 m i = concat (map (\<lambda>t. replicate S 0) [0..<m])"
    unfolding filled_def raid4_parity_def by (intro arg_cong [of _ _ concat] map_cong refl) simp
  also have "\<dots> = replicate (S * m) 0"
    by (induction m) (simp_all add: replicate_add [symmetric] add.commute)
  finally show ?thesis by (simp add: volume_disk_def make_unique_zeroed_bytes_def)
qed

lemma raid4_zeroed:
  assumes "S = 2 ^ k" "S mod 512 = 0" "3 \<le> n"
  shows "raid4_create S (replicate n (Some \<lparr>st_bytes = make_unique_zeroed_bytes (S * m), st_reads = 0, st_writes = 0\<rparr>)) =
    Some (backend (raid4_array S n m (replicate (m * (S * (n - 1))) 0) 0 []))"
proof -
  let ?h = "\<lparr>st_bytes = make_unique_zeroed_bytes (S * m), st_reads = 0, st_writes = 0\<rparr>"
  have "replicate n ?h = map (volume_disk S n (raid4_parity n) m (replicate (m * (S * (n - 1))) 0) (\<lambda>_. 0) (\<lambda>_. 0)) [0..<n]"
    using zeroed_disks by (intro nth_equalityI) simp_all
  note e = this
  have "3 \<le> length (replicate n ?h)" using assms(3) by simp
  note create_arrays(1) [OF assms(1,2) this, unfolded map_replicate length_replicate]
  then show ?thesis unfolding e by (simp add: array_def)
qed

lemma raid4_verified:
  assumes "2 \<le> n" "0 < m" "length V = m * (S * (n - 1))"
  shows "parity_verify (map st_bytes (disks_of (raid4_array S n m V l co))) S"
  using first_stripe_parity [OF assms(1,3,2), of "raid4_parity n"] assms(1)
  by (simp add: disks_of_def o_def raid4_parity_def)

text \<open>
  RAID4 passes its tests of partial writes, for every number of data disks that is even, as in all
  instantiations, and every strip size, number of stripes and content.
\<close>

lemma raid4_partial_tests_pass:
  assumes "S = 2 ^ k" "S mod 512 = 0" "n = 2 * q + 1" "0 < q" "0 < m" "m * (S * (n - 1)) \<le> 2 ^ 63"
    and "length bufs = m" "\<forall>x \<in> set bufs. length x = S * (n - 1)" "length parts = m" "\<forall>x \<in> set parts. length x = S * (n - 1) div 2"
  shows "raid4_full_then_partial S n m bufs parts = Some True" "raid4_partial S n m parts = Some True"
proof -
  have S: "0 < S" "8 dvd S" using assms(1,2) by (auto dest!: mod_0_imp_dvd intro: dvd_trans [of 8 512])
  have n: "2 \<le> n" "3 \<le> n" "q < n - 1" "q \<le> n - 1" using assms(3,4) by simp_all
  have half: "S * (n - 1) div 2 = q * S" using assms(3) by simp
  then have aff: "strips_round_up (S * (n - 1) div 2) S = q" by (simp add: strips_round_up_mult [OF S(1)])
  have parts: "\<forall>x \<in> set parts. length x = q * S" using assms(10) half by simp
  let ?Z = "replicate (m * (S * (n - 1))) 0 :: byte list"
  note create = raid4_zeroed [OF assms(1,2) n(2), of m]
  have r1: "\<forall>i < n. (if i < q \<or> i = n - 1 then 1 else 0) = reads_of n (raid4_parity n) 0 q True i"
    using raid4_touched [OF n(4)] n(3) by (auto simp: reads_of_def)
  have r2: "\<forall>i < n. (if i < n - 1 then 1 else 0) = reads_of n (raid4_parity n) 0 q False i"
    using n(3) by (auto simp: reads_of_def raid4_parity_def)
  obtain V co where full: "length V = m * (S * (n - 1))" "length co = m" "\<forall>t < m. co ! t"
    "full_rounds S n 0 bufs (raid4_array S n m ?Z 0 []) = Some (True, raid4_array S n m V m co)"
    using full_rounds_ok [OF S n(1) assms(8), of 0 m ?Z "[]"] assms(7) by auto
  obtain V' l' co' where "length V' = m * (S * (n - 1))"
    "partial_rounds (\<lambda>i. if i < q \<or> i = n - 1 then 1 else 0) (\<lambda>i. if i < q \<or> i = n - 1 then 1 else 0) S n 0 parts
      (raid4_array S n m V m co) = Some (True, raid4_array S n m V' l' co')"
    using partial_rounds_ok [OF S assms(4) n(3) parts assms(6) r1, of 0 V co m] full(1-3) assms(9) by auto
  then show "raid4_full_then_partial S n m bufs parts = Some True"
    using create full(1,4) raid4_verified [OF n(1) assms(5)] unfolding raid4_full_then_partial_def Let_def aff by simp
  obtain V' l' co' where "length V' = m * (S * (n - 1))"
    "partial_rounds (\<lambda>i. if i < n - 1 then 1 else 0) (\<lambda>i. if i < q \<or> i = n - 1 then 1 else 0) S n 0 parts
      (raid4_array S n m ?Z 0 []) = Some (True, raid4_array S n m V' l' co')"
    using partial_rounds_ok [OF S assms(4) n(3) parts assms(6) r2, of 0 ?Z "[]" 0] assms(9) by auto
  then show "raid4_partial S n m parts = Some True"
    using create raid4_verified [OF n(1) assms(5)] unfolding raid4_partial_def Let_def aff by simp
qed



end
