(* ===== verification/Queries.thy ===== *)
theory Queries
  imports Block_Dev
begin

text \<open>
  The query objects (\<open>ublk/query.hpp\<close> and the four \<open>_query.hpp\<close>): constructors, subqueries, and the
  hand-over of an error to the parent when a subquery is destroyed.  The rest of the library works
  with the buffer, the offset and the error directly; the last lemmas connect the two views.
\<close>

record query =
  q_err :: int

definition set_err :: "int \<Rightarrow> 'a query_scheme \<Rightarrow> 'a query_scheme" where
  "set_err e q = q\<lparr>q_err := e\<rparr>"

record read_query = query +
  rq_buf :: "byte list"
  rq_offset :: nat

record write_query = query +
  wq_buf :: "byte list"
  wq_offset :: nat

type_synonym flush_query = query

record discard_query = query +
  dq_offset :: nat
  dq_sz :: nat

definition read_query_new :: "byte list \<Rightarrow> nat \<Rightarrow> read_query option" where
  "read_query_new buf offset = do { expects (buf \<noteq> []); Some \<lparr>q_err = 0, rq_buf = buf, rq_offset = offset\<rparr> }"

definition write_query_new :: "byte list \<Rightarrow> nat \<Rightarrow> write_query option" where
  "write_query_new buf offset = do { expects (buf \<noteq> []); Some \<lparr>q_err = 0, wq_buf = buf, wq_offset = offset\<rparr> }"

definition flush_query_new :: flush_query where
  "flush_query_new = \<lparr>q_err = 0\<rparr>"

definition discard_query_new :: "nat \<Rightarrow> nat \<Rightarrow> discard_query" where
  "discard_query_new offset sz = \<lparr>q_err = 0, dq_offset = offset, dq_sz = sz\<rparr>"

text \<open>
  The sum of the contract is one of 64-bit numbers; the subspan of a range outside the buffer, which
  a sum that wraps around lets through, is undefined (\<open>None\<close>).
\<close>

definition sub_buf :: "byte list \<Rightarrow> nat \<Rightarrow> nat \<Rightarrow> byte list option" where
  "sub_buf buf buf_offset buf_sz = do {
     expects (0 \<noteq> buf_sz);
     expects (\<not> u64_add buf_offset buf_sz > length buf);
     expects (buf_offset + buf_sz \<le> length buf);
     Some (subspan buf buf_offset buf_sz) }"

definition read_subquery :: "nat \<Rightarrow> nat \<Rightarrow> nat \<Rightarrow> read_query \<Rightarrow> read_query option" where
  "read_subquery buf_offset buf_sz rq_off q = do {
     buf \<leftarrow> sub_buf (rq_buf q) buf_offset buf_sz;
     read_query_new buf rq_off }"

definition write_subquery :: "nat \<Rightarrow> nat \<Rightarrow> nat \<Rightarrow> write_query \<Rightarrow> write_query option" where
  "write_subquery buf_offset buf_sz wq_off q = do {
     buf \<leftarrow> sub_buf (wq_buf q) buf_offset buf_sz;
     write_query_new buf wq_off }"

definition discard_subquery :: "nat \<Rightarrow> nat \<Rightarrow> discard_query" where
  "discard_subquery rq_off rq_sz = discard_query_new rq_off rq_sz"

text \<open>The completer of a subquery that was given its parent.\<close>

definition read_sub_done :: "read_query \<Rightarrow> read_query \<Rightarrow> read_query" where
  "read_sub_done child parent = (if q_err child \<noteq> 0 then set_err (q_err child) parent else parent)"

definition write_sub_done :: "write_query \<Rightarrow> write_query \<Rightarrow> write_query" where
  "write_sub_done child parent = (if q_err child \<noteq> 0 then set_err (q_err child) parent else parent)"

lemma sub_buf_subquery:
  assumes "length buf < u64_limit"
  shows "sub_buf buf o' sz = subquery buf o' sz"
proof (cases "o' + sz \<le> length buf")
  case True
  then have "u64_add o' sz = o' + sz" using assms by simp
  with True show ?thesis by (simp add: sub_buf_def subquery_def)
next
  case False
  then have "\<not> (0 \<noteq> sz \<and> o' + sz \<le> length buf)" by simp
  then show ?thesis by (auto simp: sub_buf_def subquery_eq expects_def)
qed

lemma read_subquery_eq:
  assumes "length (rq_buf q) < u64_limit"
  shows "read_subquery o' sz off q = map_option (\<lambda>b. \<lparr>q_err = 0, rq_buf = b, rq_offset = off\<rparr>) (subquery (rq_buf q) o' sz)"
  unfolding read_subquery_def sub_buf_subquery [OF assms]
  by (auto simp: subquery_eq read_query_new_def subspan_def expects_def)

lemma write_subquery_eq:
  assumes "length (wq_buf q) < u64_limit"
  shows "write_subquery o' sz off q = map_option (\<lambda>b. \<lparr>q_err = 0, wq_buf = b, wq_offset = off\<rparr>) (subquery (wq_buf q) o' sz)"
  unfolding write_subquery_def sub_buf_subquery [OF assms]
  by (auto simp: subquery_eq write_query_new_def subspan_def expects_def)

lemma sub_done_merges:
  "q_err (read_sub_done c p) = merge_err (q_err p) (q_err c)" "rq_buf (read_sub_done c p) = rq_buf p"
  "q_err (write_sub_done d w) = merge_err (q_err w) (q_err d)" "wq_buf (write_sub_done d w) = wq_buf w"
  by (simp_all add: read_sub_done_def write_sub_done_def set_err_def merge_err_def)

end
