(* ===== verification/Event_Loop.thy ===== *)
theory Event_Loop
  imports Commands Cfq
begin

text \<open>
  \<open>ublk/handler.cpp\<close>: the loop of a slave that is told by the driver how many commands it has sent,
  takes that many from the ring, posts a task for each and reports how many it took; and
  \<open>ublk/cmd_acknowledger.cpp\<close>.

  The driver's counter is read as 32 bits and compared with the value of the previous read.  The
  read, the pops and the posted tasks run on one thread: a posted task runs while the loop waits
  for the next counter value.  The driver pushes at any time, and the counter never runs ahead of
  the pushes.
\<close>

subsection \<open>State and operations\<close>

text \<open>A failed read of the counter ends the loop (\<open>Stopped\<close>); tasks that are posted still run.\<close>

datatype loop_pc = Waiting | Popping | Stopped

record 'c handler_ctx =
  hc_qcmd :: "cmd cfq"
  hc_cmds :: "32 word"
  hc_processed :: "32 word"
  hc_last :: "32 word"
  hc_pc :: loop_pc
  hc_posted :: "cmd list"
  hc_dev :: "'c device"
  hc_reported :: "32 word list"

text \<open>The completion of a read of the counter value \<open>c\<close>.\<close>

definition on_counter :: "32 word \<Rightarrow> 'c handler_ctx \<Rightarrow> 'c handler_ctx" where
  "on_counter c ctx = ctx\<lparr>hc_processed := 0, hc_cmds := c - hc_last ctx, hc_last := c, hc_pc := Popping\<rparr>"

definition read_failed :: "'c handler_ctx \<Rightarrow> 'c handler_ctx" where
  "read_failed ctx = ctx\<lparr>hc_pc := Stopped\<rparr>"

text \<open>
  One round of the loops over the ring: an empty ring leaves everything as it is (the code yields
  and pops again), a popped command is posted; when no command is left the write of the count
  starts, whose failure is only logged, and the next read starts.
\<close>

definition pop_round :: "'c handler_ctx \<Rightarrow> 'c handler_ctx option" where
  "pop_round ctx =
     (if hc_cmds ctx = 0 then Some (ctx\<lparr>hc_reported := hc_reported ctx @ [hc_processed ctx], hc_pc := Waiting\<rparr>)
      else do {
        (v, q) \<leftarrow> cfq_pop (hc_qcmd ctx);
        Some (case v of None \<Rightarrow> ctx\<lparr>hc_qcmd := q\<rparr>
          | Some cmd \<Rightarrow> ctx\<lparr>hc_qcmd := q, hc_posted := hc_posted ctx @ [cmd],
              hc_cmds := hc_cmds ctx - 1, hc_processed := hc_processed ctx + 1\<rparr>) })"

text \<open>A posted task; a result other than 0 aborts the process.\<close>

definition run_posted :: "cmd_ops \<Rightarrow> req_handler list \<Rightarrow> 'c submitters \<Rightarrow> celld list \<Rightarrow> 'c handler_ctx \<Rightarrow> 'c handler_ctx option" where
  "run_posted ops hs sub cellds ctx = (case hc_posted ctx of [] \<Rightarrow> Some ctx
     | cmd # rest \<Rightarrow> do {
         (r, dv) \<leftarrow> cmd_handle ops hs sub cellds cmd (hc_dev ctx);
         expects (r = 0);
         Some (ctx\<lparr>hc_posted := rest, hc_dev := dv\<rparr>) })"

text \<open>
  \<open>CmdAcknowledger::handle\<close>: it retries while the ring is full (\<open>None\<close> here) and then wakes the
  driver; \<open>wrote\<close> is what \<open>write\<close> returned.
\<close>

definition ack_handle :: "int \<Rightarrow> 'a cfq \<Rightarrow> 'a \<Rightarrow> (int \<times> 'a cfq) option option" where
  "ack_handle wrote q ack = do {
     (pushed, q') \<leftarrow> cfq_push q ack;
     Some (if pushed then Some (if 4 \<noteq> wrote then 1 else 0, q') else None) }"

text \<open>
  \<open>async_start\<close>: the device to read the counter from is looked up and opened (\<open>opens\<close> tells which
  paths the system opens); \<open>Throws\<close> is an exception, \<open>None\<close> a missing ring or handler.
\<close>

datatype 'a start_result = Throws | ExitFailure | Runs 'a

definition fd_open :: "(string \<Rightarrow> bool) \<Rightarrow> string \<Rightarrow> (string \<times> string) list \<Rightarrow> string start_result" where
  "fd_open opens k2u evpaths = (case map_of evpaths k2u of
       Some path \<Rightarrow> if opens path then Runs path else Throws
     | None \<Rightarrow> Throws)"

definition async_start :: "(string \<Rightarrow> bool) \<Rightarrow> string \<Rightarrow> (string \<times> string) list \<Rightarrow> cmd cfq option \<Rightarrow> 'h option \<Rightarrow>
    'c device \<Rightarrow> 'c handler_ctx start_result option" where
  "async_start opens k2u evpaths qcmd handler dv = do {
     expects (qcmd \<noteq> None);
     expects (handler \<noteq> None);
     Some (case fd_open opens k2u evpaths of
         Runs fd \<Rightarrow> Runs \<lparr>hc_qcmd = the qcmd, hc_cmds = 0, hc_processed = 0, hc_last = 0, hc_pc = Waiting,
           hc_posted = [], hc_dev = dv, hc_reported = []\<rparr>
       | _ \<Rightarrow> Throws) }"

subsection \<open>The loop and the driver\<close>

text \<open>
  With the context: the commands the driver has pushed so far, how many of them the last counter
  value covered, the commands handled so far, and these in their order with the writes of the driver
  to the cells, which may come at any time between two tasks.
\<close>

datatype event = Filled "byte list" | Served cmd

record 'c session =
  ss_ctx :: "'c handler_ctx"
  ss_sent :: "cmd list"
  ss_counted :: nat
  ss_handled :: "cmd list"
  ss_log :: "event list"

inductive loop_step :: "cmd_ops \<Rightarrow> req_handler list \<Rightarrow> 'c submitters \<Rightarrow> celld list \<Rightarrow> 'c session \<Rightarrow> 'c session \<Rightarrow> bool"
  for ops hs sub cellds where
  l_push: "cfq_push (hc_qcmd (ss_ctx s)) cmd = Some (True, q) \<Longrightarrow>
    loop_step ops hs sub cellds s (s\<lparr>ss_ctx := (ss_ctx s)\<lparr>hc_qcmd := q\<rparr>, ss_sent := ss_sent s @ [cmd]\<rparr>)"
| l_fill: "length mm = length (dv_cells (hc_dev (ss_ctx s))) \<Longrightarrow>
    loop_step ops hs sub cellds s (s\<lparr>ss_ctx := (ss_ctx s)\<lparr>hc_dev := (hc_dev (ss_ctx s))\<lparr>dv_cells := mm\<rparr>\<rparr>,
      ss_log := ss_log s @ [Filled mm]\<rparr>)"
| l_count: "hc_pc (ss_ctx s) = Waiting \<Longrightarrow> ss_counted s \<le> n \<Longrightarrow> n \<le> length (ss_sent s) \<Longrightarrow>
    loop_step ops hs sub cellds s (s\<lparr>ss_ctx := on_counter (of_nat n) (ss_ctx s), ss_counted := n\<rparr>)"
| l_error: "hc_pc (ss_ctx s) = Waiting \<Longrightarrow> loop_step ops hs sub cellds s (s\<lparr>ss_ctx := read_failed (ss_ctx s)\<rparr>)"
| l_pop: "hc_pc (ss_ctx s) = Popping \<Longrightarrow> pop_round (ss_ctx s) = Some ctx \<Longrightarrow>
    loop_step ops hs sub cellds s (s\<lparr>ss_ctx := ctx\<rparr>)"
| l_task: "hc_pc (ss_ctx s) \<noteq> Popping \<Longrightarrow> hc_posted (ss_ctx s) = cmd # rest \<Longrightarrow>
    run_posted ops hs sub cellds (ss_ctx s) = Some ctx \<Longrightarrow>
    loop_step ops hs sub cellds s (s\<lparr>ss_ctx := ctx, ss_handled := ss_handled s @ [cmd], ss_log := ss_log s @ [Served cmd]\<rparr>)"

definition session_start :: "cmd cfq \<Rightarrow> 'c device \<Rightarrow> 'c session" where
  "session_start q dv = \<lparr>ss_ctx = \<lparr>hc_qcmd = q, hc_cmds = 0, hc_processed = 0, hc_last = 0, hc_pc = Waiting,
     hc_posted = [], hc_dev = dv, hc_reported = []\<rparr>, ss_sent = [], ss_counted = 0, ss_handled = [], ss_log = []\<rparr>"

lemma async_start_session:
  assumes "map_of evpaths k2u = Some path" "opens path"
  shows "async_start opens k2u evpaths (Some q) (Some h) dv = Some (Runs (ss_ctx (session_start q dv)))"
  using assms by (simp add: async_start_def fd_open_def session_start_def)

inductive loop_reach :: "cmd_ops \<Rightarrow> req_handler list \<Rightarrow> 'c submitters \<Rightarrow> celld list \<Rightarrow> 'c session \<Rightarrow> 'c session \<Rightarrow> bool"
  for ops hs sub cellds s0 where
  lr_start: "loop_reach ops hs sub cellds s0 s0"
| lr_step: "loop_reach ops hs sub cellds s0 s \<Longrightarrow> loop_step ops hs sub cellds s s' \<Longrightarrow> loop_reach ops hs sub cellds s0 s'"

text \<open>
  Sent commands are handled, posted or in the ring, in this order; the commands taken so far and
  those still to take make up the counted ones.
\<close>

definition loop_inv :: "'c device \<Rightarrow> 'c session \<Rightarrow> bool" where
  "loop_inv dv s \<longleftrightarrow> (let ctx = ss_ctx s; taken = ss_handled s @ hc_posted ctx in
     cfq_ok (hc_qcmd ctx) \<and> capacity (hc_qcmd ctx) < 2 ^ 32 \<and> ss_sent s = taken @ cfq_list (hc_qcmd ctx)
     \<and> hc_last ctx = of_nat (ss_counted s) \<and> ss_counted s \<le> length (ss_sent s)
     \<and> ss_counted s = length taken + (if hc_pc ctx = Popping then unat (hc_cmds ctx) else 0)
     \<and> map fst (dv_acks (hc_dev ctx)) = map fst (dv_acks dv) @ map cmd_id (ss_handled s))"

lemma loop_invD:
  assumes "loop_inv dv s"
  shows "cfq_ok (hc_qcmd (ss_ctx s))" "capacity (hc_qcmd (ss_ctx s)) < 2 ^ 32"
    "ss_sent s = (ss_handled s @ hc_posted (ss_ctx s)) @ cfq_list (hc_qcmd (ss_ctx s))"
    "hc_last (ss_ctx s) = of_nat (ss_counted s)" "ss_counted s \<le> length (ss_sent s)"
    "ss_counted s = length (ss_handled s @ hc_posted (ss_ctx s)) + (if hc_pc (ss_ctx s) = Popping then unat (hc_cmds (ss_ctx s)) else 0)"
    "map fst (dv_acks (hc_dev (ss_ctx s))) = map fst (dv_acks dv) @ map cmd_id (ss_handled s)"
  using assms unfolding loop_inv_def Let_def by blast+

lemma fifo_bound:
  assumes "cfq_ok q"
  shows "length (cfq_list q) \<le> capacity q"
proof -
  have "cfq_used q < capacity_full q" by (rule cfq_used_cases(2) [OF assms])
  then show ?thesis by (simp add: capacity_def)
qed

lemma loop_inv_step:
  assumes "loop_step ops hs sub cellds s s'" "loop_inv dv s"
  shows "loop_inv dv s'"
  using assms
proof (induction rule: loop_step.induct)
  case (l_push s cmd q)
  then have ok: "cfq_ok (hc_qcmd (ss_ctx s))" by (simp add: loop_inv_def Let_def)
  from cfq.push_law [OF ok, of cmd] l_push(1) have q: "cfq_ok q" "capacity q = capacity (hc_qcmd (ss_ctx s))"
    "cfq_list q = cfq_list (hc_qcmd (ss_ctx s)) @ [cmd]" by auto
  then show ?case using l_push(2) by (auto simp: loop_inv_def Let_def)
next
  case (l_fill mm s)
  have "loop_inv dv (s\<lparr>ss_ctx := ctx, ss_log := es\<rparr>) \<longleftrightarrow> loop_inv dv s"
    if "ctx = (ss_ctx s)\<lparr>hc_dev := (hc_dev (ss_ctx s))\<lparr>dv_cells := mm\<rparr>\<rparr>" for ctx es
    unfolding loop_inv_def Let_def that by simp
  then show ?case using l_fill(2) by blast
next
  case (l_count s n)
  let ?q = "hc_qcmd (ss_ctx s)"
  have ok: "cfq_ok ?q" "capacity ?q < 2 ^ 32" and sent: "ss_sent s = (ss_handled s @ hc_posted (ss_ctx s)) @ cfq_list ?q"
    and last: "hc_last (ss_ctx s) = of_nat (ss_counted s)" and cnt: "ss_counted s = length (ss_handled s @ hc_posted (ss_ctx s))"
    using l_count(1) loop_invD [OF l_count(4)] by simp_all
  have "n - ss_counted s < 2 ^ 32"
    using fifo_bound [OF ok(1)] ok(2) l_count(3) arg_cong [OF sent, of length] cnt by simp
  moreover have "(of_nat n :: 32 word) - of_nat (ss_counted s) = of_nat (n - ss_counted s)"
    using l_count(2) by (simp add: of_nat_diff)
  ultimately have "unat ((of_nat n :: 32 word) - of_nat (ss_counted s)) = n - ss_counted s"
    by (simp add: unat_of_nat)
  then show ?case using l_count by (simp add: loop_inv_def Let_def on_counter_def)
next
  case (l_error s)
  then show ?case by (simp add: loop_inv_def Let_def read_failed_def)
next
  case (l_pop s ctx)
  let ?q = "hc_qcmd (ss_ctx s)"
  have ok: "cfq_ok ?q" using l_pop(3) by (simp add: loop_inv_def Let_def)
  show ?case
  proof (cases "hc_cmds (ss_ctx s) = 0")
    case True
    then have "ctx = (ss_ctx s)\<lparr>hc_reported := hc_reported (ss_ctx s) @ [hc_processed (ss_ctx s)], hc_pc := Waiting\<rparr>"
      using l_pop(2) by (simp add: pop_round_def)
    then show ?thesis using l_pop(1,3) True by (simp add: loop_inv_def Let_def)
  next
    case False
    obtain q' where q': "cfq_pop ?q = Some (if cfq_list ?q = [] then None else Some (hd (cfq_list ?q)), q')" "cfq_ok q'"
      "capacity q' = capacity ?q" "cfq_list q' = tl (cfq_list ?q)" using cfq.pop_law [OF ok] by blast
    have u: "unat (hc_cmds (ss_ctx s) - 1) + 1 = unat (hc_cmds (ss_ctx s))"
      using False by (simp add: unat_minus_one unat_gt_0)
    show ?thesis
    proof (cases "cfq_list ?q")
      case Nil
      then have "ctx = (ss_ctx s)\<lparr>hc_qcmd := q'\<rparr>" using l_pop(2) False q'(1) by (simp add: pop_round_def)
      then show ?thesis using l_pop(1) loop_invD [OF l_pop(3)] q' Nil by (simp add: loop_inv_def Let_def unat_eq_0)
    next
      case (Cons c cs)
      then have "ctx = (ss_ctx s)\<lparr>hc_qcmd := q', hc_posted := hc_posted (ss_ctx s) @ [c],
          hc_cmds := hc_cmds (ss_ctx s) - 1, hc_processed := hc_processed (ss_ctx s) + 1\<rparr>"
        using l_pop(2) False q'(1) by (simp add: pop_round_def)
      then show ?thesis using l_pop(1) loop_invD [OF l_pop(3)] q' u Cons by (simp add: loop_inv_def Let_def)
    qed
  qed
next
  case (l_task s cmd rest ctx)
  then obtain dv' where dv': "cmd_handle ops hs sub cellds cmd (hc_dev (ss_ctx s)) = Some (0, dv')"
    "ctx = (ss_ctx s)\<lparr>hc_posted := rest, hc_dev := dv'\<rparr>"
    by (auto simp: run_posted_def bind_eq_Some_conv expects_def split: if_splits)
  then show ?case using l_task cmd_handle_one_ack [OF dv'(1)] by (auto simp: loop_inv_def Let_def)
qed

lemma loop_reach_inv:
  assumes "loop_reach ops hs sub cellds (session_start q dv) s" "cfq_ok q" "cfq_list q = []" "capacity q < 2 ^ 32"
  shows "loop_inv dv s"
  using assms(1)
proof induction
  case lr_start
  show ?case using assms(2-4) by (simp add: session_start_def loop_inv_def)
qed (rule loop_inv_step)


definition demo_ring :: "cmd cfq" where
  "demo_ring = \<lparr>cfq_items = replicate 3 \<lparr>cmd_id = 0, cmd_op = 0, cmd_offset = 0, cmd_fcdn = 0, cmd_cds_nr = 0, cmd_sz = 0\<rparr>,
     cfq_head = 2, cfq_tail = 2\<rparr>"

definition demo_flush :: cmd where
  "demo_flush = \<lparr>cmd_id = 3, cmd_op = op_flush demo_ops, cmd_offset = 0, cmd_fcdn = 0, cmd_cds_nr = 0, cmd_sz = 0\<rparr>"


end
