(* ===== verification/Slave.thy ===== *)
theory Slave
  imports Event_Loop
begin

text \<open>
  \<open>ublk/slave.cpp\<close>: how a slave finds the memory it shares with the driver.  The directories under
  \<open>/sys/block\<close> are given as data; the names that \<open>linux/ublkdrv\<close> defines are a parameter, and so is
  what the system answers: which devices it opens, which mappings succeed and what they hold.  Each
  \<open>uio\<close> device has maps; the slave needs the configuration of the cells, the cells, the command ring and
  the ring of acknowledgements.  The configuration has to be mapped before the rings, which take
  the position of their head from it, so its map is moved to the front.
\<close>

record map_dir =
  md_is_dir :: bool
  md_file :: string
  md_name :: string
  md_size :: nat

record uio_dir =
  ud_is_dir :: bool
  ud_file :: string
  ud_name :: string
  ud_maps :: "map_dir list"

record uio_names =
  nm_k2u :: string
  nm_u2k :: string
  nm_cellc :: string
  nm_cmdb :: string
  nm_cells :: string

record map_path =
  mp_uio :: string
  mp_uio_name :: string
  mp_file :: string
  mp_name :: string
  mp_size :: nat

definition starts_with :: "string \<Rightarrow> string \<Rightarrow> bool" where
  "starts_with s p \<longleftrightarrow> take (length p) s = p"

definition ends_with :: "string \<Rightarrow> string \<Rightarrow> bool" where
  "ends_with s p \<longleftrightarrow> length p \<le> length s \<and> drop (length s - length p) s = p"

definition maps_fetch :: "uio_names \<Rightarrow> uio_dir list \<Rightarrow> map_path list" where
  "maps_fetch nm dirs =
     concat (map (\<lambda>u. map (\<lambda>m. \<lparr>mp_uio = ud_file u, mp_uio_name = ud_name u, mp_file = md_file m, mp_name = md_name m, mp_size = md_size m\<rparr>)
         (filter (\<lambda>m. md_is_dir m \<and> starts_with (md_file m) ''map'') (ud_maps u)))
       (filter (\<lambda>u. ends_with (ud_name u) (nm_k2u nm) \<or> ends_with (ud_name u) (nm_u2k nm))
         (filter (\<lambda>u. ud_is_dir u \<and> starts_with (ud_file u) ''uio'') dirs)))"

text \<open>A mapping: the device, the offset in pages and the size.\<close>

record mapping =
  mg_uio :: string
  mg_pages :: nat
  mg_size :: nat

text \<open>
  The system: opening a device, mapping it, the head positions in a mapped configuration, the tail
  and the items of a mapped ring.
\<close>

record 'a slave_world =
  sw_opens :: "string \<Rightarrow> bool"
  sw_mmap :: "mapping \<Rightarrow> bool"
  sw_heads :: "mapping \<Rightarrow> nat \<times> nat"
  sw_cmdb :: "mapping \<Rightarrow> nat \<times> cmd list"
  sw_ackb :: "mapping \<Rightarrow> nat \<times> 'a list"

text \<open>\<open>ublk_structured_maps\<close> and the devices to wait on and to notify; a failed mapping is null.\<close>

record 'a slave_maps =
  sm_qcmd :: "cmd cfq option"
  sm_qcmd_ack :: "'a cfq option"
  sm_cellc :: "mapping option"
  sm_cells :: "mapping option"
  sm_uio_devs :: "(string \<times> string) list"

fun digit_val :: "char \<Rightarrow> nat option" where
  "digit_val c = (let n = of_char c in if 48 \<le> n \<and> n \<le> (57 :: nat) then Some (n - 48) else None)"

text \<open>\<open>lexical_cast<unsigned>\<close> of the digits after \<open>map\<close>.\<close>

fun parse_digits :: "nat \<Rightarrow> string \<Rightarrow> nat option" where
  "parse_digits acc [] = Some acc"
| "parse_digits acc (c # cs) = (case digit_val c of None \<Rightarrow> None | Some d \<Rightarrow> parse_digits (10 * acc + d) cs)"

definition off_factor :: "string \<Rightarrow> nat option" where
  "off_factor file = (let ds = drop 3 file in
     if ds = [] then None else case parse_digits 0 ds of None \<Rightarrow> None | Some n \<Rightarrow> if n < 2 ^ 32 then Some n else None)"

text \<open>
  Opening a device throws; a failed \<open>mmap\<close> gives null.  The ring of a null mapping, or before the
  configuration is mapped, follows a null pointer (\<open>None\<close>); its constructor throws when it refuses
  the positions.
\<close>

definition map_shared :: "'a slave_world \<Rightarrow> mapping \<Rightarrow> mapping option start_result" where
  "map_shared w mg = (if sw_opens w (mg_uio mg) then Runs (if sw_mmap w mg then Some mg else None) else Throws)"

definition map_ring :: "'a slave_world \<Rightarrow> mapping \<Rightarrow> mapping option \<Rightarrow> (mapping \<Rightarrow> nat) \<Rightarrow> (mapping \<Rightarrow> nat \<times> 'i list) \<Rightarrow>
    'i cfq start_result option" where
  "map_ring w mg cellc hd_of items = (case map_shared w mg of
       Runs m \<Rightarrow> do {
         b \<leftarrow> m;
         c \<leftarrow> cellc;
         Some (case cfq_base (Some (hd_of c)) (Some (fst (items b))) (snd (items b)) of Inl _ \<Rightarrow> Throws | Inr q \<Rightarrow> Runs q) }
     | _ \<Rightarrow> Some Throws)"

fun on_runs :: "('a \<Rightarrow> 'b) \<Rightarrow> 'a start_result \<Rightarrow> 'b start_result" where
  "on_runs f (Runs x) = Runs (f x)"
| "on_runs f Throws = Throws"
| "on_runs f ExitFailure = ExitFailure"

text \<open>One round of the loop over the maps.\<close>

definition slave_map :: "'a slave_world \<Rightarrow> uio_names \<Rightarrow> map_path \<Rightarrow> 'a slave_maps \<Rightarrow> 'a slave_maps start_result option" where
  "slave_map w nm m s = (case off_factor (mp_file m) of None \<Rightarrow> Some Throws | Some pg \<Rightarrow>
     let mg = \<lparr>mg_uio = mp_uio m, mg_pages = pg, mg_size = mp_size m\<rparr> in
     if ends_with (mp_uio_name m) (nm_k2u nm) then do {
       r \<leftarrow> (if mp_name m = nm_cmdb nm then
                map_option (on_runs (\<lambda>q. s\<lparr>sm_qcmd := Some q\<rparr>)) (map_ring w mg (sm_cellc s) (\<lambda>c. fst (sw_heads w c)) (sw_cmdb w))
              else if mp_name m = nm_cellc nm then Some (on_runs (\<lambda>c. s\<lparr>sm_cellc := c\<rparr>) (map_shared w mg))
              else if mp_name m = nm_cells nm then Some (on_runs (\<lambda>c. s\<lparr>sm_cells := c\<rparr>) (map_shared w mg))
              else Some (Runs s));
       Some (on_runs (\<lambda>s'. s'\<lparr>sm_uio_devs := (nm_k2u nm, mp_uio m) # sm_uio_devs s'\<rparr>) r) }
     else do {
       r \<leftarrow> (if mp_name m = nm_cmdb nm then
                map_option (on_runs (\<lambda>q. s\<lparr>sm_qcmd_ack := Some q\<rparr>)) (map_ring w mg (sm_cellc s) (\<lambda>c. snd (sw_heads w c)) (sw_ackb w))
              else Some (Runs s));
       Some (on_runs (\<lambda>s'. s'\<lparr>sm_uio_devs := (nm_u2k nm, mp_uio m) # sm_uio_devs s'\<rparr>) r) })"

fun slave_loop :: "'a slave_world \<Rightarrow> uio_names \<Rightarrow> map_path list \<Rightarrow> 'a slave_maps \<Rightarrow> 'a slave_maps start_result option" where
  "slave_loop w nm [] s = Some (Runs s)"
| "slave_loop w nm (m # ms) s = (case slave_map w nm m s of
     Some (Runs s') \<Rightarrow> slave_loop w nm ms s'
   | r \<Rightarrow> r)"

fun find_index :: "('a \<Rightarrow> bool) \<Rightarrow> 'a list \<Rightarrow> nat option" where
  "find_index P [] = None"
| "find_index P (x # xs) = (if P x then Some 0 else map_option Suc (find_index P xs))"

definition iter_swap :: "nat \<Rightarrow> nat \<Rightarrow> 'a list \<Rightarrow> 'a list" where
  "iter_swap i j xs = xs[i := xs ! j, j := xs ! i]"

text \<open>
  \<open>run\<close>, up to the start of the loop.  \<open>hfactory\<close> is null or what \<open>create_unique\<close> returns;
  \<open>dv\<close> is the device of the handler it makes.
\<close>

definition slave_run :: "'a slave_world \<Rightarrow> uio_names \<Rightarrow> req_handler list option option \<Rightarrow> 'c device \<Rightarrow> uio_dir list \<Rightarrow>
    ('a slave_maps \<times> 'c handler_ctx) start_result option" where
  "slave_run w nm hfactory dv dirs = (let maps = maps_fetch nm dirs in
     case find_index (\<lambda>m. mp_name m = nm_cellc nm) maps of
       None \<Rightarrow> Some Throws
     | Some i \<Rightarrow> do {
         r \<leftarrow> slave_loop w nm (iter_swap i 0 maps)
           \<lparr>sm_qcmd = None, sm_qcmd_ack = None, sm_cellc = None, sm_cells = None, sm_uio_devs = []\<rparr>;
         case r of
           Runs s \<Rightarrow>
             if sm_qcmd s = None \<or> sm_cellc s = None \<or> sm_cells s = None \<or> sm_qcmd_ack s = None then Some ExitFailure
             else (case map_of (sm_uio_devs s) (nm_u2k nm) of
                 None \<Rightarrow> Some ExitFailure
               | Some path \<Rightarrow>
                   if \<not> sw_opens w path then Some Throws
                   else do {
                     created \<leftarrow> hfactory;
                     handler \<leftarrow> created;
                     started \<leftarrow> async_start (sw_opens w) (nm_k2u nm) (sm_uio_devs s) (sm_qcmd s) (Some handler) dv;
                     Some (on_runs (Pair s) started) })
         | Throws \<Rightarrow> Some Throws
         | ExitFailure \<Rightarrow> Some ExitFailure })"

subsection \<open>A complete device is found in any order\<close>

definition in_k2u :: "uio_names \<Rightarrow> map_path \<Rightarrow> bool" where
  "in_k2u nm m \<longleftrightarrow> ends_with (mp_uio_name m) (nm_k2u nm)"

definition names_ok :: "uio_names \<Rightarrow> bool" where
  "names_ok nm \<longleftrightarrow> distinct [nm_cellc nm, nm_cmdb nm, nm_cells nm] \<and> nm_k2u nm \<noteq> nm_u2k nm"

definition ring_ok :: "nat \<Rightarrow> nat \<times> 'i list \<Rightarrow> bool" where
  "ring_ok h b \<longleftrightarrow> 2 \<le> length (snd b) \<and> h < length (snd b) \<and> fst b < length (snd b)"

text \<open>Everything opens and maps, and the positions the driver left lie in the rings.\<close>

definition world_ok :: "'a slave_world \<Rightarrow> bool" where
  "world_ok w \<longleftrightarrow> (\<forall>p. sw_opens w p) \<and> (\<forall>g. sw_mmap w g) \<and>
     (\<forall>c g. ring_ok (fst (sw_heads w c)) (sw_cmdb w g) \<and> ring_ok (snd (sw_heads w c)) (sw_ackb w g))"

lemma map_shared_ok: "world_ok w \<Longrightarrow> map_shared w mg = Runs (Some mg)"
  by (simp add: map_shared_def world_ok_def)

lemma map_ring_ok:
  assumes "world_ok w" "ring_ok (hd_of c) (items mg)"
  shows "\<exists>q. map_ring w mg (Some c) hd_of items = Some (Runs q) \<and> cfq_ok q"
  using assms(2) by (auto simp: map_ring_def map_shared_ok [OF assms(1)] ring_ok_def cfq_base_def cfq_ok_def capacity_full_def)

text \<open>What the rounds over the maps \<open>ms\<close> have to add to the state.\<close>

definition maps_added :: "uio_names \<Rightarrow> map_path set \<Rightarrow> 'a slave_maps \<Rightarrow> 'a slave_maps \<Rightarrow> bool" where
  "maps_added nm ms s s' \<longleftrightarrow> sm_cellc s' \<noteq> None
    \<and> (sm_qcmd s' \<noteq> None \<longleftrightarrow> sm_qcmd s \<noteq> None \<or> (\<exists>m \<in> ms. in_k2u nm m \<and> mp_name m = nm_cmdb nm))
    \<and> (sm_cells s' \<noteq> None \<longleftrightarrow> sm_cells s \<noteq> None \<or> (\<exists>m \<in> ms. in_k2u nm m \<and> mp_name m = nm_cells nm))
    \<and> (sm_qcmd_ack s' \<noteq> None \<longleftrightarrow> sm_qcmd_ack s \<noteq> None \<or> (\<exists>m \<in> ms. \<not> in_k2u nm m \<and> mp_name m = nm_cmdb nm))
    \<and> (map_of (sm_uio_devs s') (nm_u2k nm) \<noteq> None \<longleftrightarrow> map_of (sm_uio_devs s) (nm_u2k nm) \<noteq> None \<or> (\<exists>m \<in> ms. \<not> in_k2u nm m))
    \<and> (map_of (sm_uio_devs s') (nm_k2u nm) \<noteq> None \<longleftrightarrow> map_of (sm_uio_devs s) (nm_k2u nm) \<noteq> None \<or> (\<exists>m \<in> ms. in_k2u nm m))
    \<and> (pred_option cfq_ok (sm_qcmd s) \<longrightarrow> pred_option cfq_ok (sm_qcmd s'))"

lemma maps_added_empty: "sm_cellc s \<noteq> None \<Longrightarrow> maps_added nm {} s s"
  by (simp add: maps_added_def)

lemma maps_added_trans: "maps_added nm A s s1 \<Longrightarrow> maps_added nm B s1 s2 \<Longrightarrow> maps_added nm (A \<union> B) s s2"
  unfolding maps_added_def bex_Un by simp

lemma slave_map_ok:
  assumes w: "world_ok w" and nm: "names_ok nm" and off: "off_factor (mp_file m) \<noteq> None"
    and c: "sm_cellc s \<noteq> None \<or> in_k2u nm m \<and> mp_name m = nm_cellc nm"
  shows "\<exists>s'. slave_map w nm m s = Some (Runs s') \<and> maps_added nm {m} s s'"
proof -
  obtain pg where pg: "off_factor (mp_file m) = Some pg" using off by auto
  let ?mg = "\<lparr>mg_uio = mp_uio m, mg_pages = pg, mg_size = mp_size m\<rparr>"
  have rings: "ring_ok (fst (sw_heads w c)) (sw_cmdb w g)" "ring_ok (snd (sw_heads w c)) (sw_ackb w g)" for c g
    using w by (auto simp: world_ok_def)
  show ?thesis
  proof (cases "mp_name m = nm_cmdb nm")
    case True
    with c nm obtain c where c: "sm_cellc s = Some c" by (auto simp: names_ok_def)
    obtain q q' where "map_ring w ?mg (Some c) (\<lambda>c. fst (sw_heads w c)) (sw_cmdb w) = Some (Runs q)" "cfq_ok q"
      "map_ring w ?mg (Some c) (\<lambda>c. snd (sw_heads w c)) (sw_ackb w) = Some (Runs q')"
      using map_ring_ok [OF w, of "\<lambda>c. fst (sw_heads w c)" c "sw_cmdb w" ?mg] rings
        map_ring_ok [OF w, of "\<lambda>c. snd (sw_heads w c)" c "sw_ackb w" ?mg] by blast
    then show ?thesis using True nm c pg
      by (auto simp: slave_map_def Let_def in_k2u_def names_ok_def maps_added_def)
  next
    case False
    then show ?thesis using nm c pg
      by (auto simp: slave_map_def Let_def in_k2u_def names_ok_def maps_added_def map_shared_ok [OF w])
  qed
qed

lemma slave_loop_ok:
  assumes "world_ok w" "names_ok nm" "\<forall>m \<in> set ms. off_factor (mp_file m) \<noteq> None" "sm_cellc s \<noteq> None"
  shows "\<exists>s'. slave_loop w nm ms s = Some (Runs s') \<and> maps_added nm (set ms) s s'"
  using assms(3,4)
proof (induction ms arbitrary: s)
  case (Cons m ms)
  obtain s1 where s1: "slave_map w nm m s = Some (Runs s1)" "maps_added nm {m} s s1"
    using slave_map_ok [OF assms(1,2), of m s] Cons.prems by auto
  then have "sm_cellc s1 \<noteq> None" by (simp add: maps_added_def)
  with Cons.IH Cons.prems(1) obtain s2 where "slave_loop w nm ms s1 = Some (Runs s2)" "maps_added nm (set ms) s1 s2" by auto
  with s1 maps_added_trans [OF s1(2)] show ?case by auto
qed (simp add: maps_added_empty)

lemma find_index_SomeD: "find_index P xs = Some i \<Longrightarrow> i < length xs \<and> P (xs ! i)"
  by (induction xs arbitrary: i) (auto split: if_splits)

lemma find_index_NoneD: "find_index P xs = None \<Longrightarrow> \<forall>x \<in> set xs. \<not> P x"
  by (induction xs) (auto split: if_splits)

text \<open>
  C21. Whatever the order of the directories, a device with a configuration map, a ring of commands and cells on the
  kernel-to-user side and a ring of acknowledgements on the other is set up: the rings are never mapped before the
  configuration, and the loop starts waiting on a ring whose positions are in range.
\<close>

theorem slave_starts:
  assumes w: "world_ok w" "names_ok nm" "maps = maps_fetch nm dirs" "\<forall>m \<in> set maps. off_factor (mp_file m) \<noteq> None"
    and cellc: "m0 \<in> set maps" "mp_name m0 = nm_cellc nm" "\<forall>m \<in> set maps. mp_name m = nm_cellc nm \<longrightarrow> in_k2u nm m"
    and rest: "m1 \<in> set maps" "in_k2u nm m1" "mp_name m1 = nm_cmdb nm" "m2 \<in> set maps" "in_k2u nm m2" "mp_name m2 = nm_cells nm"
      "m3 \<in> set maps" "\<not> in_k2u nm m3" "mp_name m3 = nm_cmdb nm"
  shows "\<exists>s q. slave_run w nm (Some (Some hs)) dv dirs = Some (Runs (s, ss_ctx (session_start q dv))) \<and> sm_qcmd s = Some q \<and> cfq_ok q"
proof -
  let ?P = "\<lambda>m. mp_name m = nm_cellc nm"
  let ?s0 = "\<lparr>sm_qcmd = None, sm_qcmd_ack = None, sm_cellc = None, sm_cells = None, sm_uio_devs = []\<rparr> :: 'a slave_maps"
  obtain i where i: "find_index ?P maps = Some i" using find_index_NoneD [of ?P maps] cellc(1,2) by (cases "find_index ?P maps") auto
  have ib: "i < length maps" "?P (maps ! i)" using find_index_SomeD [OF i] by simp_all
  then have z: "0 < length maps" by linarith
  let ?ms = "iter_swap i 0 maps"
  have set: "set ?ms = set maps" unfolding iter_swap_def by (rule set_swap [OF ib(1) z])
  have "?ms ! 0 = maps ! i" "length ?ms = length maps" using z by (simp_all add: iter_swap_def)
  then obtain ms where ms: "?ms = maps ! i # ms" using z by (cases ?ms) auto
  have "in_k2u nm (maps ! i)" "off_factor (mp_file (maps ! i)) \<noteq> None" using ib cellc(3) w(4) by auto
  then obtain s1 where s1: "slave_map w nm (maps ! i) ?s0 = Some (Runs s1)" "maps_added nm {maps ! i} ?s0 s1"
    using slave_map_ok [OF w(1,2), of "maps ! i" ?s0] ib(2) by auto
  then have "sm_cellc s1 \<noteq> None" by (simp add: maps_added_def)
  moreover have "\<forall>m \<in> set ms. off_factor (mp_file m) \<noteq> None" using set ms w(4) by auto
  ultimately obtain s where s: "slave_loop w nm ms s1 = Some (Runs s)" "maps_added nm (set ms) s1 s"
    using slave_loop_ok [OF w(1,2)] by blast
  have "maps_added nm (set maps) ?s0 s" using maps_added_trans [OF s1(2) s(2)] set unfolding ms by simp
  then have f: "sm_cellc s \<noteq> None" "sm_qcmd s \<noteq> None" "sm_cells s \<noteq> None" "sm_qcmd_ack s \<noteq> None"
    "map_of (sm_uio_devs s) (nm_u2k nm) \<noteq> None" "map_of (sm_uio_devs s) (nm_k2u nm) \<noteq> None" "pred_option cfq_ok (sm_qcmd s)"
    using rest unfolding maps_added_def by auto
  then obtain q path path' where q: "sm_qcmd s = Some q" "map_of (sm_uio_devs s) (nm_u2k nm) = Some path"
    "map_of (sm_uio_devs s) (nm_k2u nm) = Some path'" "cfq_ok q" by auto
  moreover have "sw_opens w p" for p using w(1) by (simp add: world_ok_def)
  ultimately have "slave_run w nm (Some (Some hs)) dv dirs = Some (Runs (s, ss_ctx (session_start q dv)))"
    using i s1(1) s(1) f(1,3,4) by (simp add: slave_run_def Let_def w(3) [symmetric] ms async_start_session)
  with q show ?thesis by blast
qed

definition demo_names :: uio_names where
  "demo_names = \<lparr>nm_k2u = ''k2u'', nm_u2k = ''u2k'', nm_cellc = ''cellc'', nm_cmdb = ''cmdb'', nm_cells = ''cells''\<rparr>"

definition demo_dirs :: "uio_dir list" where
  "demo_dirs =
     [\<lparr>ud_is_dir = True, ud_file = ''uio1'', ud_name = ''0u2k'', ud_maps = [\<lparr>md_is_dir = True, md_file = ''map0'', md_name = ''cmdb'', md_size = 4096\<rparr>]\<rparr>,
      \<lparr>ud_is_dir = True, ud_file = ''uio0'', ud_name = ''0k2u'', ud_maps = map (\<lambda>(f, n). \<lparr>md_is_dir = True, md_file = f, md_name = n, md_size = 4096\<rparr>)
        [(''map0'', ''cmdb''), (''map1'', ''cells''), (''map2'', ''cellc'')]\<rparr>]"

definition demo_slave_world :: "nat slave_world" where
  "demo_slave_world = \<lparr>sw_opens = (\<lambda>_. True), sw_mmap = (\<lambda>_. True), sw_heads = (\<lambda>_. (0, 0)),
     sw_cmdb = (\<lambda>_. (0, cfq_items demo_ring)), sw_ackb = (\<lambda>_. (0, [0, 0, 0]))\<rparr>"

theorem slave_starts_witness:
  "\<exists>s q. slave_run demo_slave_world demo_names (Some (Some [])) \<lparr>dv_cells = [], dv_target = (), dv_acks = []\<rparr> demo_dirs
     = Some (Runs (s, ss_ctx (session_start q \<lparr>dv_cells = [], dv_target = (), dv_acks = []\<rparr>))) \<and> sm_qcmd s = Some q \<and> cfq_ok q"
proof -
  let ?m = "\<lambda>u n f k. \<lparr>mp_uio = u, mp_uio_name = n, mp_file = f, mp_name = k, mp_size = 4096\<rparr>"
  have w: "world_ok demo_slave_world" "names_ok demo_names"
    by (simp_all add: world_ok_def demo_slave_world_def ring_ok_def demo_ring_def names_ok_def demo_names_def)
  have m: "maps_fetch demo_names demo_dirs = [?m ''uio1'' ''0u2k'' ''map0'' ''cmdb'', ?m ''uio0'' ''0k2u'' ''map0'' ''cmdb'',
      ?m ''uio0'' ''0k2u'' ''map1'' ''cells'', ?m ''uio0'' ''0k2u'' ''map2'' ''cellc'']"
    by code_simp
  have off: "off_factor ''map0'' = Some 0" "off_factor ''map1'' = Some 1" "off_factor ''map2'' = Some 2"
    by (simp_all add: off_factor_def Let_def)
  have k: "ends_with ''0k2u'' ''k2u''" "\<not> ends_with ''0u2k'' ''k2u''" by code_simp+
  have n: "nm_k2u demo_names = ''k2u''" "nm_cellc demo_names = ''cellc''" "nm_cmdb demo_names = ''cmdb''" "nm_cells demo_names = ''cells''"
    by (simp_all add: demo_names_def)
  show ?thesis
    by (rule slave_starts [OF w m [symmetric], where ?m0.0 = "?m ''uio0'' ''0k2u'' ''map2'' ''cellc''"
          and ?m1.0 = "?m ''uio0'' ''0k2u'' ''map0'' ''cmdb''" and ?m2.0 = "?m ''uio0'' ''0k2u'' ''map1'' ''cells''"
          and ?m3.0 = "?m ''uio1'' ''0u2k'' ''map0'' ''cmdb''"]) (simp_all add: off k n in_k2u_def)
qed

end
