(* ===== verification/Device_Stack.thy ===== *)
theory Device_Stack
  imports Default_Target Raid0 Raid1 Raid45 Cache_Handlers Commands
begin

text \<open>
  \<open>ublk/master.cpp\<close>, from a device's configuration to its submitters: the default target and the
  RAID targets over it, each behind an optional cache, and arrays of arrays.

  The three submitters a \<open>handlers_ops\<close> holds share one target object.  Here a \<open>handlers_ops\<close> is that
  object together with the functions that work on it, so the children of an array are values of
  this type and a request to one of them is dispatched through the functions it carries.

  A failing construction either throws (\<open>Inl\<close>) or violates a contract of a constructor (\<open>None\<close>).
\<close>

datatype create_exn = OverflowError | InvalidArgument | DeviceBusy | RuntimeError | SystemError int

type_synonym 'a created = "(create_exn + 'a) option"

definition cbind :: "'a created \<Rightarrow> ('a \<Rightarrow> 'b created) \<Rightarrow> 'b created" where
  "cbind m f = (case m of None \<Rightarrow> None | Some (Inl x) \<Rightarrow> Some (Inl x) | Some (Inr a) \<Rightarrow> f a)"

definition contracted :: "'a option \<Rightarrow> 'a created" where
  "contracted = map_option Inr"

lemma cbind_simps [simp]:
  "cbind (Some (Inr a)) f = f a" "cbind (Some (Inl x)) f = Some (Inl x)" "cbind None f = None"
  by (simp_all add: cbind_def)

lemma contracted_simps [simp]: "contracted (Some a) = Some (Inr a)" "contracted None = None"
  by (simp_all add: contracted_def)

text \<open>\<open>std::ranges::transform\<close> with a function that may throw: the first exception ends it.\<close>

fun ctransform :: "('a \<Rightarrow> 'b created) \<Rightarrow> 'a list \<Rightarrow> 'b list created" where
  "ctransform f [] = Some (Inr [])"
| "ctransform f (x # xs) = cbind (f x) (\<lambda>y. cbind (ctransform f xs) (\<lambda>ys. Some (Inr (y # ys))))"

lemma ctransform_all:
  "\<forall>x \<in> set xs. f x = Some (Inr (g x)) \<Longrightarrow> ctransform f xs = Some (Inr (map g xs))"
  by (induction xs) auto

subsection \<open>Submitters and handlers\<close>

type_synonym 's flush_fn = "'s \<Rightarrow> (int \<times> int \<times> 's) option"

record 's handlers_ops =
  ho_reader :: "'s read_fn"
  ho_writer :: "'s write_fn"
  ho_flusher :: "'s flush_fn"
  ho_target :: 's

text \<open>\<open>RWHandler\<close> over the reader and the writer of a \<open>handlers_ops\<close>, and its flusher.\<close>

definition rwh_submit_rd :: "'s handlers_ops read_fn" where
  "rwh_submit_rd off buf h = do {
     (res, e, buf', t) \<leftarrow> ho_reader h off buf (ho_target h);
     Some (res, e, buf', h\<lparr>ho_target := t\<rparr>) }"

definition rwh_submit_wr :: "'s handlers_ops write_fn" where
  "rwh_submit_wr off buf h = do {
     (res, e, t) \<leftarrow> ho_writer h off buf (ho_target h);
     Some (res, e, h\<lparr>ho_target := t\<rparr>) }"

definition rwhandler :: "'s handlers_ops rw_handler" where
  "rwhandler = \<lparr>submit_rd = rwh_submit_rd, submit_wr = rwh_submit_wr\<rparr>"

definition ho_flush :: "'s handlers_ops flush_fn" where
  "ho_flush h = do {
     (res, e, t) \<leftarrow> ho_flusher h (ho_target h);
     Some (res, e, h\<lparr>ho_target := t\<rparr>) }"

text \<open>\<open>RDQSubmitter\<close> and \<open>WRQSubmitter\<close> over a handler.\<close>

definition rdq_submit :: "'s rw_handler \<Rightarrow> 's read_fn" where
  "rdq_submit rwh = submit_rd rwh"

definition wrq_submit :: "'s rw_handler \<Rightarrow> 's write_fn" where
  "wrq_submit rwh = submit_wr rwh"

text \<open>The submitters of each kind of target.\<close>

definition inmem_rdq_submit :: "inmem read_fn" where
  "inmem_rdq_submit = inmem_read"

definition inmem_wrq_submit :: "inmem write_fn" where
  "inmem_wrq_submit = inmem_write"

definition raid0_rdq_submit :: "'s handlers_ops raid0 target read_fn" where
  "raid0_rdq_submit = raid0_target_read rwhandler"

definition raid0_wrq_submit :: "'s handlers_ops raid0 target write_fn" where
  "raid0_wrq_submit = raid0_target_write rwhandler"

definition raid1_rdq_submit :: "'s handlers_ops raid1 target read_fn" where
  "raid1_rdq_submit = raid1_target_read rwhandler"

definition raid1_wrq_submit :: "'s handlers_ops raid1 target write_fn" where
  "raid1_wrq_submit = raid1_target_write rwhandler"

definition raid4_rdq_submit :: "'s handlers_ops acceptor target read_fn" where
  "raid4_rdq_submit = raidsp_target_read rwhandler"

definition raid4_wrq_submit :: "'s handlers_ops acceptor target write_fn" where
  "raid4_wrq_submit = raidsp_target_write rwhandler"

definition raid5_rdq_submit :: "'s handlers_ops acceptor target read_fn" where
  "raid5_rdq_submit = raidsp_target_read rwhandler"

definition raid5_wrq_submit :: "'s handlers_ops acceptor target write_fn" where
  "raid5_wrq_submit = raidsp_target_write rwhandler"

subsection \<open>The optional cache\<close>

record cache_cfg =
  len_sectors :: nat
  write_through_enable :: bool

datatype 's maybe_cached = Plain 's | CachedBy "'s rw_cached"

text \<open>\<open>pool sz k\<close> is the content of the recycled chunk of \<open>sz\<close> bytes a miss of item \<open>k\<close> starts from.\<close>

fun mc_read :: "'s rw_handler \<Rightarrow> (nat \<Rightarrow> nat \<Rightarrow> byte list) \<Rightarrow> 's maybe_cached read_fn" where
  "mc_read ops pool off buf (Plain s) = do {
     (res, e, buf', s') \<leftarrow> submit_rd ops off buf s;
     Some (res, e, buf', Plain s') }"
| "mc_read ops pool off buf (CachedBy s) = do {
     (res, e, buf', s') \<leftarrow> rw_read ops (pool (cache_item_sz (rc_cache s))) off buf s;
     Some (res, e, buf', CachedBy s') }"

fun mc_write :: "'s rw_handler \<Rightarrow> (nat \<Rightarrow> nat \<Rightarrow> byte list) \<Rightarrow> 's maybe_cached write_fn" where
  "mc_write ops pool off buf (Plain s) = do {
     (res, e, s') \<leftarrow> submit_wr ops off buf s;
     Some (res, e, Plain s') }"
| "mc_write ops pool off buf (CachedBy s) = do {
     (res, e, s') \<leftarrow> rw_write ops (pool (cache_item_sz (rc_cache s))) off buf s;
     Some (res, e, CachedBy s') }"

definition mc_ops :: "'s rw_handler \<Rightarrow> (nat \<Rightarrow> nat \<Rightarrow> byte list) \<Rightarrow> 's maybe_cached rw_handler" where
  "mc_ops ops pool = \<lparr>submit_rd = mc_read ops pool, submit_wr = mc_write ops pool\<rparr>"

text \<open>The flusher works on the target itself, past the cache.\<close>

fun mc_flush :: "'s flush_fn \<Rightarrow> 's maybe_cached flush_fn" where
  "mc_flush fl (Plain s) = do { (res, e, s') \<leftarrow> fl s; Some (res, e, Plain s') }"
| "mc_flush fl (CachedBy s) = do { (res, e, d) \<leftarrow> fl (rc_dev s); Some (res, e, CachedBy (s\<lparr>rc_dev := d\<rparr>)) }"

definition with_cache :: "cache_cfg option \<Rightarrow> 's \<Rightarrow> 's maybe_cached option" where
  "with_cache cfg s = (case cfg of None \<Rightarrow> Some (Plain s) | Some c \<Rightarrow>
     if len_sectors c \<noteq> 0 then map_option CachedBy (rw_create (len_sectors c) s (write_through_enable c))
     else Some (Plain s))"

definition make_ops :: "'s rw_handler \<Rightarrow> 's flush_fn \<Rightarrow> (nat \<Rightarrow> nat \<Rightarrow> byte list) \<Rightarrow> cache_cfg option \<Rightarrow> 's
    \<Rightarrow> 's maybe_cached handlers_ops option" where
  "make_ops ops fl pool cfg s = do {
     m \<leftarrow> with_cache cfg s;
     Some \<lparr>ho_reader = rdq_submit (mc_ops ops pool), ho_writer = wrq_submit (mc_ops ops pool),
       ho_flusher = mc_flush fl, ho_target = m\<rparr> }"

subsection \<open>Constructing the targets\<close>

definition make_default_ops :: "'f file_ops \<Rightarrow> (nat \<Rightarrow> nat \<Rightarrow> byte list) \<Rightarrow> cache_cfg option \<Rightarrow> 'f
    \<Rightarrow> 'f maybe_cached handlers_ops created" where
  "make_default_ops fo pool cfg fd =
     contracted (make_ops \<lparr>submit_rd = def_rdq_submit fo, submit_wr = def_wrq_submit fo\<rparr> (def_flq_submit fo) pool cfg fd)"

definition raid0_child_flush :: "nat \<Rightarrow> 's handlers_ops raid0 target flush_fn" where
  "raid0_child_flush i t = do {
     (res, e, h) \<leftarrow> ho_flush (r0_hs (backend t) ! i);
     Some (res, e, t\<lparr>backend := (backend t)\<lparr>r0_hs := (r0_hs (backend t))[i := h]\<rparr>\<rparr>) }"

definition raid1_child_flush :: "nat \<Rightarrow> 's handlers_ops raid1 target flush_fn" where
  "raid1_child_flush i t = do {
     (res, e, h) \<leftarrow> ho_flush (r1_hs (backend t) ! i);
     Some (res, e, t\<lparr>backend := (backend t)\<lparr>r1_hs := (r1_hs (backend t))[i := h]\<rparr>\<rparr>) }"

definition raidsp_child_flush :: "nat \<Rightarrow> 's handlers_ops acceptor target flush_fn" where
  "raidsp_child_flush i t = (let be = acc_be (backend t) in do {
     (res, e, h) \<leftarrow> ho_flush (sp_hs be ! i);
     Some (res, e, t\<lparr>backend := (backend t)\<lparr>acc_be := be\<lparr>sp_hs := (sp_hs be)[i := h]\<rparr>\<rparr>\<rparr>) })"

definition make_raid0_ops :: "(nat \<Rightarrow> nat \<Rightarrow> byte list) \<Rightarrow> nat \<Rightarrow> cache_cfg option \<Rightarrow> 's handlers_ops list
    \<Rightarrow> 's handlers_ops raid0 target maybe_cached handlers_ops created" where
  "make_raid0_ops pool strip_sz cfg handlers = contracted (do {
     be \<leftarrow> raid0_create strip_sz (map Some handlers);
     make_ops \<lparr>submit_rd = raid0_rdq_submit, submit_wr = raid0_wrq_submit\<rparr>
       (flq_composite (map raid0_child_flush [0..<length handlers])) pool cfg \<lparr>fsm = Online, backend = be\<rparr> })"

text \<open>\<open>raid1_strip_sz\<close> is \<open>None\<close> where the code throws \<open>std::overflow_error\<close>.\<close>

definition max_sectors :: nat where
  "max_sectors = (u64_limit - 1) div 512"

definition raid1_strip_sz :: "nat \<Rightarrow> nat option" where
  "raid1_strip_sz read_strip_len_sectors =
     (if read_strip_len_sectors > max_sectors then None
      else let read_strip_sz = read_strip_len_sectors * 512 mod u64_limit
           in Some (if 0 = read_strip_sz then max_sectors * 512 mod u64_limit else read_strip_sz))"

definition make_raid1_ops :: "(nat \<Rightarrow> nat \<Rightarrow> byte list) \<Rightarrow> nat \<Rightarrow> cache_cfg option \<Rightarrow> 's handlers_ops list
    \<Rightarrow> 's handlers_ops raid1 target maybe_cached handlers_ops created" where
  "make_raid1_ops pool read_strip_len_sectors cfg handlers =
     (case raid1_strip_sz read_strip_len_sectors of
        None \<Rightarrow> Some (Inl OverflowError)
      | Some read_strip_sz \<Rightarrow> contracted (do {
          be \<leftarrow> raid1_create read_strip_sz (map Some handlers);
          make_ops \<lparr>submit_rd = raid1_rdq_submit, submit_wr = raid1_wrq_submit\<rparr>
            (flq_composite (map raid1_child_flush [0..<length handlers])) pool cfg \<lparr>fsm = Online, backend = be\<rparr> }))"

definition make_raid4_ops :: "'f file_ops \<Rightarrow> (nat \<Rightarrow> nat \<Rightarrow> byte list) \<Rightarrow> nat \<Rightarrow> cache_cfg option \<Rightarrow> 'f list
    \<Rightarrow> 'f maybe_cached handlers_ops acceptor target maybe_cached handlers_ops created" where
  "make_raid4_ops fo pool strip_sz cfg fds = cbind (ctransform (make_default_ops fo pool None) fds) (\<lambda>handlers. contracted (do {
     acc \<leftarrow> raid4_create strip_sz (map Some handlers);
     make_ops \<lparr>submit_rd = raid4_rdq_submit, submit_wr = raid4_wrq_submit\<rparr>
       (flq_composite (map raidsp_child_flush [0..<length handlers])) pool cfg \<lparr>fsm = Online, backend = acc\<rparr> }))"

definition make_raid5_ops :: "'f file_ops \<Rightarrow> (nat \<Rightarrow> nat \<Rightarrow> byte list) \<Rightarrow> nat \<Rightarrow> cache_cfg option \<Rightarrow> 'f list
    \<Rightarrow> 'f maybe_cached handlers_ops acceptor target maybe_cached handlers_ops created" where
  "make_raid5_ops fo pool strip_sz cfg fds = cbind (ctransform (make_default_ops fo pool None) fds) (\<lambda>handlers. contracted (do {
     acc \<leftarrow> raid5_create strip_sz (map Some handlers);
     make_ops \<lparr>submit_rd = raid5_rdq_submit, submit_wr = raid5_wrq_submit\<rparr>
       (flq_composite (map raidsp_child_flush [0..<length handlers])) pool cfg \<lparr>fsm = Online, backend = acc\<rparr> }))"

text \<open>The overloads over open files.\<close>

definition make_raid0_fds :: "'f file_ops \<Rightarrow> (nat \<Rightarrow> nat \<Rightarrow> byte list) \<Rightarrow> nat \<Rightarrow> cache_cfg option \<Rightarrow> 'f list
    \<Rightarrow> 'f maybe_cached handlers_ops raid0 target maybe_cached handlers_ops created" where
  "make_raid0_fds fo pool strip_sz cfg fds =
     cbind (ctransform (make_default_ops fo pool None) fds) (make_raid0_ops pool strip_sz cfg)"

definition make_raid1_fds :: "'f file_ops \<Rightarrow> (nat \<Rightarrow> nat \<Rightarrow> byte list) \<Rightarrow> nat \<Rightarrow> cache_cfg option \<Rightarrow> 'f list
    \<Rightarrow> 'f maybe_cached handlers_ops raid1 target maybe_cached handlers_ops created" where
  "make_raid1_fds fo pool read_strip_len_sectors cfg fds =
     cbind (ctransform (make_default_ops fo pool None) fds) (make_raid1_ops pool read_strip_len_sectors cfg)"

subsection \<open>What a constructed device serves\<close>

text \<open>A flush of a working device keeps its content and sets no error, whatever it returns.\<close>

definition flush_keeps :: "'s flush_fn \<Rightarrow> ('s \<Rightarrow> bool) \<Rightarrow> ('s \<Rightarrow> byte list) \<Rightarrow> bool" where
  "flush_keeps fl good content \<longleftrightarrow>
     (\<forall>s. good s \<longrightarrow> (\<exists>r s'. fl s = Some (r, 0, s') \<and> good s' \<and> content s' = content s))"

locale flush_dev = aligned_dev al ops good content
  for al :: nat and ops :: "'c rw_handler" and good :: "'c \<Rightarrow> bool" and content :: "'c \<Rightarrow> byte list" +
  fixes flush :: "'c flush_fn"
  assumes flush_law: "flush_keeps flush good content"

lemma flq_loop_keeps:
  "\<forall>f \<in> set fs. flush_keeps f good content \<Longrightarrow> good s \<Longrightarrow>
    \<exists>s'. flq_loop fs 0 s = Some (0, s') \<and> good s' \<and> content s' = content s"
proof (induction fs arbitrary: s)
  case (Cons f fs)
  then obtain r s1 where "f s = Some (r, 0, s1)" "good s1" "content s1 = content s" by (auto simp: flush_keeps_def)
  moreover obtain s2 where "flq_loop fs 0 s1 = Some (0, s2)" "good s2" "content s2 = content s1"
    using Cons calculation(2) by auto
  ultimately show ?case by (simp add: merge_err_def)
qed simp

lemma flq_composite_keeps:
  "\<forall>f \<in> set fs. flush_keeps f good content \<Longrightarrow> flush_keeps (flq_composite fs) good content"
  using flq_loop_keeps [of fs good content] by (fastforce simp: flush_keeps_def flq_composite_def)

text \<open>A \<open>handlers_ops\<close> whose submitters are a working device on its target.\<close>

definition hops_good :: "nat \<Rightarrow> ('s \<Rightarrow> byte list) \<Rightarrow> 's handlers_ops \<Rightarrow> bool" where
  "hops_good al content h \<longleftrightarrow> (\<exists>good.
     flush_dev al \<lparr>submit_rd = ho_reader h, submit_wr = ho_writer h\<rparr> good content (ho_flusher h) \<and> good (ho_target h))"

definition hops_content :: "('s \<Rightarrow> byte list) \<Rightarrow> 's handlers_ops \<Rightarrow> byte list" where
  "hops_content content h = content (ho_target h)"

lemma hops_goodE:
  assumes "hops_good al content h"
  obtains good where "flush_dev al \<lparr>submit_rd = ho_reader h, submit_wr = ho_writer h\<rparr> good content (ho_flusher h)"
    "good (ho_target h)"
  using assms by (auto simp: hops_good_def)

lemma hops_goodI:
  "flush_dev al \<lparr>submit_rd = ho_reader h, submit_wr = ho_writer h\<rparr> good content (ho_flusher h) \<Longrightarrow> good t \<Longrightarrow>
    hops_good al content (h\<lparr>ho_target := t\<rparr>)"
  by (auto simp: hops_good_def)

lemma hops_flush_dev: "flush_dev al rwhandler (hops_good al content) (hops_content content) ho_flush"
proof
  fix h :: "'a handlers_ops" and buf :: "byte list" and off
  assume h: "hops_good al content h" "buf \<noteq> []" "off + length buf \<le> length (hops_content content h)"
    "al dvd off" "al dvd length buf"
  from h(1) obtain good where d: "flush_dev al \<lparr>submit_rd = ho_reader h, submit_wr = ho_writer h\<rparr> good content (ho_flusher h)"
    "good (ho_target h)" by (rule hops_goodE)
  note laws = aligned_dev.aligned_read_law [OF flush_dev.axioms(1) [OF d(1)]] aligned_dev.aligned_write_law [OF flush_dev.axioms(1) [OF d(1)]]
  have le: "off + length buf \<le> length (content (ho_target h))" using h(3) by (simp add: hops_content_def)
  from laws(1) [OF d(2) h(2) le h(4,5)] hops_goodI [OF d(1)]
  show "\<exists>h'. submit_rd rwhandler off buf h = Some (0, 0, subspan (hops_content content h) off (length buf), h') \<and>
      hops_good al content h' \<and> hops_content content h' = hops_content content h"
    by (auto simp: rwhandler_def rwh_submit_rd_def hops_content_def)
  from laws(2) [OF d(2) h(2) le h(4,5)] hops_goodI [OF d(1)]
  show "\<exists>h'. submit_wr rwhandler off buf h = Some (0, 0, h') \<and> hops_good al content h' \<and>
      hops_content content h' = copy_at (hops_content content h) off buf"
    by (auto simp: rwhandler_def rwh_submit_wr_def hops_content_def)
next
  have "\<exists>r h'. ho_flush h = Some (r, 0, h') \<and> hops_good al content h' \<and> hops_content content h' = hops_content content h"
    if h: "hops_good al content h" for h :: "'a handlers_ops"
  proof -
    obtain good where d: "flush_dev al \<lparr>submit_rd = ho_reader h, submit_wr = ho_writer h\<rparr> good content (ho_flusher h)"
      "good (ho_target h)" by (rule hops_goodE [OF h])
    then obtain r t where "ho_flusher h (ho_target h) = Some (r, 0, t)" "good t" "content t = content (ho_target h)"
      using flush_dev.flush_law [OF d(1)] by (auto simp: flush_keeps_def)
    then show ?thesis using hops_goodI [OF d(1)] by (auto simp: ho_flush_def hops_content_def)
  qed
  then show "flush_keeps ho_flush (hops_good al content) (hops_content content)" by (simp add: flush_keeps_def)
qed

lemmas hops_aligned_dev = flush_dev.axioms(1) [OF hops_flush_dev]
lemmas hops_block_dev = hops_aligned_dev [of 1, folded block_dev_aligned]
lemmas hops_flush_keeps = flush_dev.flush_law [OF hops_flush_dev]

fun mc_good :: "('s \<Rightarrow> bool) \<Rightarrow> ('s \<Rightarrow> byte list) \<Rightarrow> (nat \<Rightarrow> nat \<Rightarrow> byte list) \<Rightarrow> 's maybe_cached \<Rightarrow> bool" where
  "mc_good good content pool (Plain s) = good s"
| "mc_good good content pool (CachedBy s) \<longleftrightarrow>
     rw_good good content (pool (cache_item_sz (rc_cache s))) s \<and> 512 dvd cache_item_sz (rc_cache s)"

fun mc_content :: "('s \<Rightarrow> byte list) \<Rightarrow> 's maybe_cached \<Rightarrow> byte list" where
  "mc_content content (Plain s) = content s"
| "mc_content content (CachedBy s) = content (rc_dev s)"

definition pool_ok :: "(nat \<Rightarrow> nat \<Rightarrow> byte list) \<Rightarrow> bool" where
  "pool_ok pool \<longleftrightarrow> (\<forall>sz k. length (pool sz k) = sz)"

lemma rw_good_item_sz:
  "rw_good good content p s \<Longrightarrow> cache_item_sz (rc_cache s) = length (p 0)"
  by (simp add: rw_good_def cached_idle_def cached_good_def)

context aligned_dev
begin

lemma mc_aligned_dev:
  assumes "pool_ok pool" "al dvd 512"
  shows "aligned_dev al (mc_ops ops pool) (mc_good good content pool) (mc_content content)"
proof
  fix s :: "'c maybe_cached" and buf :: "byte list" and off
  assume s: "mc_good good content pool s" "buf \<noteq> []" "off + length buf \<le> length (mc_content content s)"
    and al: "al dvd off" "al dvd length buf"
  have dev: "aligned_dev al (cached_ops ops (pool (cache_item_sz (rc_cache x)))) (rw_good good content (pool (cache_item_sz (rc_cache x))))
      (\<lambda>x. content (rc_dev x))" if "512 dvd cache_item_sz (rc_cache x)" for x :: "'c rw_cached"
    using assms that by (intro cached_aligned_dev) (auto simp: pool_ok_def elim: dvd_trans)
  have sz: "cache_item_sz (rc_cache x') = cache_item_sz (rc_cache x)"
    if "rw_good good content (pool (cache_item_sz (rc_cache x))) x'" for x x' :: "'c rw_cached"
    using rw_good_item_sz [OF that] assms by (simp add: pool_ok_def)
  show "\<exists>s'. submit_rd (mc_ops ops pool) off buf s = Some (0, 0, subspan (mc_content content s) off (length buf), s') \<and>
      mc_good good content pool s' \<and> mc_content content s' = mc_content content s"
  proof (cases s)
    case (Plain x)
    then show ?thesis using aligned_read_law [of x buf off] s al by (auto simp: mc_ops_def)
  next
    case (CachedBy x)
    then obtain x' where "rw_read ops (pool (cache_item_sz (rc_cache x))) off buf x =
        Some (0, 0, subspan (content (rc_dev x)) off (length buf), x')"
      "rw_good good content (pool (cache_item_sz (rc_cache x))) x'" "content (rc_dev x') = content (rc_dev x)"
      using aligned_dev.aligned_read_law [OF dev [of x], of x buf off] s al by (auto simp: cached_ops_def)
    then show ?thesis using sz [of x x'] CachedBy s(1) by (simp add: mc_ops_def)
  qed
  show "\<exists>s'. submit_wr (mc_ops ops pool) off buf s = Some (0, 0, s') \<and> mc_good good content pool s' \<and>
      mc_content content s' = copy_at (mc_content content s) off buf"
  proof (cases s)
    case (Plain x)
    then show ?thesis using aligned_write_law [of x buf off] s al by (auto simp: mc_ops_def)
  next
    case (CachedBy x)
    then obtain x' where "rw_write ops (pool (cache_item_sz (rc_cache x))) off buf x = Some (0, 0, x')"
      "rw_good good content (pool (cache_item_sz (rc_cache x))) x'" "content (rc_dev x') = copy_at (content (rc_dev x)) off buf"
      using aligned_dev.aligned_write_law [OF dev [of x], of x buf off] s al by (auto simp: cached_ops_def)
    then show ?thesis using sz [of x x'] CachedBy s(1) by (simp add: mc_ops_def)
  qed
qed

end

lemma rw_good_dev:
  "rw_good good content p s \<Longrightarrow> good d \<Longrightarrow> content d = content (rc_dev s) \<Longrightarrow> rw_good good content p (s\<lparr>rc_dev := d\<rparr>)"
  by (simp add: rw_good_def cached_idle_def cached_good_def rw_view_def)

lemma mc_flush_keeps:
  "flush_keeps fl good content \<Longrightarrow> flush_keeps (mc_flush fl) (mc_good good content pool) (mc_content content)"
  unfolding flush_keeps_def
proof (intro allI impI)
  fix s assume fl: "\<forall>s. good s \<longrightarrow> (\<exists>r s'. fl s = Some (r, 0, s') \<and> good s' \<and> content s' = content s)"
    and s: "mc_good good content pool s"
  show "\<exists>r s'. mc_flush fl s = Some (r, 0, s') \<and> mc_good good content pool s' \<and> mc_content content s' = mc_content content s"
  proof (cases s)
    case (Plain x)
    then show ?thesis using fl s by fastforce
  next
    case (CachedBy x)
    then have g: "rw_good good content (pool (cache_item_sz (rc_cache x))) x" using s by simp
    then have "good (rc_dev x)" by (simp add: rw_good_def cached_idle_def cached_good_def)
    then obtain r d where "fl (rc_dev x) = Some (r, 0, d)" "good d" "content d = content (rc_dev x)" using fl by blast
    then show ?thesis using rw_good_dev [OF g] CachedBy s by simp
  qed
qed

text \<open>The item size the cache of a configuration gets has to divide the size of the device.\<close>

definition cache_fits :: "cache_cfg option \<Rightarrow> nat \<Rightarrow> bool" where
  "cache_fits cfg n \<longleftrightarrow> (case cfg of None \<Rightarrow> True | Some c \<Rightarrow> len_sectors c = 0 \<or>
     (case make_cache (len_sectors c * 512 mod u64_limit) of None \<Rightarrow> False | Some ca \<Rightarrow> cache_item_sz ca dvd n))"

lemma make_cache_loop_empty:
  "make_cache_loop n item = Some ca \<Longrightarrow> lcache ca = [] \<and> lru_wf ca"
proof (induction n item rule: make_cache_loop.induct)
  case (1 n item)
  show ?case
  proof (cases "\<not> item < 512 \<and> n div item = 0")
    case True
    then have "make_cache_loop n (item div 2) = Some ca" using "1.prems" by (subst (asm) make_cache_loop.simps) simp
    then show ?thesis using "1.IH" True by simp
  next
    case False
    then have "lru_create (strips_round_up n item) item = Some ca"
      using "1.prems" by (subst (asm) make_cache_loop.simps) (auto split: if_splits)
    then show ?thesis by (auto simp: lru_create_def lru_wf_def items_ok_def refs_distinct_def split: if_splits)
  qed
qed

lemma make_cache_empty: "make_cache n = Some ca \<Longrightarrow> lcache ca = [] \<and> lru_wf ca"
  by (simp add: make_cache_def make_cache_loop_empty split: if_splits)

lemma make_cache_loop_sectors:
  "make_cache_loop n (2 ^ j) = Some ca \<Longrightarrow> 512 dvd cache_item_sz ca"
proof (induction j)
  case (Suc j)
  show ?case
  proof (cases "(2 :: nat) ^ Suc j < 512 \<or> n div 2 ^ Suc j \<noteq> 0")
    case True
    then have c: "\<not> (2 :: nat) ^ Suc j < 512" "lru_create (strips_round_up n (2 ^ Suc j)) (2 ^ Suc j) = Some ca"
      using Suc.prems unfolding make_cache_loop.simps [of n "2 ^ Suc j"] by (auto split: if_splits)
    then have "(2 :: nat) ^ 9 \<le> 2 ^ Suc j" by simp
    then have "9 \<le> Suc j" by (rule power_le_imp_le_exp [rotated]) simp
    then have "(2 :: nat) ^ 9 dvd 2 ^ Suc j" by (rule le_imp_power_dvd)
    moreover have "cache_item_sz ca = 2 ^ Suc j" using c(2) by (auto simp: lru_create_def split: if_splits)
    ultimately show ?thesis by simp
  next
    case False
    then have "make_cache_loop n (2 ^ j) = Some ca" using Suc.prems by (subst (asm) make_cache_loop.simps) auto
    then show ?thesis by (rule Suc.IH)
  qed
qed (subst (asm) make_cache_loop.simps, simp)

lemma make_cache_sectors: "make_cache n = Some ca \<Longrightarrow> 512 dvd cache_item_sz ca"
  using make_cache_loop_sectors [of n 20 ca] by (simp add: make_cache_def split: if_splits)

lemma with_cache_good:
  assumes "pool_ok pool" "good s" "cache_fits cfg (length (content s))"
  shows "\<exists>m. with_cache cfg s = Some m \<and> mc_good good content pool m \<and> mc_content content m = content s"
proof (cases "cfg = None \<or> len_sectors (the cfg) = 0")
  case True
  then show ?thesis using assms(2) by (cases cfg) (auto simp: with_cache_def)
next
  case False
  then obtain c where c: "cfg = Some c" "len_sectors c \<noteq> 0" by auto
  then obtain ca where ca: "make_cache (len_sectors c * 512 mod u64_limit) = Some ca" "cache_item_sz ca dvd length (content s)"
    using assms(3) by (auto simp: cache_fits_def split: option.splits)
  have sec: "512 dvd cache_item_sz ca" by (rule make_cache_sectors [OF ca(1)])
  have e: "lcache ca = []" and wf: "lru_wf ca" using make_cache_empty [OF ca(1)] by simp_all
  have pos: "0 < cache_item_sz ca" using wf by (simp add: lru_wf_def)
  have "lru_store.coherent ca g" for g
    using wf e by (simp add: lru_store.coherent_def lru_map_def)
  then have "rw_good good content (pool (cache_item_sz ca))
      (set_write_through (write_through_enable c) \<lparr>rc_cache = ca, rc_dev = s, rc_seq_i = 0, rc_seq_t = 0, rc_lock = [],
        write_through = False\<rparr>)"
    using assms(1,2) ca(2) pos by (simp add: rw_good_def cached_idle_def cached_good_def set_write_through_def pool_ok_def held_def)
  then show ?thesis using c ca(1) sec by (simp add: with_cache_def rw_create_def set_write_through_def)
qed

context flush_dev
begin

lemma make_ops_good:
  assumes "pool_ok pool" "al dvd 512" "good s" "cache_fits cfg (length (content s))"
  shows "\<exists>h. make_ops ops flush pool cfg s = Some h \<and> hops_good al (mc_content content) h
    \<and> hops_content (mc_content content) h = content s"
proof -
  obtain m where m: "with_cache cfg s = Some m" "mc_good good content pool m" "mc_content content m = content s"
    using with_cache_good [OF assms(1), of good s cfg content] assms(3,4) by auto
  have "flush_dev al \<lparr>submit_rd = mc_read ops pool, submit_wr = mc_write ops pool\<rparr> (mc_good good content pool)
      (mc_content content) (mc_flush flush)"
    using mc_aligned_dev [OF assms(1,2)] mc_flush_keeps [OF flush_law]
    by (simp add: mc_ops_def flush_dev_def flush_dev_axioms_def)
  then show ?thesis using m
    by (auto simp: make_ops_def hops_good_def hops_content_def rdq_submit_def wrq_submit_def mc_ops_def)
qed

end

text \<open>A target over a backend that is a working device, constructed with a cache or without.\<close>

context aligned_dev
begin

lemma target_device:
  assumes "pool_ok pool" "al dvd 512" "good b" "cache_fits cfg (length (content b))"
    and "flush_keeps fl (target_good good) (\<lambda>t. content (backend t))"
  shows "\<exists>h. make_ops (target_ops (submit_rd ops) (submit_wr ops)) fl pool cfg \<lparr>fsm = Online, backend = b\<rparr> = Some h \<and>
    hops_good al (mc_content (\<lambda>t. content (backend t))) h \<and> hops_content (mc_content (\<lambda>t. content (backend t))) h = content b"
proof -
  have "flush_dev al (target_ops (submit_rd ops) (submit_wr ops)) (target_good good) (\<lambda>t. content (backend t)) fl"
    using target_aligned_dev assms(5) by (simp add: flush_dev_def flush_dev_axioms_def)
  from flush_dev.make_ops_good [OF this assms(1,2), of "\<lparr>fsm = Online, backend = b\<rparr>" cfg] assms(3,4)
  show ?thesis by (simp add: target_good_def)
qed

end

lemma default_device:
  assumes "file_laws fo good bytes" "pool_ok pool" "good f" "cache_fits cfg (length (bytes f))"
  shows "\<exists>h. make_default_ops fo pool cfg f = Some (Inr h) \<and> hops_good 1 (mc_content bytes) h
    \<and> hops_content (mc_content bytes) h = bytes f"
proof -
  have "flush_keeps (def_flq_submit fo) good bytes"
    using file_sync_law [OF assms(1)] by (fastforce simp: flush_keeps_def def_flq_submit_def def_flush_def)
  then have "flush_dev 1 (def_ops fo) good bytes (def_flq_submit fo)"
    using def_block_dev [OF assms(1)] by (simp add: flush_dev_def flush_dev_axioms_def block_dev_aligned)
  from flush_dev.make_ops_good [OF this assms(2) one_dvd assms(3,4)] show ?thesis
    by (auto simp: make_default_ops_def def_ops_def)
qed

text \<open>A striped or mirrored target over children that are working devices; its flush visits every child.\<close>

lemma target_flush_keeps:
  assumes "\<And>t. fsm t = Online \<Longrightarrow> good (backend t) \<Longrightarrow>
    \<exists>r b. fl t = Some (r, 0, t\<lparr>backend := b\<rparr>) \<and> good b \<and> content b = content (backend t)"
  shows "flush_keeps fl (target_good good) (\<lambda>t. content (backend t))"
  using assms by (fastforce simp: flush_keeps_def target_good_def)

lemma map_same: "content h = content (hs ! i) \<Longrightarrow> map content (hs[i := h]) = map content hs"
  by (cases "i < length hs") (simp_all add: map_update list_update_same_conv list_update_beyond)

lemma raid0_flush_keeps:
  assumes "i < n"
  shows "flush_keeps (raid0_child_flush i)
    (target_good (\<lambda>be. raid0_good (hops_good al content) (hops_content content) m n be \<and> al dvd r0_strip_sz be))
    (\<lambda>t. raid0_content (hops_content content) m (backend t))"
proof (rule target_flush_keeps)
  fix t :: "'a handlers_ops raid0 target"
  let ?be = "backend t" and ?G = "hops_good al content" and ?C = "hops_content content"
  assume t: "fsm t = Online" "raid0_good ?G ?C m n ?be \<and> al dvd r0_strip_sz ?be"
  then have h: "?G (r0_hs ?be ! i)" "length (?C (r0_hs ?be ! i)) = m * r0_strip_sz ?be"
    and ok: "disks_ok ?G ?C m (r0_strip_sz ?be) (r0_hs ?be)"
    using assms by (auto simp: raid0_good_def disks_ok_def)
  obtain r h' where h': "ho_flush (r0_hs ?be ! i) = Some (r, 0, h')" "?G h'" "?C h' = ?C (r0_hs ?be ! i)"
    using hops_flush_keeps h(1) unfolding flush_keeps_def by blast
  let ?b = "?be\<lparr>r0_hs := (r0_hs ?be)[i := h']\<rparr>"
  have "disks_ok ?G ?C m (r0_strip_sz ?be) ((r0_hs ?be)[i := h'])"
    using aligned_dev.disks_ok_update [OF hops_aligned_dev ok h'(2)] h'(3) h(2) by simp
  then have "raid0_good ?G ?C m n ?b \<and> al dvd r0_strip_sz ?b" "raid0_content ?C m ?b = raid0_content ?C m ?be"
    using t(2) map_same [of ?C h' "r0_hs ?be" i] h'(3) by (auto simp: raid0_good_def raid0_content_def raid0_volume_def)
  then show "\<exists>r b. raid0_child_flush i t = Some (r, 0, t\<lparr>backend := b\<rparr>) \<and> (raid0_good ?G ?C m n b \<and> al dvd r0_strip_sz b) \<and>
      raid0_content ?C m b = raid0_content ?C m ?be"
    using h'(1) by (intro exI [of _ r] exI [of _ ?b]) (simp add: raid0_child_flush_def)
qed

lemma raid0_device:
  assumes "pool_ok pool" "disks_ok (hops_good al content) (hops_content content) m (2 ^ k) hs"
    and "cache_fits cfg (m * length hs * 2 ^ k)" "al dvd 512" "al dvd 2 ^ k"
  shows "\<exists>h content'. make_raid0_ops pool (2 ^ k) cfg hs = Some (Inr h) \<and> hops_good al content' h \<and>
    hops_content content' h = raid0_volume (hops_content content) m (2 ^ k) hs"
proof -
  let ?be = "\<lparr>r0_strip_sz = 2 ^ k, r0_strip_shift = k, r0_hs = hs\<rparr>"
  have "hs \<noteq> []" using assms(2) by (simp add: disks_ok_def)
  moreover have "\<exists>n\<le>2 ^ k. (2 :: nat) ^ k = 2 ^ n" by (intro exI [of _ k]) (simp add: less_imp_le less_exp)
  ultimately have c: "raid0_create (2 ^ k) (map Some hs) = Some ?be"
    by (simp add: raid0_create_def o_def)
  have g: "raid0_good (hops_good al content) (hops_content content) m (length hs) ?be \<and> al dvd r0_strip_sz ?be"
    using assms(2,5) by (simp add: raid0_good_def)
  have v: "raid0_content (hops_content content) m ?be = raid0_volume (hops_content content) m (2 ^ k) hs"
    by (simp add: raid0_content_def)
  have fits: "cache_fits cfg (length (raid0_content (hops_content content) m ?be))"
    using assms(3) by (simp add: v raid0_volume_def)
  have sub: "\<lparr>submit_rd = raid0_rdq_submit, submit_wr = raid0_wrq_submit\<rparr> =
      target_ops (submit_rd (raid0_ops rwhandler)) (submit_wr (raid0_ops rwhandler))"
    by (simp add: raid0_rdq_submit_def raid0_wrq_submit_def raid0_target_read_def raid0_target_write_def raid0_ops_def target_ops_def)
  have fl: "flush_keeps (flq_composite (map raid0_child_flush [0..<length hs]))
      (target_good (\<lambda>be. raid0_good (hops_good al content) (hops_content content) m (length hs) be \<and> al dvd r0_strip_sz be))
      (\<lambda>t. raid0_content (hops_content content) m (backend t))"
    using raid0_flush_keeps by (intro flq_composite_keeps) auto
  obtain h C where "make_ops (target_ops (submit_rd (raid0_ops rwhandler)) (submit_wr (raid0_ops rwhandler)))
      (flq_composite (map raid0_child_flush [0..<length hs])) pool cfg \<lparr>fsm = Online, backend = ?be\<rparr> = Some h"
    "hops_good al C h" "hops_content C h = raid0_volume (hops_content content) m (2 ^ k) hs"
    using aligned_dev.target_device [OF aligned_dev.raid0_aligned_dev [OF hops_aligned_dev] assms(1,4) g fits fl] unfolding v by blast
  then show ?thesis unfolding make_raid0_ops_def c sub by (intro exI [of _ h] exI [of _ C]) simp
qed

lemma raid1_strip_sz_bounds:
  assumes "n < u64_limit"
  shows "case raid1_strip_sz n of None \<Rightarrow> max_sectors < n
    | Some s \<Rightarrow> n \<le> max_sectors \<and> 512 dvd s \<and> 0 < s \<and> s < u64_limit \<and> s = (if n = 0 then max_sectors else n) * 512"
proof -
  have m: "max_sectors = 2 ^ 55 - 1" by (simp add: max_sectors_def)
  show ?thesis using assms by (auto simp: raid1_strip_sz_def m Let_def)
qed

text \<open>Mirrors keep the number of their disks, so the flushes of all of them are in range.\<close>

context block_dev
begin

lemma raid1_sized_dev:
  "block_dev (raid1_ops ops) (\<lambda>be. raid1_good good content be \<and> length (r1_hs be) = n) (raid1_content content)"
proof
  fix be :: "'c raid1" and buf :: "byte list" and off
  assume be: "raid1_good good content be \<and> length (r1_hs be) = n" "buf \<noteq> []" "off + length buf \<le> length (raid1_content content be)"
  then show "\<exists>be'. submit_rd (raid1_ops ops) off buf be = Some (0, 0, subspan (raid1_content content be) off (length buf), be') \<and>
      (raid1_good good content be' \<and> length (r1_hs be') = n) \<and> raid1_content content be' = raid1_content content be"
    using block_dev.read_law [OF raid1_block_dev, of be buf off] raid1_length(1) by (fastforce simp: raid1_ops_def)
  show "\<exists>be'. submit_wr (raid1_ops ops) off buf be = Some (0, 0, be') \<and>
      (raid1_good good content be' \<and> length (r1_hs be') = n) \<and> raid1_content content be' = copy_at (raid1_content content be) off buf"
    using be block_dev.write_law [OF raid1_block_dev, of be buf off] raid1_length(2) by (fastforce simp: raid1_ops_def)
qed

end

lemma raid1_flush_keeps:
  assumes "i < n"
  shows "flush_keeps (raid1_child_flush i)
    (target_good (\<lambda>be. raid1_good (hops_good al content) (hops_content content) be \<and> length (r1_hs be) = n))
    (\<lambda>t. raid1_content (hops_content content) (backend t))"
proof (rule target_flush_keeps)
  fix t :: "'a handlers_ops raid1 target"
  let ?be = "backend t" and ?G = "hops_good al content" and ?C = "hops_content content"
  let ?V = "raid1_content ?C ?be"
  assume t: "fsm t = Online" "raid1_good ?G ?C ?be \<and> length (r1_hs ?be) = n"
  then have ok: "mirrors ?G ?C ?V (r1_hs ?be)" "0 < r1_read_strip_sz ?be" "r1_next_hid ?be < n"
    by (auto simp: raid1_good_def raid1_content_def)
  then have h: "?G (r1_hs ?be ! i)" "?C (r1_hs ?be ! i) = ?V" using assms t(2) by (auto simp: mirrors_def)
  obtain r h' where h': "ho_flush (r1_hs ?be ! i) = Some (r, 0, h')" "?G h'" "?C h' = ?V"
    using hops_flush_keeps h unfolding flush_keeps_def by metis
  let ?b = "?be\<lparr>r1_hs := (r1_hs ?be)[i := h']\<rparr>"
  have "raid1_good ?G ?C ?b \<and> raid1_content ?C ?b = ?V"
    using mirrors_good [of ?b ?G ?C ?V] mirrors_update [OF ok(1) h'(2,3), of i] ok(2,3) t(2) by simp
  then show "\<exists>r b. raid1_child_flush i t = Some (r, 0, t\<lparr>backend := b\<rparr>) \<and> (raid1_good ?G ?C b \<and> length (r1_hs b) = n) \<and>
      raid1_content ?C b = ?V"
    using h'(1) t(2) by (intro exI [of _ r] exI [of _ ?b]) (simp add: raid1_child_flush_def)
qed

lemma raid1_device:
  assumes "pool_ok pool" "mirrors (hops_good 1 content) (hops_content content) V hs" "2 \<le> length hs"
    and "rs \<le> max_sectors" "cache_fits cfg (length V)"
  shows "\<exists>h. make_raid1_ops pool rs cfg hs = Some (Inr h) \<and>
    hops_good 1 (mc_content (\<lambda>t. raid1_content (hops_content content) (backend t))) h \<and>
    hops_content (mc_content (\<lambda>t. raid1_content (hops_content content) (backend t))) h = V"
proof -
  have "rs < u64_limit" using assms(4) by (simp add: max_sectors_def)
  then obtain s where s: "raid1_strip_sz rs = Some s" "512 dvd s" "0 < s"
    using raid1_strip_sz_bounds [of rs] assms(4) by (auto split: option.splits)
  let ?be = "\<lparr>r1_read_strip_sz = s, r1_next_hid = 0, r1_hs = hs\<rparr>"
  have ne: "hs \<noteq> []" using assms(3) by auto
  have c: "raid1_create s (map Some hs) = Some ?be"
    using assms(3) s by (simp add: raid1_create_def o_def dvd_imp_mod_0)
  have g: "raid1_good (hops_good 1 content) (hops_content content) ?be \<and> length (r1_hs ?be) = length hs"
    and v: "raid1_content (hops_content content) ?be = V"
    using mirrors_good [of ?be "hops_good 1 content" "hops_content content" V] ne assms(2) s(3) by simp_all
  have sub: "\<lparr>submit_rd = raid1_rdq_submit, submit_wr = raid1_wrq_submit\<rparr> =
      target_ops (submit_rd (raid1_ops rwhandler)) (submit_wr (raid1_ops rwhandler))"
    by (simp add: raid1_rdq_submit_def raid1_wrq_submit_def raid1_target_read_def raid1_target_write_def raid1_ops_def target_ops_def)
  have fl: "flush_keeps (flq_composite (map raid1_child_flush [0..<length hs]))
      (target_good (\<lambda>be. raid1_good (hops_good 1 content) (hops_content content) be \<and> length (r1_hs be) = length hs))
      (\<lambda>t. raid1_content (hops_content content) (backend t))"
    using raid1_flush_keeps by (intro flq_composite_keeps) auto
  have "cache_fits cfg (length (raid1_content (hops_content content) ?be))" using assms(5) by (simp only: v)
  from aligned_dev.target_device [OF block_dev.raid1_sized_dev [OF hops_block_dev, unfolded block_dev_aligned] assms(1) one_dvd g this fl]
  show ?thesis using s(1) c unfolding v sub by (auto simp: make_raid1_ops_def sub)
qed

subsection \<open>Configurations\<close>

text \<open>\<open>open_dev\<close> is \<open>backend_device_open\<close>: a path gives an open file or the exception.\<close>

record raid0_cfg =
  r0c_strip_len_sectors :: nat
  r0c_paths :: "string list"

record raid1_cfg =
  r1c_read_strip_len_sectors :: nat
  r1c_paths :: "string list"

record raid4_cfg =
  r4c_strip_len_sectors :: nat
  r4c_data_paths :: "string list"
  r4c_parity_path :: string

record raid5_cfg =
  r5c_strip_len_sectors :: nat
  r5c_paths :: "string list"

definition sectors_bytes :: "nat \<Rightarrow> nat" where
  "sectors_bytes n = n * 512 mod u64_limit"

definition open_all :: "(string \<Rightarrow> create_exn + 'f) \<Rightarrow> string list \<Rightarrow> 'f list created" where
  "open_all open_dev = ctransform (\<lambda>p. Some (open_dev p))"

definition raid0_from_cfg :: "'f file_ops \<Rightarrow> (nat \<Rightarrow> nat \<Rightarrow> byte list) \<Rightarrow> (string \<Rightarrow> create_exn + 'f) \<Rightarrow> cache_cfg option
    \<Rightarrow> raid0_cfg \<Rightarrow> 'f maybe_cached handlers_ops raid0 target maybe_cached handlers_ops created" where
  "raid0_from_cfg fo pool open_dev cfg r =
     cbind (open_all open_dev (r0c_paths r)) (make_raid0_fds fo pool (sectors_bytes (r0c_strip_len_sectors r)) cfg)"

definition raid1_from_cfg :: "'f file_ops \<Rightarrow> (nat \<Rightarrow> nat \<Rightarrow> byte list) \<Rightarrow> (string \<Rightarrow> create_exn + 'f) \<Rightarrow> cache_cfg option
    \<Rightarrow> raid1_cfg \<Rightarrow> 'f maybe_cached handlers_ops raid1 target maybe_cached handlers_ops created" where
  "raid1_from_cfg fo pool open_dev cfg r =
     cbind (open_all open_dev (r1c_paths r)) (make_raid1_fds fo pool (r1c_read_strip_len_sectors r) cfg)"

definition raid4_from_cfg :: "'f file_ops \<Rightarrow> (nat \<Rightarrow> nat \<Rightarrow> byte list) \<Rightarrow> (string \<Rightarrow> create_exn + 'f) \<Rightarrow> cache_cfg option
    \<Rightarrow> raid4_cfg \<Rightarrow> 'f maybe_cached handlers_ops acceptor target maybe_cached handlers_ops created" where
  "raid4_from_cfg fo pool open_dev cfg r =
     cbind (open_all open_dev (r4c_data_paths r)) (\<lambda>fds. cbind (Some (open_dev (r4c_parity_path r))) (\<lambda>fd.
       make_raid4_ops fo pool (sectors_bytes (r4c_strip_len_sectors r)) cfg (fds @ [fd])))"

definition raid5_from_cfg :: "'f file_ops \<Rightarrow> (nat \<Rightarrow> nat \<Rightarrow> byte list) \<Rightarrow> (string \<Rightarrow> create_exn + 'f) \<Rightarrow> cache_cfg option
    \<Rightarrow> raid5_cfg \<Rightarrow> 'f maybe_cached handlers_ops acceptor target maybe_cached handlers_ops created" where
  "raid5_from_cfg fo pool open_dev cfg r =
     cbind (open_all open_dev (r5c_paths r)) (make_raid5_ops fo pool (sectors_bytes (r5c_strip_len_sectors r)) cfg)"

text \<open>Arrays of arrays: a stripe over mirrors or over parity arrays, which have no cache of their own.\<close>

definition raid10_from_cfg where
  "raid10_from_cfg fo pool open_dev cfg strip_len_sectors raid1s =
     cbind (ctransform (raid1_from_cfg fo pool open_dev None) raid1s) (make_raid0_ops pool (sectors_bytes strip_len_sectors) cfg)"

definition raid40_from_cfg where
  "raid40_from_cfg fo pool open_dev cfg strip_len_sectors raid4s =
     cbind (ctransform (raid4_from_cfg fo pool open_dev None) raid4s) (make_raid0_ops pool (sectors_bytes strip_len_sectors) cfg)"

definition raid50_from_cfg where
  "raid50_from_cfg fo pool open_dev cfg strip_len_sectors raid5s =
     cbind (ctransform (raid5_from_cfg fo pool open_dev None) raid5s) (make_raid0_ops pool (sectors_bytes strip_len_sectors) cfg)"

subsection \<open>Serving requests\<close>

text \<open>A sequence of requests to a device, against a flat array of bytes.\<close>

fun serve_on :: "'s rw_handler \<Rightarrow> 's \<Rightarrow> request list \<Rightarrow> (int \<times> int \<times> byte list) list option" where
  "serve_on ops s [] = Some []"
| "serve_on ops s (Rd off buf # qs) = do {
     (res, e, buf', s') \<leftarrow> submit_rd ops off buf s;
     rs \<leftarrow> serve_on ops s' qs;
     Some ((res, e, buf') # rs) }"
| "serve_on ops s (Wr off buf # qs) = do {
     (res, e, s') \<leftarrow> submit_wr ops off buf s;
     rs \<leftarrow> serve_on ops s' qs;
     Some ((res, e, []) # rs) }"

abbreviation serve :: "'s handlers_ops \<Rightarrow> request list \<Rightarrow> (int \<times> int \<times> byte list) list option" where
  "serve \<equiv> serve_on rwhandler"

fun flat_serve :: "byte list \<Rightarrow> request list \<Rightarrow> (int \<times> int \<times> byte list) list" where
  "flat_serve V [] = []"
| "flat_serve V (Rd off buf # qs) = (0, 0, subspan V off (length buf)) # flat_serve V qs"
| "flat_serve V (Wr off buf # qs) = (0, 0, []) # flat_serve (copy_at V off buf) qs"

fun fits :: "nat \<Rightarrow> nat \<Rightarrow> request \<Rightarrow> bool" where
  "fits al n (Rd off buf) \<longleftrightarrow> buf \<noteq> [] \<and> off + length buf \<le> n \<and> al dvd off \<and> al dvd length buf"
| "fits al n (Wr off buf) \<longleftrightarrow> buf \<noteq> [] \<and> off + length buf \<le> n \<and> al dvd off \<and> al dvd length buf"

context aligned_dev
begin

lemma aligned_serve:
  "good c \<Longrightarrow> \<forall>q \<in> set qs. fits al (length (content c)) q \<Longrightarrow> serve_on ops c qs = Some (flat_serve (content c) qs)"
proof (induction qs arbitrary: c)
  case (Cons q qs)
  show ?case
  proof (cases q)
    case (Rd off buf)
    with Cons.prems obtain c' where "submit_rd ops off buf c = Some (0, 0, subspan (content c) off (length buf), c')"
      "good c'" "content c' = content c"
      using aligned_read_law [of c buf off] by auto
    with Cons Rd show ?thesis by simp
  next
    case (Wr off buf)
    with Cons.prems obtain c' where "submit_wr ops off buf c = Some (0, 0, c')" "good c'" "content c' = copy_at (content c) off buf"
      using aligned_write_law [of c buf off] by auto
    with Cons Wr show ?thesis by simp
  qed
qed simp

end

lemma hops_serve:
  "hops_good al content h \<Longrightarrow> \<forall>q \<in> set qs. fits al (length (hops_content content h)) q \<Longrightarrow>
    serve h qs = Some (flat_serve (hops_content content h) qs)"
  by (rule aligned_dev.aligned_serve [OF hops_aligned_dev])

text \<open>The interleaving of equal-sized volumes in strips of \<open>S\<close> bytes.\<close>

definition striped :: "nat \<Rightarrow> nat \<Rightarrow> byte list list \<Rightarrow> byte list" where
  "striped m S Vs = raid0_volume (\<lambda>V. V) m S Vs"

lemma raid0_volume_striped: "raid0_volume content m S hs = striped m S (map content hs)"
  by (simp add: raid0_volume_def striped_def)

lemma ctransform_related:
  assumes "\<forall>x \<in> set xs. \<exists>y. f x = Some (Inr y) \<and> P y \<and> c y = v x"
  shows "\<exists>ys. ctransform f xs = Some (Inr ys) \<and> (\<forall>y \<in> set ys. P y) \<and> map c ys = map v xs"
  using assms
proof (induction xs)
  case (Cons x xs)
  then obtain y ys where "f x = Some (Inr y)" "P y" "c y = v x"
    "ctransform f xs = Some (Inr ys)" "\<forall>y \<in> set ys. P y" "map c ys = map v xs" by auto
  then show ?case by (intro exI [of _ "y # ys"]) simp
qed simp

text \<open>Every path of a list opens to a working file with the content \<open>V\<close> gives.\<close>

definition opens :: "(string \<Rightarrow> create_exn + 'f) \<Rightarrow> ('f \<Rightarrow> bool) \<Rightarrow> ('f \<Rightarrow> byte list) \<Rightarrow> (string \<Rightarrow> byte list) \<Rightarrow> string list \<Rightarrow> bool" where
  "opens open_dev good bytes V paths \<longleftrightarrow> (\<forall>p \<in> set paths. \<exists>f. open_dev p = Inr f \<and> good f \<and> bytes f = V p)"

lemma open_all_ok:
  assumes "opens open_dev good bytes V paths"
  shows "\<exists>fds. open_all open_dev paths = Some (Inr fds) \<and> (\<forall>f \<in> set fds. good f) \<and> map bytes fds = map V paths"
  unfolding open_all_def using assms by (intro ctransform_related) (auto simp: opens_def)

lemma defaults_ok:
  assumes "file_laws fo good bytes" "pool_ok pool" "\<forall>f \<in> set fds. good f"
  shows "\<exists>hs. ctransform (make_default_ops fo pool None) fds = Some (Inr hs)
    \<and> (\<forall>h \<in> set hs. hops_good 1 (mc_content bytes) h)
    \<and> map (hops_content (mc_content bytes)) hs = map bytes fds"
proof (rule ctransform_related, intro ballI)
  fix f assume "f \<in> set fds"
  then show "\<exists>h. make_default_ops fo pool None f = Some (Inr h) \<and> hops_good 1 (mc_content bytes) h
      \<and> hops_content (mc_content bytes) h = bytes f"
    using default_device [OF assms(1,2), of f None] assms(3) by (simp add: cache_fits_def)
qed

abbreviation mirror_content :: "('f \<Rightarrow> byte list) \<Rightarrow> 'f maybe_cached handlers_ops raid1 target maybe_cached \<Rightarrow> byte list" where
  "mirror_content bytes \<equiv> mc_content (\<lambda>t. raid1_content (hops_content (mc_content bytes)) (backend t))"

lemma raid1_cfg_device:
  assumes "file_laws fo good bytes" "pool_ok pool" "opens open_dev good bytes (\<lambda>_. V) (r1c_paths r)"
    and "2 \<le> length (r1c_paths r)" "r1c_read_strip_len_sectors r \<le> max_sectors" "cache_fits cfg (length V)"
  shows "\<exists>h. raid1_from_cfg fo pool open_dev cfg r = Some (Inr h) \<and> hops_good 1 (mirror_content bytes) h \<and>
    hops_content (mirror_content bytes) h = V"
proof -
  obtain fds where fds: "open_all open_dev (r1c_paths r) = Some (Inr fds)" "\<forall>f \<in> set fds. good f"
    "map bytes fds = map (\<lambda>_. V) (r1c_paths r)"
    using open_all_ok [OF assms(3)] by blast
  obtain hs where hs: "ctransform (make_default_ops fo pool None) fds = Some (Inr hs)"
    "\<forall>h \<in> set hs. hops_good 1 (mc_content bytes) h"
    "map (hops_content (mc_content bytes)) hs = map (\<lambda>_. V) (r1c_paths r)"
    using defaults_ok [OF assms(1,2) fds(2)] fds(3) by metis
  have "hops_content (mc_content bytes) h = V" if "h \<in> set hs" for h
    using hs(3) that by (metis (mono_tags, lifting) image_eqI image_iff list.set_map)
  then have "mirrors (hops_good 1 (mc_content bytes)) (hops_content (mc_content bytes)) V hs"
    using hs(2) by (simp add: mirrors_def)
  moreover have "2 \<le> length hs" using arg_cong [OF hs(3), of length] assms(4) by simp
  ultimately show ?thesis
    using raid1_device [OF assms(2) _ _ assms(5,6)] fds(1) hs(1)
    by (simp add: raid1_from_cfg_def make_raid1_fds_def)
qed

lemma raid10_device:
  assumes "file_laws fo good bytes" "pool_ok pool" "raid1s \<noteq> []"
    and "\<forall>r \<in> set raid1s. opens open_dev good bytes (\<lambda>_. V r) (r1c_paths r) \<and> 2 \<le> length (r1c_paths r) \<and>
      r1c_read_strip_len_sectors r \<le> max_sectors \<and> length (V r) = m * 2 ^ k"
    and "sectors_bytes n = 2 ^ k" "cache_fits cfg (m * length raid1s * 2 ^ k)"
  shows "\<exists>h content'. raid10_from_cfg fo pool open_dev cfg n raid1s = Some (Inr h) \<and> hops_good 1 content' h \<and>
    hops_content content' h = striped m (2 ^ k) (map V raid1s) \<and> length (striped m (2 ^ k) (map V raid1s)) = m * length raid1s * 2 ^ k"
proof -
  let ?C = "mirror_content bytes"
  have "\<forall>r \<in> set raid1s. \<exists>h. raid1_from_cfg fo pool open_dev None r = Some (Inr h) \<and> hops_good 1 ?C h \<and> hops_content ?C h = V r"
    using raid1_cfg_device [OF assms(1,2), where cfg = None] assms(4) by (simp add: cache_fits_def)
  from ctransform_related [OF this] obtain hs where hs:
    "ctransform (raid1_from_cfg fo pool open_dev None) raid1s = Some (Inr hs)" "\<forall>h \<in> set hs. hops_good 1 ?C h"
    "map (hops_content ?C) hs = map V raid1s" by blast
  have len: "length hs = length raid1s" using arg_cong [OF hs(3), of length] by simp
  have "length (hops_content ?C h) = m * 2 ^ k" if "h \<in> set hs" for h
  proof -
    have "hops_content ?C h \<in> V ` set raid1s" using that hs(3) by (metis image_eqI list.set_map)
    then show ?thesis using assms(4) by auto
  qed
  then have "disks_ok (hops_good 1 ?C) (hops_content ?C) m (2 ^ k) hs"
    using hs(2) len assms(3) by (auto simp: disks_ok_def)
  then obtain h content' where h: "make_raid0_ops pool (2 ^ k) cfg hs = Some (Inr h)" "hops_good 1 content' h"
    "hops_content content' h = raid0_volume (hops_content ?C) m (2 ^ k) hs"
    using raid0_device [OF assms(2), of 1 ?C m k hs cfg] assms(6) len by auto
  have "hops_content content' h = striped m (2 ^ k) (map V raid1s)"
    using h(3) hs(3) by (simp add: raid0_volume_striped)
  moreover have "length (striped m (2 ^ k) (map V raid1s)) = m * length raid1s * 2 ^ k"
    by (simp add: striped_def raid0_volume_def)
  ultimately show ?thesis using h(1,2) hs(1) assms(5) by (auto simp: raid10_from_cfg_def)
qed

text \<open>
  A RAID10 device made from a configuration is one flat array of bytes: whenever the files of each
  mirror open with equal contents of a whole number of strips, \<open>Master::create\<close> builds the stripe over the mirrors, with
  or without a cache, and every sequence of reads and writes inside the device is served without an error exactly as by the
  interleaving of the mirrors' contents.
\<close>

theorem raid10_serves:
  assumes "file_laws fo good bytes" "pool_ok pool" "raid1s \<noteq> []"
    and "\<forall>r \<in> set raid1s. opens open_dev good bytes (\<lambda>_. V r) (r1c_paths r) \<and> 2 \<le> length (r1c_paths r) \<and>
      r1c_read_strip_len_sectors r \<le> max_sectors \<and> length (V r) = m * 2 ^ k"
    and "sectors_bytes n = 2 ^ k" "cache_fits cfg (m * length raid1s * 2 ^ k)"
  shows "\<exists>h. raid10_from_cfg fo pool open_dev cfg n raid1s = Some (Inr h) \<and>
    (\<forall>qs. (\<forall>q \<in> set qs. fits 1 (m * length raid1s * 2 ^ k) q) \<longrightarrow>
      serve h qs = Some (flat_serve (striped m (2 ^ k) (map V raid1s)) qs))"
proof -
  obtain h content' where h: "raid10_from_cfg fo pool open_dev cfg n raid1s = Some (Inr h)" "hops_good 1 content' h"
    "hops_content content' h = striped m (2 ^ k) (map V raid1s)" "length (striped m (2 ^ k) (map V raid1s)) = m * length raid1s * 2 ^ k"
    using raid10_device [OF assms] by blast
  then show ?thesis using hops_serve [OF h(2)] by simp
qed

definition demo_mirrors :: "raid1_cfg list" where
  "demo_mirrors = [\<lparr>r1c_read_strip_len_sectors = 0, r1c_paths = [''a'', ''b'']\<rparr>,
     \<lparr>r1c_read_strip_len_sectors = 8, r1c_paths = [''c'', ''d'']\<rparr>]"

definition demo_open :: "string \<Rightarrow> create_exn + byte list" where
  "demo_open p = Inr (replicate 512 (if p \<in> {''a'', ''b''} then 1 else 2))"

definition demo_pool :: "nat \<Rightarrow> nat \<Rightarrow> byte list" where
  "demo_pool sz k = replicate sz 0"

lemma demo_pool_ok: "pool_ok demo_pool"
  by (simp add: pool_ok_def demo_pool_def)

lemma raid10_serves_witness:
  "\<exists>h. raid10_from_cfg list_file demo_pool demo_open None 1 demo_mirrors = Some (Inr h) \<and>
    serve h [Wr 511 [7, 8], Rd 511 [0, 0]] = Some [(0, 0, []), (0, 0, [7, 8])]"
proof -
  let ?V = "\<lambda>r. replicate 512 (if ''a'' \<in> set (r1c_paths r) then 1 else 2) :: byte list"
  have "\<forall>r \<in> set demo_mirrors. opens demo_open (\<lambda>_. True) (\<lambda>f. f) (\<lambda>_. ?V r) (r1c_paths r) \<and> 2 \<le> length (r1c_paths r) \<and>
      r1c_read_strip_len_sectors r \<le> max_sectors \<and> length (?V r) = 1 * 2 ^ 9"
    by (simp add: demo_mirrors_def opens_def demo_open_def max_sectors_def)
  from raid10_serves [OF list_file_laws demo_pool_ok _ this, of 1 None]
  obtain h where h: "raid10_from_cfg list_file demo_pool demo_open None 1 demo_mirrors = Some (Inr h)"
    and s: "(\<forall>q \<in> set qs. fits 1 1024 q) \<Longrightarrow> serve h qs = Some (flat_serve (striped 1 512 (map ?V demo_mirrors)) qs)" for qs
    by (auto simp: sectors_bytes_def cache_fits_def demo_mirrors_def)
  have "length (striped 1 512 (map ?V demo_mirrors)) = 1024"
    by (simp add: striped_def raid0_volume_def demo_mirrors_def)
  then have "flat_serve (striped 1 512 (map ?V demo_mirrors)) [Wr 511 [7, 8], Rd 511 [0, 0]] = [(0, 0, []), (0, 0, [7, 8])]"
    by simp
  with h s [of "[Wr 511 [7, 8], Rd 511 [0, 0]]"] show ?thesis by auto
qed

end
