(* ===== verification/Master.thy ===== *)
theory Master
  imports Device_Stack
begin

text \<open>
  \<open>class Master\<close> of \<open>ublk/master.cpp\<close>: the targets by name, the child processes that serve mapped
  devices, and the operations create, destroy, map, unmap and list.

  A target object is counted by \<open>shared_ptr\<close>: one reference is the entry of \<open>targets_\<close>, and the task
  that waits for a child holds another until the child exits.  An object has an identity
  (\<open>to_id\<close>) so that the references to it can be counted whatever happens to its name.  The child is
  a \<open>fork\<close>: it works on its own copy of the device.

  The netlink exchange with the driver, \<open>fork\<close> and the opening of files are outside; their outcomes
  are arguments.
\<close>

subsection \<open>Configurations and devices\<close>

datatype target_cfg =
    NullCfg
  | InmemCfg
  | DefaultCfg string
  | Raid0Cfg raid0_cfg
  | Raid1Cfg raid1_cfg
  | Raid4Cfg raid4_cfg
  | Raid5Cfg raid5_cfg
  | Raid10Cfg nat "raid1_cfg list"
  | Raid40Cfg nat "raid4_cfg list"
  | Raid50Cfg nat "raid5_cfg list"

record target_create_param =
  tc_name :: string
  tc_capacity_sectors :: nat
  tc_cache :: "cache_cfg option"
  tc_target :: target_cfg

type_synonym 'f file_dev = "'f maybe_cached handlers_ops"
type_synonym 's raid0_dev = "'s handlers_ops raid0 target maybe_cached handlers_ops"
type_synonym 's raid1_dev = "'s handlers_ops raid1 target maybe_cached handlers_ops"
type_synonym 's parity_dev = "'s handlers_ops acceptor target maybe_cached handlers_ops"

datatype 'f any_dev =
    NullDev
  | InmemDev inmem
  | FileDev "'f file_dev"
  | Raid0Dev "'f maybe_cached raid0_dev"
  | Raid1Dev "'f maybe_cached raid1_dev"
  | ParityDev "'f maybe_cached parity_dev"
  | Raid10Dev "'f maybe_cached handlers_ops raid1 target maybe_cached raid0_dev"
  | Raid40Dev "'f maybe_cached handlers_ops acceptor target maybe_cached raid0_dev"

text \<open>The submitters of a device: a target without its own has those of \<open>ublk/null\<close>.\<close>

definition lift_rd :: "('s \<Rightarrow> 'd) \<Rightarrow> (int \<times> int \<times> byte list \<times> 's) option \<Rightarrow> (int \<times> int \<times> byte list \<times> 'd) option" where
  "lift_rd c = map_option (\<lambda>(res, e, buf, s). (res, e, buf, c s))"

definition lift_wr :: "('s \<Rightarrow> 'd) \<Rightarrow> (int \<times> int \<times> 's) option \<Rightarrow> (int \<times> int \<times> 'd) option" where
  "lift_wr c = map_option (\<lambda>(res, e, s). (res, e, c s))"

fun dev_read :: "'f any_dev read_fn" where
  "dev_read off buf NullDev = lift_rd (\<lambda>_. NullDev) (null_submit_rd off buf ())"
| "dev_read off buf (InmemDev t) = lift_rd InmemDev (inmem_rdq_submit off buf t)"
| "dev_read off buf (FileDev h) = lift_rd FileDev (rwh_submit_rd off buf h)"
| "dev_read off buf (Raid0Dev h) = lift_rd Raid0Dev (rwh_submit_rd off buf h)"
| "dev_read off buf (Raid1Dev h) = lift_rd Raid1Dev (rwh_submit_rd off buf h)"
| "dev_read off buf (ParityDev h) = lift_rd ParityDev (rwh_submit_rd off buf h)"
| "dev_read off buf (Raid10Dev h) = lift_rd Raid10Dev (rwh_submit_rd off buf h)"
| "dev_read off buf (Raid40Dev h) = lift_rd Raid40Dev (rwh_submit_rd off buf h)"

fun dev_write :: "'f any_dev write_fn" where
  "dev_write off buf NullDev = lift_wr (\<lambda>_. NullDev) (null_submit_wr off buf ())"
| "dev_write off buf (InmemDev t) = lift_wr InmemDev (inmem_wrq_submit off buf t)"
| "dev_write off buf (FileDev h) = lift_wr FileDev (rwh_submit_wr off buf h)"
| "dev_write off buf (Raid0Dev h) = lift_wr Raid0Dev (rwh_submit_wr off buf h)"
| "dev_write off buf (Raid1Dev h) = lift_wr Raid1Dev (rwh_submit_wr off buf h)"
| "dev_write off buf (ParityDev h) = lift_wr ParityDev (rwh_submit_wr off buf h)"
| "dev_write off buf (Raid10Dev h) = lift_wr Raid10Dev (rwh_submit_wr off buf h)"
| "dev_write off buf (Raid40Dev h) = lift_wr Raid40Dev (rwh_submit_wr off buf h)"

fun dev_flush :: "'f any_dev flush_fn" where
  "dev_flush NullDev = null_flush NullDev"
| "dev_flush (InmemDev t) = null_flush (InmemDev t)"
| "dev_flush (FileDev h) = lift_wr FileDev (ho_flush h)"
| "dev_flush (Raid0Dev h) = lift_wr Raid0Dev (ho_flush h)"
| "dev_flush (Raid1Dev h) = lift_wr Raid1Dev (ho_flush h)"
| "dev_flush (ParityDev h) = lift_wr ParityDev (ho_flush h)"
| "dev_flush (Raid10Dev h) = lift_wr Raid10Dev (ho_flush h)"
| "dev_flush (Raid40Dev h) = lift_wr Raid40Dev (ho_flush h)"

definition dev_submitters :: "'f any_dev submitters" where
  "dev_submitters = \<lparr>reader = dev_read, writer = dev_write, flusher = dev_flush, discarder = null_discard\<rparr>"

text \<open>\<open>inmem::Target\<close> is made from zeroed memory; \<open>alloc\<close> tells whether the memory can be had.\<close>

definition inmem_create :: "byte list option \<Rightarrow> nat \<Rightarrow> inmem option" where
  "inmem_create mm sz = do { expects (mm \<noteq> None); Some \<lparr>mem = the mm, mem_sz = sz\<rparr> }"

record 'f world =
  wd_fo :: "'f file_ops"
  wd_pool :: "nat \<Rightarrow> nat \<Rightarrow> byte list"
  wd_open :: "string \<Rightarrow> create_exn + 'f"
  wd_alloc :: "nat \<Rightarrow> bool"

definition cmap :: "('a \<Rightarrow> 'b) \<Rightarrow> 'a created \<Rightarrow> 'b created" where
  "cmap f m = cbind m (\<lambda>a. Some (Inr (f a)))"

fun make_device :: "'f world \<Rightarrow> nat \<Rightarrow> cache_cfg option \<Rightarrow> target_cfg \<Rightarrow> 'f any_dev created" where
  "make_device w cap cache NullCfg = Some (Inr NullDev)"
| "make_device w cap cache InmemCfg =
     (let sz = sectors_bytes cap in
      contracted (map_option InmemDev (inmem_create (if wd_alloc w sz then Some (replicate sz 0) else None) sz)))"
| "make_device w cap cache (DefaultCfg path) =
     cmap FileDev (cbind (Some (wd_open w path)) (make_default_ops (wd_fo w) (wd_pool w) cache))"
| "make_device w cap cache (Raid0Cfg r) = cmap Raid0Dev (raid0_from_cfg (wd_fo w) (wd_pool w) (wd_open w) cache r)"
| "make_device w cap cache (Raid1Cfg r) = cmap Raid1Dev (raid1_from_cfg (wd_fo w) (wd_pool w) (wd_open w) cache r)"
| "make_device w cap cache (Raid4Cfg r) = cmap ParityDev (raid4_from_cfg (wd_fo w) (wd_pool w) (wd_open w) cache r)"
| "make_device w cap cache (Raid5Cfg r) = cmap ParityDev (raid5_from_cfg (wd_fo w) (wd_pool w) (wd_open w) cache r)"
| "make_device w cap cache (Raid10Cfg n rs) =
     cmap Raid10Dev (raid10_from_cfg (wd_fo w) (wd_pool w) (wd_open w) cache n rs)"
| "make_device w cap cache (Raid40Cfg n rs) =
     cmap Raid40Dev (raid40_from_cfg (wd_fo w) (wd_pool w) (wd_open w) cache n rs)"
| "make_device w cap cache (Raid50Cfg n rs) =
     cmap Raid40Dev (raid50_from_cfg (wd_fo w) (wd_pool w) (wd_open w) cache n rs)"

subsection \<open>The master\<close>

record 'f tobj =
  to_id :: nat
  to_dev :: "'f any_dev"
  to_capacity :: nat

datatype nl_msg = BdevCreate string nat bool bool | BdevDestroy string

text \<open>
  \<open>children_\<close> holds the process ids; a waiting task has its child and the target it refers to;
  \<open>ms_slaves\<close> are the running children with their device.  \<open>ms_blocked\<close> is the child the master
  waits for, in the destructor of a future, before it does anything else.
\<close>

record 'f mstate =
  ms_targets :: "(string \<times> 'f tobj) list"
  ms_next :: nat
  ms_children :: "nat list"
  ms_waiters :: "(nat \<times> nat) list"
  ms_slaves :: "(nat \<times> 'f any_dev) list"
  ms_blocked :: "nat option"
  ms_sent :: "nl_msg list"

definition master_init :: "'f mstate" where
  "master_init = \<lparr>ms_targets = [], ms_next = 0, ms_children = [], ms_waiters = [], ms_slaves = [],
     ms_blocked = None, ms_sent = []\<rparr>"

definition use_count :: "'f mstate \<Rightarrow> nat \<Rightarrow> nat" where
  "use_count st i = length (filter (\<lambda>(n, t). to_id t = i) (ms_targets st)) + length (filter (\<lambda>(p, j). j = i) (ms_waiters st))"

definition master_create :: "'f world \<Rightarrow> target_create_param \<Rightarrow> 'f mstate \<Rightarrow> ((create_exn + unit) \<times> 'f mstate) option" where
  "master_create w p st =
     (if map_of (ms_targets st) (tc_name p) \<noteq> None then Some (Inl InvalidArgument, st)
      else case make_device w (tc_capacity_sectors p) (tc_cache p) (tc_target p) of
        None \<Rightarrow> None
      | Some (Inl x) \<Rightarrow> Some (Inl x, st)
      | Some (Inr d) \<Rightarrow> Some (Inr (), st\<lparr>ms_targets :=
            (tc_name p, \<lparr>to_id = ms_next st, to_dev = d, to_capacity = tc_capacity_sectors p\<rparr>) # ms_targets st,
          ms_next := Suc (ms_next st)\<rparr>))"

definition master_destroy :: "string \<Rightarrow> 'f mstate \<Rightarrow> (create_exn + unit) \<times> 'f mstate" where
  "master_destroy name st =
     (case map_of (ms_targets st) name of
        None \<Rightarrow> (Inr (), st)
      | Some t \<Rightarrow> if use_count st (to_id t) > 1 then (Inl DeviceBusy, st)
                  else (Inr (), st\<lparr>ms_targets := filter (\<lambda>(n, t). n \<noteq> name) (ms_targets st)\<rparr>))"

record bdev_map_param =
  bm_suffix :: string
  bm_target :: string
  bm_read_only :: bool
  bm_zero_copy :: bool

text \<open>
  \<open>nl\<close> is the exception the netlink exchange throws, if any; \<open>fork\<close> the new child, or \<open>None\<close> when
  \<open>fork\<close> fails.  If the child's id is still in \<open>children_\<close>, from a child that has long exited,
  \<open>emplace\<close> drops the new future, whose destructor waits for the new child.
\<close>

definition master_map :: "create_exn option \<Rightarrow> nat option \<Rightarrow> bdev_map_param \<Rightarrow> 'f mstate \<Rightarrow> (create_exn + unit) \<times> 'f mstate" where
  "master_map nl fork p st =
     (case map_of (ms_targets st) (bm_target p) of
        None \<Rightarrow> (Inl InvalidArgument, st)
      | Some t \<Rightarrow> (case nl of
          Some x \<Rightarrow> (Inl x, st)
        | None \<Rightarrow>
            let st1 = st\<lparr>ms_sent := ms_sent st @
              [BdevCreate (bm_suffix p) (to_capacity t) (bm_read_only p) (bm_zero_copy p)]\<rparr>
            in case fork of
                 None \<Rightarrow> (Inl RuntimeError, st1)
               | Some pid \<Rightarrow>
                   let st2 = st1\<lparr>ms_slaves := (pid, to_dev t) # ms_slaves st1,
                     ms_waiters := (pid, to_id t) # ms_waiters st1\<rparr>
                   in (Inr (), if pid \<in> set (ms_children st2) then st2\<lparr>ms_blocked := Some pid\<rparr>
                               else st2\<lparr>ms_children := pid # ms_children st2\<rparr>)))"

definition master_unmap :: "create_exn option \<Rightarrow> string \<Rightarrow> 'f mstate \<Rightarrow> (create_exn + unit) \<times> 'f mstate" where
  "master_unmap nl suffix st =
     (case nl of Some x \<Rightarrow> (Inl x, st) | None \<Rightarrow> (Inr (), st\<lparr>ms_sent := ms_sent st @ [BdevDestroy suffix]\<rparr>))"

definition master_list :: "'f mstate \<Rightarrow> (string \<times> nat) list" where
  "master_list st = map (\<lambda>(n, t). (n, to_capacity t)) (ms_targets st)"

text \<open>A child exits: its task ends and gives up its reference.\<close>

definition child_exit :: "nat \<Rightarrow> 'f mstate \<Rightarrow> 'f mstate" where
  "child_exit pid st = st\<lparr>ms_waiters := filter (\<lambda>(p, i). p \<noteq> pid) (ms_waiters st),
     ms_slaves := filter (\<lambda>(p, d). p \<noteq> pid) (ms_slaves st),
     ms_blocked := (if ms_blocked st = Some pid then None else ms_blocked st)\<rparr>"

text \<open>The destructor kills the children one by one; erasing a future waits for its child.\<close>

fun shutdown_loop :: "nat list \<Rightarrow> 'f mstate \<Rightarrow> 'f mstate" where
  "shutdown_loop [] st = st"
| "shutdown_loop (pid # pids) st = shutdown_loop pids ((child_exit pid st)\<lparr>ms_children := pids\<rparr>)"

definition master_shutdown :: "'f mstate \<Rightarrow> 'f mstate" where
  "master_shutdown st = shutdown_loop (ms_children st) st"

subsection \<open>Reachable states\<close>

text \<open>
  The operations interleave with the exits of children and with what the children do to their own
  copy of the device.  An exited child keeps its process id until its task has waited for it, so a
  new child's id is not the id of a waiting task.
\<close>

inductive mstep :: "'f mstate \<Rightarrow> 'f mstate \<Rightarrow> bool" where
  m_create: "ms_blocked st = None \<Longrightarrow> master_create w p st = Some (r, st') \<Longrightarrow> mstep st st'"
| m_destroy: "ms_blocked st = None \<Longrightarrow> master_destroy name st = (r, st') \<Longrightarrow> mstep st st'"
| m_map: "ms_blocked st = None \<Longrightarrow> \<forall>pid \<in> set_option fork. pid \<notin> fst ` set (ms_waiters st) \<Longrightarrow>
    master_map nl fork bm st = (r, st') \<Longrightarrow> mstep st st'"
| m_unmap: "ms_blocked st = None \<Longrightarrow> master_unmap nl suffix st = (r, st') \<Longrightarrow> mstep st st'"
| m_exit: "pid \<in> fst ` set (ms_waiters st) \<Longrightarrow> mstep st (child_exit pid st)"
| m_io: "mstep st (st\<lparr>ms_slaves := map (\<lambda>(p, d). (p, if p = pid then d' else d)) (ms_slaves st)\<rparr>)"

inductive mreach :: "'f mstate \<Rightarrow> bool" where
  mr_init: "mreach master_init"
| mr_step: "mreach st \<Longrightarrow> mstep st st' \<Longrightarrow> mreach st'"

inductive_cases mstep_cases: "mstep st st'"

abbreviation target_ids :: "'f mstate \<Rightarrow> nat list" where
  "target_ids st \<equiv> map (\<lambda>(n, t). to_id t) (ms_targets st)"

definition minv :: "'f mstate \<Rightarrow> bool" where
  "minv st \<longleftrightarrow> distinct (map fst (ms_targets st)) \<and> distinct (target_ids st) \<and> (\<forall>i \<in> set (target_ids st). i < ms_next st)
    \<and> distinct (map fst (ms_waiters st)) \<and> snd ` set (ms_waiters st) \<subseteq> set (target_ids st)
    \<and> map fst (ms_slaves st) = map fst (ms_waiters st) \<and> set_option (ms_blocked st) \<subseteq> fst ` set (ms_waiters st)"

lemma filter_id_once:
  assumes "distinct (map (\<lambda>(n, t). to_id t) ts)" "(name, t) \<in> set ts"
  shows "length (filter (\<lambda>(n, u). to_id u = to_id t) ts) = 1"
  using assms
proof (induction ts)
  case (Cons x ts)
  obtain n u where x: "x = (n, u)" by (cases x)
  show ?case
  proof (cases "x = (name, t)")
    case True
    then have "to_id t \<notin> (\<lambda>(n, t). to_id t) ` set ts" using Cons.prems(1) by auto
    then have "filter (\<lambda>(n, u). to_id u = to_id t) ts = []" by (force simp: filter_empty_conv)
    then show ?thesis using True by simp
  next
    case False
    then have t: "(name, t) \<in> set ts" using Cons.prems(2) by simp
    then have "to_id t \<in> (\<lambda>(n, t). to_id t) ` set ts" by force
    then have "to_id u \<noteq> to_id t" using Cons.prems(1) x by auto
    then show ?thesis using Cons t x by simp
  qed
qed simp

lemma use_count_eq:
  assumes "minv st" "map_of (ms_targets st) name = Some t"
  shows "use_count st (to_id t) = 1 + length (filter (\<lambda>(p, j). j = to_id t) (ms_waiters st))"
  using filter_id_once [of "ms_targets st" name t] assms by (auto simp: minv_def use_count_def dest: map_of_SomeD)

lemma busy_iff:
  assumes "minv st" "map_of (ms_targets st) name = Some t"
  shows "use_count st (to_id t) > 1 \<longleftrightarrow> (\<exists>pid. (pid, to_id t) \<in> set (ms_waiters st))"
  unfolding use_count_eq [OF assms] by (auto simp: filter_empty_conv)

lemma minv_create:
  assumes "minv st" "master_create w p st = Some (r, st')"
  shows "minv st'"
proof -
  consider "st' = st" | d where "map_of (ms_targets st) (tc_name p) = None"
      "st' = st\<lparr>ms_targets := (tc_name p, \<lparr>to_id = ms_next st, to_dev = d, to_capacity = tc_capacity_sectors p\<rparr>) # ms_targets st,
          ms_next := Suc (ms_next st)\<rparr>"
    using assms(2) by (auto simp: master_create_def split: if_splits option.splits sum.splits)
  then show ?thesis
  proof cases
    case 2
    then have "tc_name p \<notin> fst ` set (ms_targets st)" by (simp add: map_of_eq_None_iff)
    then show ?thesis using assms(1) 2(2) by (force simp: minv_def less_Suc_eq)
  qed (simp add: assms(1))
qed

lemma minv_destroy:
  assumes "minv st" "master_destroy name st = (r, st')"
  shows "minv st'"
proof (cases "\<exists>t. map_of (ms_targets st) name = Some t \<and> \<not> use_count st (to_id t) > 1")
  case True
  then obtain t where t: "map_of (ms_targets st) name = Some t" "\<not> use_count st (to_id t) > 1" by blast
  then have st': "st' = st\<lparr>ms_targets := filter (\<lambda>(n, t). n \<noteq> name) (ms_targets st)\<rparr>"
    using assms(2) by (simp add: master_destroy_def)
  have free: "to_id t \<notin> snd ` set (ms_waiters st)" using t busy_iff [OF assms(1) t(1)] by auto
  have "i \<in> set (target_ids st')" if i: "i \<in> snd ` set (ms_waiters st)" for i
  proof -
    have "i \<in> set (target_ids st)" using assms(1) i by (auto simp: minv_def)
    then obtain n u where u: "(n, u) \<in> set (ms_targets st)" "to_id u = i" by auto
    have "n \<noteq> name"
    proof
      assume "n = name"
      then have "u = t" using u(1) t(1) assms(1) by (simp add: minv_def)
      then show False using u(2) i free by simp
    qed
    then show ?thesis using u unfolding st' by force
  qed
  moreover have "distinct (map f (filter P xs))" if "distinct (map f xs)" for f :: "string \<times> 'a tobj \<Rightarrow> 'b" and P xs
    using that by (rule distinct_map_filter)
  ultimately show ?thesis using assms(1) unfolding st' by (auto simp: minv_def distinct_map_filter)
next
  case False
  then have "st' = st" using assms(2) by (auto simp: master_destroy_def split: option.splits if_splits)
  then show ?thesis using assms(1) by simp
qed

lemma minv_sent [simp]: "minv (st\<lparr>ms_sent := x\<rparr>) = minv st"
  by (simp add: minv_def)

lemma minv_fork:
  assumes "minv st" "pid \<notin> fst ` set (ms_waiters st)" "i \<in> set (target_ids st)" "b = ms_blocked st \<or> b = Some pid"
  shows "minv (st\<lparr>ms_slaves := (pid, d) # ms_slaves st, ms_waiters := (pid, i) # ms_waiters st,
    ms_children := c, ms_blocked := b, ms_sent := x\<rparr>)"
proof -
  have "set_option b \<subseteq> insert pid (fst ` set (ms_waiters st))"
    using assms(4) subset_insertI2 [of "set_option (ms_blocked st)" "fst ` set (ms_waiters st)" pid] assms(1)
    unfolding minv_def by (elim disjE) simp_all
  then show ?thesis using assms(1-3) by (simp add: minv_def)
qed

lemma minv_map:
  assumes "minv st" "ms_blocked st = None" "\<forall>pid \<in> set_option fork. pid \<notin> fst ` set (ms_waiters st)"
    and "master_map nl fork bm st = (r, st')"
  shows "minv st'"
proof -
  have t: "to_id t \<in> set (target_ids st)" if "map_of (ms_targets st) n = Some t" for n t
    using map_of_SomeD [OF that] by force
  show ?thesis
  proof (cases "map_of (ms_targets st) (bm_target bm) = None \<or> nl \<noteq> None \<or> fork = None")
    case True
    then have "st' = st \<or> (\<exists>x. st' = st\<lparr>ms_sent := x\<rparr>)"
      using assms(4) by (auto simp: master_map_def Let_def split: option.splits)
    then show ?thesis using assms(1) by (elim disjE exE) simp_all
  next
    case False
    then obtain u pid where u: "map_of (ms_targets st) (bm_target bm) = Some u" "nl = None" "fork = Some pid" by auto
    have f: "minv (st\<lparr>ms_slaves := (pid, to_dev u) # ms_slaves st, ms_waiters := (pid, to_id u) # ms_waiters st,
        ms_children := c, ms_blocked := b, ms_sent := x\<rparr>)" if "b = ms_blocked st \<or> b = Some pid" for c b x
      using minv_fork [OF assms(1) _ t [OF u(1)] that] assms(3) u(3) by simp
    show ?thesis
    proof (cases "pid \<in> set (ms_children st)")
      case True
      then have "st' = st\<lparr>ms_sent := ms_sent st @ [BdevCreate (bm_suffix bm) (to_capacity u) (bm_read_only bm) (bm_zero_copy bm)],
          ms_slaves := (pid, to_dev u) # ms_slaves st, ms_waiters := (pid, to_id u) # ms_waiters st, ms_blocked := Some pid\<rparr>"
        using assms(4) u by (simp add: master_map_def Let_def)
      then show ?thesis using f [where b = "Some pid" and c = "ms_children st"] by (simp add: minv_def)
    next
      case False
      then have "st' = st\<lparr>ms_sent := ms_sent st @ [BdevCreate (bm_suffix bm) (to_capacity u) (bm_read_only bm) (bm_zero_copy bm)],
          ms_slaves := (pid, to_dev u) # ms_slaves st, ms_waiters := (pid, to_id u) # ms_waiters st,
          ms_children := pid # ms_children st\<rparr>"
        using assms(4) u by (simp add: master_map_def Let_def)
      then show ?thesis using f [where b = "ms_blocked st" and c = "pid # ms_children st"] by (simp add: minv_def)
    qed
  qed
qed

lemma map_fst_filter: "map fst (filter (\<lambda>(p, d). p \<noteq> pid) xs) = filter (\<lambda>p. p \<noteq> pid) (map fst xs)"
  by (induction xs) auto

lemma minv_exit:
  assumes "minv st"
  shows "minv (child_exit pid st)"
proof -
  have f: "fst ` set (filter (\<lambda>(p, i). p \<noteq> pid) (ms_waiters st)) = fst ` set (ms_waiters st) - {pid}" by force
  have "snd ` set (filter (\<lambda>(p, i). p \<noteq> pid) (ms_waiters st)) \<subseteq> snd ` set (ms_waiters st)" by auto
  also have "\<dots> \<subseteq> set (target_ids st)" using assms by (simp add: minv_def)
  finally have s: "snd ` set (filter (\<lambda>(p, i). p \<noteq> pid) (ms_waiters st)) \<subseteq> set (target_ids st)" .
  have "set_option (ms_blocked (child_exit pid st)) \<subseteq> fst ` set (ms_waiters st) - {pid}"
    using assms by (auto simp: child_exit_def minv_def split: if_splits)
  then show ?thesis using assms s unfolding minv_def
    by (simp add: child_exit_def map_fst_filter f del: set_filter)
qed

lemma minv_unmap: "minv st \<Longrightarrow> master_unmap nl suffix st = (r, st') \<Longrightarrow> minv st'"
  by (auto simp: master_unmap_def split: option.splits)

lemma minv_step: "mstep st st' \<Longrightarrow> minv st \<Longrightarrow> minv st'"
proof (induction rule: mstep.induct)
  case (m_io st pid d')
  have "map fst (map (\<lambda>(p, d). (p, if p = pid then d' else d)) xs) = map fst xs" for xs :: "(nat \<times> 'a any_dev) list"
    by (induction xs) auto
  with m_io show ?case unfolding minv_def by (simp del: map_map)
qed (blast intro: minv_create minv_destroy minv_map minv_unmap minv_exit)+

lemma mreach_minv: "mreach st \<Longrightarrow> minv st"
proof (induction rule: mreach.induct)
  case mr_init
  show ?case by (simp add: master_init_def minv_def)
qed (rule minv_step)

text \<open>
  C26. A target is never taken from a running child: in every state the master can reach, whatever the order of the
  operations, the exits of children and the reuse of process ids, each waiting child refers to a target that is still
  there, and \<open>destroy\<close> refuses with \<open>device_or_resource_busy\<close> exactly while some child runs on the target, removing it
  otherwise; destroying a name that does not exist does nothing.
\<close>

theorem destroy_busy:
  assumes "mreach st"
  shows "master_destroy name st =
      (case map_of (ms_targets st) name of None \<Rightarrow> (Inr (), st)
       | Some t \<Rightarrow> if \<exists>pid. (pid, to_id t) \<in> set (ms_waiters st) then (Inl DeviceBusy, st)
                   else (Inr (), st\<lparr>ms_targets := filter (\<lambda>(n, t). n \<noteq> name) (ms_targets st)\<rparr>))
    \<and> (\<forall>(pid, i) \<in> set (ms_waiters st). \<exists>n t. map_of (ms_targets st) n = Some t \<and> to_id t = i)"
proof
  note inv = mreach_minv [OF assms]
  show "master_destroy name st =
      (case map_of (ms_targets st) name of None \<Rightarrow> (Inr (), st)
       | Some t \<Rightarrow> if \<exists>pid. (pid, to_id t) \<in> set (ms_waiters st) then (Inl DeviceBusy, st)
                   else (Inr (), st\<lparr>ms_targets := filter (\<lambda>(n, t). n \<noteq> name) (ms_targets st)\<rparr>))"
    by (auto simp: master_destroy_def busy_iff [OF inv, unfolded One_nat_def] split: option.splits)
  show "\<forall>(pid, i) \<in> set (ms_waiters st). \<exists>n t. map_of (ms_targets st) n = Some t \<and> to_id t = i"
  proof (intro ballI, clarify)
    fix pid i assume "(pid, i) \<in> set (ms_waiters st)"
    then have "i \<in> set (target_ids st)" using inv by (force simp: minv_def)
    then obtain n t where "(n, t) \<in> set (ms_targets st)" "to_id t = i" by auto
    then show "\<exists>n t. map_of (ms_targets st) n = Some t \<and> to_id t = i" using inv by (auto simp: minv_def)
  qed
qed

definition demo_world :: "byte list world" where
  "demo_world = \<lparr>wd_fo = list_file, wd_pool = demo_pool, wd_open = demo_open, wd_alloc = (\<lambda>_. True)\<rparr>"

definition demo_create :: "string \<Rightarrow> target_cfg \<Rightarrow> target_create_param" where
  "demo_create name cfg = \<lparr>tc_name = name, tc_capacity_sectors = 2, tc_cache = None, tc_target = cfg\<rparr>"

definition demo_map :: bdev_map_param where
  "demo_map = \<lparr>bm_suffix = ''0'', bm_target = ''t'', bm_read_only = False, bm_zero_copy = False\<rparr>"

text \<open>A target \<open>''t''\<close> with one running child, 7.\<close>

definition demo_mapped :: "byte list mstate" where
  "demo_mapped = \<lparr>ms_targets = [(''t'', \<lparr>to_id = 0, to_dev = NullDev, to_capacity = 2\<rparr>)], ms_next = 1,
     ms_children = [7], ms_waiters = [(7, 0)], ms_slaves = [(7, NullDev)], ms_blocked = None,
     ms_sent = [BdevCreate ''0'' 2 False False]\<rparr>"

lemma demo_mapped_reach: "mreach demo_mapped"
proof -
  let ?s = "\<lparr>ms_targets = [(''t'', \<lparr>to_id = 0, to_dev = NullDev, to_capacity = 2\<rparr>)], ms_next = 1,
     ms_children = [], ms_waiters = [], ms_slaves = [], ms_blocked = None, ms_sent = []\<rparr> :: byte list mstate"
  have "master_create demo_world (demo_create ''t'' NullCfg) master_init = Some (Inr (), ?s)"
    by (simp add: master_create_def master_init_def demo_create_def)
  then have "mreach ?s" using mr_step [OF mr_init m_create] by (simp add: master_init_def)
  moreover have "master_map None (Some 7) demo_map ?s = (Inr (), demo_mapped)"
    by (simp add: master_map_def demo_map_def demo_mapped_def)
  then have "mstep ?s demo_mapped" by (intro m_map [of _ "Some 7" None demo_map]) simp_all
  ultimately show ?thesis by (rule mr_step)
qed

lemma destroy_busy_witness:
  "master_destroy ''t'' demo_mapped = (Inl DeviceBusy, demo_mapped) \<and> master_destroy ''u'' demo_mapped = (Inr (), demo_mapped)"
  using destroy_busy [OF demo_mapped_reach, of "''t''"] destroy_busy [OF demo_mapped_reach, of "''u''"]
  by (simp add: demo_mapped_def)

text \<open>
  Each mapping starts from the device as \<open>create\<close> built it: a child's writes to memory, its cache
  and the state of its RAID targets are lost with it.
\<close>

lemma mapping_starts_fresh:
  assumes "map_of (ms_targets st) (bm_target bm) = Some t"
  shows "\<exists>st'. master_map None (Some pid) bm st = (Inr (), st') \<and> (pid, to_dev t) \<in> set (ms_slaves st')
    \<and> map_of (ms_targets st') (bm_target bm) = Some t"
  using assms by (simp add: master_map_def Let_def)



subsection \<open>Shutting down\<close>

lemma child_remembered:
  assumes "mstep st st'" "\<forall>(pid, i) \<in> set (ms_waiters st). pid \<in> set (ms_children st)"
  shows "\<forall>(pid, i) \<in> set (ms_waiters st'). pid \<in> set (ms_children st')"
  using assms
proof (induction rule: mstep.induct)
  case (m_create st w p r st')
  then show ?case by (auto simp: master_create_def split: if_splits option.splits sum.splits)
next
  case (m_destroy st name r st')
  then show ?case by (auto simp: master_destroy_def split: if_splits option.splits)
next
  case (m_map st fork nl bm r st')
  then show ?case by (auto simp: master_map_def Let_def split: if_splits option.splits)
next
  case (m_unmap st nl suffix r st')
  then show ?case by (auto simp: master_unmap_def split: option.splits)
qed (auto simp: child_exit_def)

lemma shutdown_waiters:
  "ms_waiters (shutdown_loop pids st) = filter (\<lambda>(p, i). p \<notin> set pids) (ms_waiters st)"
  by (induction pids arbitrary: st) (auto simp: child_exit_def filter_filter intro!: filter_cong)

text \<open>The destructor leaves no child of a reachable state running.\<close>

lemma shutdown_clean:
  assumes "mreach st"
  shows "ms_waiters (master_shutdown st) = []"
proof -
  from assms have "\<forall>(pid, i) \<in> set (ms_waiters st). pid \<in> set (ms_children st)"
  proof induction
    case mr_init
    show ?case by (simp add: master_init_def)
  qed (rule child_remembered)
  then show ?thesis by (auto simp: master_shutdown_def shutdown_waiters filter_empty_conv)
qed

end
