(* ===== verification/Parity_Stack.thy ===== *)
theory Parity_Stack
  imports Device_Stack
begin

text \<open>
  What the parity arrays that \<open>ublk/master.cpp\<close> builds serve, alone (\<open>make_raid4_ops\<close>,
  \<open>make_raid5_ops\<close>) and as the parts of a stripe (the cases \<open>raid40\<close> and \<open>raid50\<close> of
  \<open>Master::create\<close>), with or without a cache, for requests in multiples of eight bytes.
\<close>

subsection \<open>A parity array as a device\<close>

text \<open>
  The parts of a stripe may differ in their number of disks and their strip size, so what an array
  is good for and what it holds are read off its state.
\<close>

definition parity_strips :: "('c \<Rightarrow> byte list) \<Rightarrow> 'c acceptor \<Rightarrow> nat" where
  "parity_strips content acc = length (content (hd (sp_hs (acc_be acc)))) div sp_strip_sz (acc_be acc)"

definition parity_good :: "('c \<Rightarrow> bool) \<Rightarrow> ('c \<Rightarrow> byte list) \<Rightarrow> nat \<Rightarrow> 'c acceptor \<Rightarrow> bool" where
  "parity_good good content n acc \<longleftrightarrow> length (sp_hs (acc_be acc)) = n \<and>
     acc_idle good content (parity_strips content acc) (sp_strip_sz (acc_be acc)) (sp_pid (acc_be acc)) acc"

definition parity_content :: "('c \<Rightarrow> byte list) \<Rightarrow> 'c acceptor \<Rightarrow> byte list" where
  "parity_content content acc =
     acc_data content (parity_strips content acc) (sp_strip_sz (acc_be acc)) (sp_pid (acc_be acc)) acc"

lemma parity_good_idle:
  assumes "acc_idle good content m S pid acc"
  shows "parity_good good content (length (sp_hs (acc_be acc))) acc \<and> parity_content content acc = acc_data content m S pid acc"
proof -
  have a: "sp_disks_ok good content m S pid (sp_hs (acc_be acc))" "sp_strip_sz (acc_be acc) = S" "sp_pid (acc_be acc) = pid"
    using assms by (simp_all add: acc_idle_def acc_ok_def Let_def)
  then have "0 < S" "hd (sp_hs (acc_be acc)) \<in> set (sp_hs (acc_be acc))"
    by (auto simp: sp_disks_ok_def intro!: hd_in_set)
  then have "parity_strips content acc = m"
    using a by (simp add: parity_strips_def sp_disks_ok_def)
  then show ?thesis using assms a(2,3) by (simp add: parity_good_def parity_content_def)
qed

text \<open>Requests keep the number of disks: a device that is not empty has the same size afterwards.\<close>

lemma acc_idle_length:
  assumes "acc_idle good content m S pid acc" "acc_idle good content m S pid acc'"
    and "length (acc_data content m S pid acc') = length (acc_data content m S pid acc)" "0 < length (acc_data content m S pid acc)"
  shows "length (sp_hs (acc_be acc')) = length (sp_hs (acc_be acc))"
proof -
  have n: "2 \<le> length (sp_hs (acc_be a))" if "acc_idle good content m S pid a" for a
    using that by (simp add: acc_idle_def acc_ok_def sp_disks_ok_def Let_def)
  have l: "length (acc_data content m S pid a) = m * (S * (length (sp_hs (acc_be a)) - 1))" for a
    by (simp add: acc_data_def sp_data_def)
  have "length (sp_hs (acc_be acc')) - 1 = length (sp_hs (acc_be acc)) - 1" using assms(3,4) unfolding l by auto
  then show ?thesis using n [OF assms(1)] n [OF assms(2)] by linarith
qed

context block_dev
begin

lemma parity_aligned_dev: "aligned_dev 8 (raidsp_ops ops) (parity_good good content n) (parity_content content)"
proof
  fix acc :: "'c acceptor" and buf :: "byte list" and off
  let ?V = "parity_content content acc" and ?m = "parity_strips content acc"
    and ?S = "sp_strip_sz (acc_be acc)" and ?pid = "sp_pid (acc_be acc)"
  assume a: "parity_good good content n acc" "buf \<noteq> []" "off + length buf \<le> length ?V" "8 dvd off" "8 dvd length buf"
  have i: "acc_idle good content ?m ?S ?pid acc" "length (sp_hs (acc_be acc)) = n" using a(1) by (simp_all add: parity_good_def)
  have V: "?V = acc_data content ?m ?S ?pid acc" by (simp add: parity_content_def)
  have kept: "parity_good good content n acc' \<and> parity_content content acc' = V'"
    if "acc_idle good content ?m ?S ?pid acc'" "acc_data content ?m ?S ?pid acc' = V'" "length V' = length ?V" for acc' V'
  proof -
    have "0 < length (acc_data content ?m ?S ?pid acc)"
      using a(2,3) unfolding V length_greater_0_conv [symmetric] by linarith
    then have "length (sp_hs (acc_be acc')) = n" using acc_idle_length [OF i(1) that(1)] that(2,3) i(2) V by simp
    then show ?thesis using parity_good_idle [OF that(1)] that(2) by simp
  qed
  note laws = aligned_dev.aligned_read_law [OF raidsp_aligned_dev] aligned_dev.aligned_write_law [OF raidsp_aligned_dev]
  obtain acc1 where "submit_rd (raidsp_ops ops) off buf acc = Some (0, 0, subspan ?V off (length buf), acc1)"
    "acc_idle good content ?m ?S ?pid acc1" "acc_data content ?m ?S ?pid acc1 = ?V"
    using laws(1) [OF i(1) a(2) _ a(4,5)] a(3) unfolding V by blast
  then show "\<exists>acc'. submit_rd (raidsp_ops ops) off buf acc = Some (0, 0, subspan ?V off (length buf), acc') \<and>
      parity_good good content n acc' \<and> parity_content content acc' = ?V" using kept [of acc1 ?V] by blast
  obtain acc2 where "submit_wr (raidsp_ops ops) off buf acc = Some (0, 0, acc2)"
    "acc_idle good content ?m ?S ?pid acc2" "acc_data content ?m ?S ?pid acc2 = copy_at ?V off buf"
    using laws(2) [OF i(1) a(2) _ a(4,5)] a(3) unfolding V by blast
  then show "\<exists>acc'. submit_wr (raidsp_ops ops) off buf acc = Some (0, 0, acc') \<and> parity_good good content n acc' \<and>
      parity_content content acc' = copy_at ?V off buf" using kept [of acc2 "copy_at ?V off buf"] a(3) by (metis length_copy_at)
qed

end

interpretation parity_inmem: aligned_dev 8 "raidsp_ops inmem_ops" "parity_good inmem_good mem n" "parity_content mem" for n
  by (rule inmem.parity_aligned_dev)

lemma acceptor_create_idle:
  assumes "\<forall>h \<in> set hs. good h \<and> length (content h) = m * 2 ^ k" "3 \<le> length hs" "9 \<le> k" "\<forall>s. pid s < length hs"
  shows "\<exists>acc. acceptor_create (2 ^ k) (map Some hs) pid = Some acc \<and> acc_idle good content m (2 ^ k) pid acc
    \<and> sp_hs (acc_be acc) = hs"
proof -
  have "\<exists>n\<le>2 ^ k. (2 :: nat) ^ k = 2 ^ n" by (intro exI [of _ k]) (simp add: less_imp_le less_exp)
  moreover have "2 ^ 9 dvd (2 ^ k :: nat)" using assms(3) by (rule le_imp_power_dvd)
  then have "(512 :: nat) dvd 2 ^ k" by simp
  moreover have "8 dvd (2 ^ k :: nat)" using dvd_trans [OF _ calculation(2), of 8] by simp
  moreover have "\<not> length hs < 3" using assms(2) by simp
  ultimately show ?thesis using assms
    by (auto simp: acceptor_create_def raidsp_create_def o_def acc_idle_def acc_ok_def sp_disks_ok_def
        is_stripe_parity_coherent_def held_def Let_def dvd_imp_mod_0)
qed

text \<open>The bytes a parity array over files with contents \<open>Vs\<close> stands for.\<close>

definition parity_volume :: "nat \<Rightarrow> nat \<Rightarrow> (nat \<Rightarrow> nat) \<Rightarrow> byte list list \<Rightarrow> byte list" where
  "parity_volume m S pid Vs = sp_data (\<lambda>V. V) m S pid Vs"

lemma sp_data_parity_volume: "sp_data content m S pid hs = parity_volume m S pid (map content hs)"
  by (simp add: parity_volume_def sp_data_def sp_full_def)

text \<open>Flushing a disk changes nothing that the array depends on.\<close>

lemma acc_idle_same:
  assumes "acc_idle good content m S pid acc" "map content hs = map content (sp_hs (acc_be acc))" "\<forall>h \<in> set hs. good h"
  shows "acc_idle good content m S pid (acc\<lparr>acc_be := (acc_be acc)\<lparr>sp_hs := hs\<rparr>\<rparr>)"
proof -
  have l: "length hs = length (sp_hs (acc_be acc))" using arg_cong [OF assms(2), of length] by simp
  have "sp_full content m S pid hs = sp_full content m S pid (sp_hs (acc_be acc))" by (simp add: sp_full_def assms(2) l)
  moreover have "\<forall>h \<in> set hs. length (content h) = m * S"
  proof
    fix h assume "h \<in> set hs"
    then have "content h \<in> set (map content (sp_hs (acc_be acc)))" by (simp flip: assms(2))
    then show "length (content h) = m * S" using assms(1) by (auto simp: acc_idle_def acc_ok_def sp_disks_ok_def Let_def)
  qed
  ultimately show ?thesis using assms(1,3) l
    by (simp add: acc_idle_def acc_ok_def sp_disks_ok_def Let_def sp_stripe_parity_def sp_stripe_data_def is_stripe_parity_coherent_def)
qed

lemma raidsp_flush_keeps:
  assumes "i < n"
  shows "flush_keeps (raidsp_child_flush i) (target_good (parity_good (hops_good 1 content) (hops_content content) n))
    (\<lambda>t. parity_content (hops_content content) (backend t))"
proof (rule target_flush_keeps)
  fix t :: "'a handlers_ops acceptor target"
  let ?acc = "backend t" and ?G = "hops_good 1 content" and ?C = "hops_content content"
  let ?hs = "sp_hs (acc_be ?acc)" and ?m = "parity_strips ?C ?acc" and ?S = "sp_strip_sz (acc_be ?acc)" and ?pid = "sp_pid (acc_be ?acc)"
  assume t: "fsm t = Online" "parity_good ?G ?C n ?acc"
  then have a: "acc_idle ?G ?C ?m ?S ?pid ?acc" "i < length ?hs" "\<forall>h \<in> set ?hs. ?G h"
    using assms by (auto simp: parity_good_def acc_idle_def acc_ok_def sp_disks_ok_def Let_def)
  obtain r h where h: "ho_flush (?hs ! i) = Some (r, 0, h)" "?G h" "?C h = ?C (?hs ! i)"
    using hops_flush_keeps a(2,3) unfolding flush_keeps_def by (metis nth_mem)
  let ?b = "?acc\<lparr>acc_be := (acc_be ?acc)\<lparr>sp_hs := ?hs[i := h]\<rparr>\<rparr>"
  have m: "map ?C (?hs[i := h]) = map ?C ?hs" using map_same [of ?C h ?hs i] h(3) by simp
  have "acc_idle ?G ?C ?m ?S ?pid ?b"
    using acc_idle_same [OF a(1) m] a(3) h(2) by (auto dest!: set_update_subset_insert [THEN subsetD])
  from parity_good_idle [OF this] have "parity_good ?G ?C n ?b \<and> parity_content ?C ?b = parity_content ?C ?acc"
    using t(2) m by (simp add: parity_good_def parity_content_def acc_data_def sp_data_parity_volume)
  then show "\<exists>r b. raidsp_child_flush i t = Some (r, 0, t\<lparr>backend := b\<rparr>) \<and> parity_good ?G ?C n b \<and>
      parity_content ?C b = parity_content ?C ?acc"
    using h(1) by (intro exI [of _ r] exI [of _ ?b]) (simp add: raidsp_child_flush_def Let_def)
qed

abbreviation parity_dev_content where
  "parity_dev_content content \<equiv> mc_content (\<lambda>t. parity_content (hops_content content) (backend t))"

lemma parity_device:
  assumes "pool_ok pool" "\<forall>h \<in> set hs. hops_good 1 content h \<and> length (hops_content content h) = m * 2 ^ k"
    and "3 \<le> length hs" "9 \<le> k" "\<forall>s. pid s < length hs" "cache_fits cfg (m * (2 ^ k * (length hs - 1)))"
  shows "\<exists>acc h. acceptor_create (2 ^ k) (map Some hs) pid = Some acc \<and>
    make_ops \<lparr>submit_rd = raidsp_target_read rwhandler, submit_wr = raidsp_target_write rwhandler\<rparr>
      (flq_composite (map raidsp_child_flush [0..<length hs])) pool cfg \<lparr>fsm = Online, backend = acc\<rparr> = Some h \<and>
    hops_good 8 (parity_dev_content content) h \<and>
    hops_content (parity_dev_content content) h = parity_volume m (2 ^ k) pid (map (hops_content content) hs)"
proof -
  let ?G = "hops_good 1 content" and ?C = "hops_content content" and ?fl = "flq_composite (map raidsp_child_flush [0..<length hs])"
  obtain acc where acc: "acceptor_create (2 ^ k) (map Some hs) pid = Some acc" "acc_idle ?G ?C m (2 ^ k) pid acc"
    "sp_hs (acc_be acc) = hs"
    using acceptor_create_idle [of hs ?G ?C m k pid] assms(2-5) by blast
  then have p: "parity_good ?G ?C (length hs) acc" "parity_content ?C acc = parity_volume m (2 ^ k) pid (map ?C hs)"
    using parity_good_idle [OF acc(2)] by (simp_all add: acc_data_def sp_data_parity_volume)
  have c: "cache_fits cfg (length (parity_content ?C acc))"
    using assms(6) unfolding p(2) by (simp add: parity_volume_def sp_data_def)
  have fl: "flush_keeps ?fl (target_good (parity_good ?G ?C (length hs))) (\<lambda>t. parity_content ?C (backend t))"
    using raidsp_flush_keeps by (intro flq_composite_keeps) auto
  from aligned_dev.target_device [OF block_dev.parity_aligned_dev [OF hops_block_dev] assms(1) _ p(1) c fl]
  obtain h where "make_ops (target_ops (submit_rd (raidsp_ops rwhandler)) (submit_wr (raidsp_ops rwhandler))) ?fl pool cfg
      \<lparr>fsm = Online, backend = acc\<rparr> = Some h" "hops_good 8 (parity_dev_content content) h"
    "hops_content (parity_dev_content content) h = parity_content ?C acc" by auto
  then show ?thesis using acc(1) p(2)
    by (simp add: raidsp_ops_def target_ops_def raidsp_target_read_def raidsp_target_write_def)
qed

text \<open>The same over open files.\<close>

lemma open_all_snoc:
  assumes "opens open_dev good bytes V (ps @ [p])"
  shows "\<exists>fds fd. open_all open_dev ps = Some (Inr fds) \<and> open_dev p = Inr fd \<and> (\<forall>f \<in> set (fds @ [fd]). good f) \<and>
    map bytes (fds @ [fd]) = map V (ps @ [p])"
proof -
  obtain fd where fd: "open_dev p = Inr fd" "good fd" "bytes fd = V p" using assms by (auto simp: opens_def)
  have "opens open_dev good bytes V ps" using assms by (simp add: opens_def)
  from open_all_ok [OF this] fd show ?thesis by auto
qed

lemma parity_files_device:
  assumes "file_laws fo good bytes" "pool_ok pool" "\<forall>f \<in> set fds. good f" "map bytes fds = Vs"
    and "\<forall>V \<in> set Vs. length V = m * 2 ^ k" "3 \<le> length Vs" "9 \<le> k" "\<forall>s. pid s < length Vs"
    and "cache_fits cfg (m * (2 ^ k * (length Vs - 1)))"
  shows "\<exists>hs acc h. ctransform (make_default_ops fo pool None) fds = Some (Inr hs) \<and> length hs = length Vs \<and>
    acceptor_create (2 ^ k) (map Some hs) pid = Some acc \<and>
    make_ops \<lparr>submit_rd = raidsp_target_read rwhandler, submit_wr = raidsp_target_write rwhandler\<rparr>
      (flq_composite (map raidsp_child_flush [0..<length hs])) pool cfg \<lparr>fsm = Online, backend = acc\<rparr> = Some h \<and>
    hops_good 8 (parity_dev_content (mc_content bytes)) h \<and>
    hops_content (parity_dev_content (mc_content bytes)) h = parity_volume m (2 ^ k) pid Vs"
proof -
  let ?C = "mc_content bytes"
  obtain hs where hs: "ctransform (make_default_ops fo pool None) fds = Some (Inr hs)" "\<forall>h \<in> set hs. hops_good 1 ?C h"
    "map (hops_content ?C) hs = Vs"
    using defaults_ok [OF assms(1-3)] assms(4) by auto
  have len: "length hs = length Vs" using arg_cong [OF hs(3), of length] by simp
  have "length (hops_content ?C h) = m * 2 ^ k" if "h \<in> set hs" for h
    using that assms(5) hs(3) by auto
  with hs(2) have "\<forall>h \<in> set hs. hops_good 1 ?C h \<and> length (hops_content ?C h) = m * 2 ^ k" by simp
  from parity_device [OF assms(2) this _ assms(7), of pid cfg]
  show ?thesis using hs(1,3) len assms(6,8,9) by (intro exI [of _ hs]) auto
qed

subsection \<open>From a configuration\<close>

text \<open>
  A strip size of at least a sector that is a power of two, files of one size that is a multiple of
  it, and the bytes the array then stands for; \<open>F\<close> is the content of the files.
\<close>

definition strip_ok :: "nat \<Rightarrow> bool" where
  "strip_ok n \<longleftrightarrow> (\<exists>k \<in> {9..<64}. sectors_bytes n = 2 ^ k)"

definition strips_ok :: "(string \<Rightarrow> byte list) \<Rightarrow> nat \<Rightarrow> string list \<Rightarrow> bool" where
  "strips_ok F n ps \<longleftrightarrow> strip_ok n \<and> sectors_bytes n dvd length (F (hd ps)) \<and> (\<forall>p \<in> set ps. length (F p) = length (F (hd ps)))"

definition array_volume :: "(nat \<Rightarrow> nat \<Rightarrow> nat) \<Rightarrow> (string \<Rightarrow> byte list) \<Rightarrow> nat \<Rightarrow> string list \<Rightarrow> byte list" where
  "array_volume par F n ps =
     parity_volume (length (F (hd ps)) div sectors_bytes n) (sectors_bytes n) (par (length ps)) (map F ps)"

abbreviation raid4_paths :: "raid4_cfg \<Rightarrow> string list" where
  "raid4_paths r \<equiv> r4c_data_paths r @ [r4c_parity_path r]"

definition raid4_volume :: "(string \<Rightarrow> byte list) \<Rightarrow> raid4_cfg \<Rightarrow> byte list" where
  "raid4_volume F r = array_volume raid4_parity F (r4c_strip_len_sectors r) (raid4_paths r)"

definition raid5_volume :: "(string \<Rightarrow> byte list) \<Rightarrow> raid5_cfg \<Rightarrow> byte list" where
  "raid5_volume F r = array_volume raid5_parity F (r5c_strip_len_sectors r) (r5c_paths r)"

definition raid4_ok :: "(string \<Rightarrow> byte list) \<Rightarrow> raid4_cfg \<Rightarrow> bool" where
  "raid4_ok F r \<longleftrightarrow> 3 \<le> length (raid4_paths r) \<and> strips_ok F (r4c_strip_len_sectors r) (raid4_paths r)"

definition raid5_ok :: "(string \<Rightarrow> byte list) \<Rightarrow> raid5_cfg \<Rightarrow> bool" where
  "raid5_ok F r \<longleftrightarrow> 3 \<le> length (r5c_paths r) \<and> strips_ok F (r5c_strip_len_sectors r) (r5c_paths r)"

lemma strip_okE:
  assumes "strip_ok n"
  obtains k where "9 \<le> k" "sectors_bytes n = 2 ^ k"
  using assms unfolding strip_ok_def by (elim bexE) simp

lemma strips_okD:
  assumes "strips_ok F n ps"
  obtains k where "9 \<le> k" "sectors_bytes n = 2 ^ k"
    "\<forall>V \<in> set (map F ps). length V = length (F (hd ps)) div 2 ^ k * 2 ^ k"
  using assms by (auto simp: strips_ok_def strip_ok_def)

lemma length_array_volume:
  "length (array_volume par F n ps) = length (F (hd ps)) div sectors_bytes n * (sectors_bytes n * (length ps - 1))"
  by (simp add: array_volume_def parity_volume_def sp_data_def)

lemma raid4_cfg_device:
  assumes "file_laws fo good bytes" "pool_ok pool" "opens open_dev good bytes F (raid4_paths r)" "raid4_ok F r"
    and "cache_fits cfg (length (raid4_volume F r))"
  shows "\<exists>h. raid4_from_cfg fo pool open_dev cfg r = Some (Inr h) \<and>
    hops_good 8 (parity_dev_content (mc_content bytes)) h \<and>
    hops_content (parity_dev_content (mc_content bytes)) h = raid4_volume F r"
proof -
  obtain k where k: "9 \<le> k" "sectors_bytes (r4c_strip_len_sectors r) = 2 ^ k"
    "\<forall>V \<in> set (map F (raid4_paths r)). length V = length (F (hd (raid4_paths r))) div 2 ^ k * 2 ^ k"
    using assms(4) strips_okD unfolding raid4_ok_def by metis
  obtain fds fd where f: "open_all open_dev (r4c_data_paths r) = Some (Inr fds)" "open_dev (r4c_parity_path r) = Inr fd"
    "\<forall>f \<in> set (fds @ [fd]). good f" "map bytes (fds @ [fd]) = map F (raid4_paths r)"
    using open_all_snoc [OF assms(3)] by auto
  have l: "3 \<le> length (map F (raid4_paths r))" "\<forall>s. raid4_parity (length (raid4_paths r)) s < length (map F (raid4_paths r))"
    using assms(4) raid_parity_range by (auto simp: raid4_ok_def)
  have c: "cache_fits cfg (length (F (hd (raid4_paths r))) div 2 ^ k * (2 ^ k * (length (map F (raid4_paths r)) - 1)))"
    using assms(5) by (simp only: raid4_volume_def length_array_volume k(2) length_map)
  from parity_files_device [OF assms(1,2) f(3,4) k(3) l(1) k(1) l(2) c] show ?thesis
    using f(1,2) k(2) by (auto simp: raid4_from_cfg_def make_raid4_ops_def raid4_create_def raid4_rdq_submit_def raid4_wrq_submit_def
        raid4_volume_def array_volume_def)
qed

lemma raid5_cfg_device:
  assumes "file_laws fo good bytes" "pool_ok pool" "opens open_dev good bytes F (r5c_paths r)" "raid5_ok F r"
    and "cache_fits cfg (length (raid5_volume F r))"
  shows "\<exists>h. raid5_from_cfg fo pool open_dev cfg r = Some (Inr h) \<and>
    hops_good 8 (parity_dev_content (mc_content bytes)) h \<and>
    hops_content (parity_dev_content (mc_content bytes)) h = raid5_volume F r"
proof -
  obtain k where k: "9 \<le> k" "sectors_bytes (r5c_strip_len_sectors r) = 2 ^ k"
    "\<forall>V \<in> set (map F (r5c_paths r)). length V = length (F (hd (r5c_paths r))) div 2 ^ k * 2 ^ k"
    using assms(4) strips_okD unfolding raid5_ok_def by metis
  obtain fds where f: "open_all open_dev (r5c_paths r) = Some (Inr fds)" "\<forall>f \<in> set fds. good f"
    "map bytes fds = map F (r5c_paths r)"
    using open_all_ok [OF assms(3)] by blast
  have "0 < length (r5c_paths r)" using assms(4) unfolding raid5_ok_def by linarith
  then have l: "3 \<le> length (map F (r5c_paths r))" "\<forall>s. raid5_parity (length (r5c_paths r)) s < length (map F (r5c_paths r))"
    using assms(4) raid_parity_range(2) by (simp_all add: raid5_ok_def)
  have c: "cache_fits cfg (length (F (hd (r5c_paths r))) div 2 ^ k * (2 ^ k * (length (map F (r5c_paths r)) - 1)))"
    using assms(5) by (simp only: raid5_volume_def length_array_volume k(2) length_map)
  from parity_files_device [OF assms(1,2) f(2,3) k(3) l(1) k(1) l(2) c] show ?thesis
    using f(1) k(2) by (auto simp: raid5_from_cfg_def make_raid5_ops_def raid5_create_def raid5_rdq_submit_def raid5_wrq_submit_def
        raid5_volume_def array_volume_def)
qed

subsection \<open>Stripes over arrays\<close>

text \<open>Parts of one size that is a whole number of strips.\<close>

definition parts_ok :: "nat \<Rightarrow> byte list list \<Rightarrow> bool" where
  "parts_ok n Vs \<longleftrightarrow> Vs \<noteq> [] \<and> strip_ok n \<and> sectors_bytes n dvd length (hd Vs) \<and> (\<forall>V \<in> set Vs. length V = length (hd Vs))"

definition stripe_volume :: "nat \<Rightarrow> byte list list \<Rightarrow> byte list" where
  "stripe_volume n Vs = striped (length (hd Vs) div sectors_bytes n) (sectors_bytes n) Vs"

lemma length_stripe_volume:
  "length (stripe_volume n Vs) = length (hd Vs) div sectors_bytes n * length Vs * sectors_bytes n"
  by (simp add: stripe_volume_def striped_def raid0_volume_def)

lemma stripe_device:
  assumes "pool_ok pool" "\<forall>h \<in> set hs. hops_good al content h" "map (hops_content content) hs = Vs"
    and "parts_ok n Vs" "al = 1 \<or> al = 8" "cache_fits cfg (length (stripe_volume n Vs))"
  shows "\<exists>h content'. make_raid0_ops pool (sectors_bytes n) cfg hs = Some (Inr h) \<and> hops_good al content' h \<and>
    hops_content content' h = stripe_volume n Vs"
proof -
  have "strip_ok n" using assms(4) by (simp add: parts_ok_def)
  then obtain k where k: "9 \<le> k" "sectors_bytes n = 2 ^ k" by (rule strip_okE)
  let ?m = "length (hd Vs) div 2 ^ k"
  have ne: "Vs \<noteq> []" using assms(4) by (simp add: parts_ok_def)
  have len: "length hs = length Vs" using arg_cong [OF assms(3), of length] by simp
  then have hs: "hs \<noteq> []" "length hs = length Vs" using ne by auto
  have "length (hops_content content h) = ?m * 2 ^ k" if "h \<in> set hs" for h
  proof -
    have "hops_content content h \<in> set Vs" using that unfolding assms(3) [symmetric] by simp
    then have "length (hops_content content h) = length (hd Vs)" "2 ^ k dvd length (hd Vs)"
      using assms(4) unfolding parts_ok_def k(2) by blast+
    then show ?thesis by simp
  qed
  then have ok: "disks_ok (hops_good al content) (hops_content content) ?m (2 ^ k) hs"
    using assms(2) hs(1) by (simp add: disks_ok_def)
  have "(2 :: nat) ^ 3 dvd 2 ^ k" using k(1) by (intro le_imp_power_dvd) simp
  then have al: "al dvd 512" "al dvd 2 ^ k" using assms(5) by auto
  have c: "cache_fits cfg (?m * length hs * 2 ^ k)" using assms(6) hs(2) by (simp add: length_stripe_volume k(2))
  from raid0_device [OF assms(1) ok c al] show ?thesis
    using k(2) assms(3) by (simp add: raid0_volume_striped stripe_volume_def)
qed

lemma raid40_device:
  assumes "file_laws fo good bytes" "pool_ok pool"
    and "\<forall>r \<in> set rs. opens open_dev good bytes F (raid4_paths r) \<and> raid4_ok F r"
    and "parts_ok n (map (raid4_volume F) rs)" "cache_fits cfg (length (stripe_volume n (map (raid4_volume F) rs)))"
  shows "\<exists>h content'. raid40_from_cfg fo pool open_dev cfg n rs = Some (Inr h) \<and> hops_good 8 content' h \<and>
    hops_content content' h = stripe_volume n (map (raid4_volume F) rs)"
proof -
  let ?C = "parity_dev_content (mc_content bytes)"
  have "\<forall>r \<in> set rs. \<exists>h. raid4_from_cfg fo pool open_dev None r = Some (Inr h) \<and> hops_good 8 ?C h \<and> hops_content ?C h = raid4_volume F r"
    using raid4_cfg_device [OF assms(1,2), where cfg = None] assms(3) by (simp add: cache_fits_def)
  from ctransform_related [OF this] obtain hs where hs: "ctransform (raid4_from_cfg fo pool open_dev None) rs = Some (Inr hs)"
    "\<forall>h \<in> set hs. hops_good 8 ?C h" "map (hops_content ?C) hs = map (raid4_volume F) rs" by blast
  from stripe_device [OF assms(2) hs(2,3) assms(4) _ assms(5)] hs(1) show ?thesis
    by (simp add: raid40_from_cfg_def)
qed

lemma raid50_device:
  assumes "file_laws fo good bytes" "pool_ok pool"
    and "\<forall>r \<in> set rs. opens open_dev good bytes F (r5c_paths r) \<and> raid5_ok F r"
    and "parts_ok n (map (raid5_volume F) rs)" "cache_fits cfg (length (stripe_volume n (map (raid5_volume F) rs)))"
  shows "\<exists>h content'. raid50_from_cfg fo pool open_dev cfg n rs = Some (Inr h) \<and> hops_good 8 content' h \<and>
    hops_content content' h = stripe_volume n (map (raid5_volume F) rs)"
proof -
  let ?C = "parity_dev_content (mc_content bytes)"
  have "\<forall>r \<in> set rs. \<exists>h. raid5_from_cfg fo pool open_dev None r = Some (Inr h) \<and> hops_good 8 ?C h \<and> hops_content ?C h = raid5_volume F r"
    using raid5_cfg_device [OF assms(1,2), where cfg = None] assms(3) by (simp add: cache_fits_def)
  from ctransform_related [OF this] obtain hs where hs: "ctransform (raid5_from_cfg fo pool open_dev None) rs = Some (Inr hs)"
    "\<forall>h \<in> set hs. hops_good 8 ?C h" "map (hops_content ?C) hs = map (raid5_volume F) rs" by blast
  from stripe_device [OF assms(2) hs(2,3) assms(4) _ assms(5)] hs(1) show ?thesis
    by (simp add: raid50_from_cfg_def)
qed

text \<open>Mirrors, as parts of a stripe or alone, and a stripe over files.\<close>

definition raid1_ok :: "(string \<Rightarrow> byte list) \<Rightarrow> raid1_cfg \<Rightarrow> bool" where
  "raid1_ok F r \<longleftrightarrow> 2 \<le> length (r1c_paths r) \<and> r1c_read_strip_len_sectors r \<le> max_sectors \<and>
     (\<forall>p \<in> set (r1c_paths r). F p = F (hd (r1c_paths r)))"

definition raid1_volume :: "(string \<Rightarrow> byte list) \<Rightarrow> raid1_cfg \<Rightarrow> byte list" where
  "raid1_volume F r = F (hd (r1c_paths r))"

lemma mirror_opens:
  "opens open_dev good bytes F (r1c_paths r) \<Longrightarrow> raid1_ok F r \<Longrightarrow> opens open_dev good bytes (\<lambda>_. raid1_volume F r) (r1c_paths r)"
  by (auto simp: opens_def raid1_ok_def raid1_volume_def)

lemma mirrors_device:
  assumes "file_laws fo good bytes" "pool_ok pool"
    and "\<forall>r \<in> set rs. opens open_dev good bytes F (r1c_paths r) \<and> raid1_ok F r"
    and "parts_ok n (map (raid1_volume F) rs)" "cache_fits cfg (length (stripe_volume n (map (raid1_volume F) rs)))"
  shows "\<exists>h content'. raid10_from_cfg fo pool open_dev cfg n rs = Some (Inr h) \<and> hops_good 1 content' h \<and>
    hops_content content' h = stripe_volume n (map (raid1_volume F) rs)"
proof -
  let ?C = "mirror_content bytes"
  have "\<exists>h. raid1_from_cfg fo pool open_dev None r = Some (Inr h) \<and> hops_good 1 ?C h \<and> hops_content ?C h = raid1_volume F r"
    if "r \<in> set rs" for r
  proof (rule raid1_cfg_device [OF assms(1,2)])
    show "opens open_dev good bytes (\<lambda>_. raid1_volume F r) (r1c_paths r)" using mirror_opens assms(3) that by blast
  qed (use assms(3) that in \<open>simp_all add: raid1_ok_def cache_fits_def\<close>)
  then have "\<forall>r \<in> set rs. \<exists>h. raid1_from_cfg fo pool open_dev None r = Some (Inr h) \<and> hops_good 1 ?C h \<and> hops_content ?C h = raid1_volume F r"
    by blast
  from ctransform_related [OF this] obtain hs where hs: "ctransform (raid1_from_cfg fo pool open_dev None) rs = Some (Inr hs)"
    "\<forall>h \<in> set hs. hops_good 1 ?C h" "map (hops_content ?C) hs = map (raid1_volume F) rs" by blast
  from stripe_device [OF assms(2) hs(2,3) assms(4) _ assms(5)] hs(1) show ?thesis
    by (simp add: raid10_from_cfg_def)
qed

lemma raid0_cfg_device:
  assumes "file_laws fo good bytes" "pool_ok pool" "opens open_dev good bytes F (r0c_paths r)"
    and "parts_ok (r0c_strip_len_sectors r) (map F (r0c_paths r))"
    and "cache_fits cfg (length (stripe_volume (r0c_strip_len_sectors r) (map F (r0c_paths r))))"
  shows "\<exists>h content'. raid0_from_cfg fo pool open_dev cfg r = Some (Inr h) \<and> hops_good 1 content' h \<and>
    hops_content content' h = stripe_volume (r0c_strip_len_sectors r) (map F (r0c_paths r))"
proof -
  obtain fds where f: "open_all open_dev (r0c_paths r) = Some (Inr fds)" "\<forall>f \<in> set fds. good f" "map bytes fds = map F (r0c_paths r)"
    using open_all_ok [OF assms(3)] by blast
  obtain hs where hs: "ctransform (make_default_ops fo pool None) fds = Some (Inr hs)"
    "\<forall>h \<in> set hs. hops_good 1 (mc_content bytes) h"
    "map (hops_content (mc_content bytes)) hs = map F (r0c_paths r)"
    using defaults_ok [OF assms(1,2) f(2)] f(3) by auto
  from stripe_device [OF assms(2) hs(2,3) assms(4) _ assms(5)] f(1) hs(1) show ?thesis
    by (simp add: raid0_from_cfg_def make_raid0_fds_def)
qed

text \<open>
  A RAID4 or RAID5 device made from a configuration without a cache is one flat array of bytes for requests in
  multiples of eight bytes: \<open>Master::create\<close> builds it whenever there are at least three files of equal size and a power of
  two as strip size, and every sequence of reads and writes inside it is served without an error exactly as by the
  data strips of the files.
\<close>

theorem parity_arrays_serve:
  assumes "file_laws fo good bytes" "pool_ok pool" "opens open_dev good bytes V ps"
    and "r4c_data_paths r4 @ [r4c_parity_path r4] = ps" "r5c_paths r5 = ps"
    and "sectors_bytes (r4c_strip_len_sectors r4) = 2 ^ k" "sectors_bytes (r5c_strip_len_sectors r5) = 2 ^ k"
    and "\<forall>p \<in> set ps. length (V p) = m * 2 ^ k" "3 \<le> length ps" "9 \<le> k"
    and "\<forall>q \<in> set qs. fits 8 (m * (2 ^ k * (length ps - 1))) q"
  shows "(\<exists>h. raid4_from_cfg fo pool open_dev None r4 = Some (Inr h) \<and>
      serve h qs = Some (flat_serve (parity_volume m (2 ^ k) (raid4_parity (length ps)) (map V ps)) qs)) \<and>
    (\<exists>h. raid5_from_cfg fo pool open_dev None r5 = Some (Inr h) \<and>
      serve h qs = Some (flat_serve (parity_volume m (2 ^ k) (raid5_parity (length ps)) (map V ps)) qs))"
proof
  have ne: "0 < length ps" using assms(9) by linarith
  have Vs: "\<forall>W \<in> set (map V ps). length W = m * 2 ^ k" "3 \<le> length (map V ps)"
    "\<forall>q \<in> set qs. fits 8 (m * (2 ^ k * (length (map V ps) - 1))) q"
    "\<forall>s. raid4_parity (length ps) s < length (map V ps)" "\<forall>s. raid5_parity (length ps) s < length (map V ps)"
    using assms(8,9,11) raid_parity_range [OF ne] by auto
  obtain fds fd where f4: "open_all open_dev (r4c_data_paths r4) = Some (Inr fds)" "open_dev (r4c_parity_path r4) = Inr fd"
    "\<forall>f \<in> set (fds @ [fd]). good f" "map bytes (fds @ [fd]) = map V ps"
    using open_all_snoc [of open_dev good bytes V "r4c_data_paths r4" "r4c_parity_path r4"] assms(3,4) by auto
  obtain fds' where f5: "open_all open_dev ps = Some (Inr fds')" "\<forall>f \<in> set fds'. good f" "map bytes fds' = map V ps"
    using open_all_ok [OF assms(3)] by blast
  have n: "cache_fits None x" for x by (simp add: cache_fits_def)
  have sv: "serve h qs = Some (flat_serve (parity_volume m (2 ^ k) pid (map V ps)) qs)"
    if "hops_good 8 content' h" "hops_content content' h = parity_volume m (2 ^ k) pid (map V ps)" for h content' pid
    using hops_serve [OF that(1), of qs] that(2) assms(11) by (simp add: parity_volume_def sp_data_def)
  show "\<exists>h. raid4_from_cfg fo pool open_dev None r4 = Some (Inr h) \<and>
      serve h qs = Some (flat_serve (parity_volume m (2 ^ k) (raid4_parity (length ps)) (map V ps)) qs)"
    using parity_files_device [OF assms(1,2) f4(3,4) Vs(1,2) assms(10) Vs(4) n] f4(1,2) assms(6)
    by (auto intro: sv simp: raid4_from_cfg_def make_raid4_ops_def raid4_create_def raid4_rdq_submit_def raid4_wrq_submit_def)
  show "\<exists>h. raid5_from_cfg fo pool open_dev None r5 = Some (Inr h) \<and>
      serve h qs = Some (flat_serve (parity_volume m (2 ^ k) (raid5_parity (length ps)) (map V ps)) qs)"
    using parity_files_device [OF assms(1,2) f5(2,3) Vs(1,2) assms(10) Vs(5) n] f5(1)
    by (auto intro: sv simp: assms(5,7) raid5_from_cfg_def make_raid5_ops_def raid5_create_def raid5_rdq_submit_def raid5_wrq_submit_def)
qed

lemma parity_arrays_serve_witness:
  "\<exists>h. raid5_from_cfg list_file demo_pool demo_open None \<lparr>r5c_strip_len_sectors = 1, r5c_paths = [''a'', ''b'', ''c'']\<rparr>
      = Some (Inr h) \<and>
    serve h [Wr 512 (replicate 8 7), Rd 512 (replicate 8 0)] = Some [(0, 0, []), (0, 0, replicate 8 7)]"
proof -
  let ?V = "\<lambda>p. replicate 512 (if p \<in> {''a'', ''b''} then 1 else 2) :: byte list" and ?ps = "[''a'', ''b'', ''c'']"
  let ?qs = "[Wr 512 (replicate 8 7), Rd 512 (replicate 8 0)]"
  have o: "opens demo_open (\<lambda>_. True) (\<lambda>f. f) ?V ?ps" by (simp add: opens_def demo_open_def)
  let ?W = "parity_volume 1 512 (raid5_parity (length ?ps)) (map ?V ?ps)"
    and ?r4 = "\<lparr>r4c_strip_len_sectors = 1, r4c_data_paths = [''a'', ''b''], r4c_parity_path = ''c''\<rparr>"
    and ?r5 = "\<lparr>r5c_strip_len_sectors = 1, r5c_paths = ?ps\<rparr>"
  have "\<exists>h. raid5_from_cfg list_file demo_pool demo_open None ?r5 = Some (Inr h) \<and>
      serve h ?qs = Some (flat_serve (parity_volume 1 (2 ^ 9) (raid5_parity (length ?ps)) (map ?V ?ps)) ?qs)"
    by (rule conjunct2 [OF parity_arrays_serve [OF list_file_laws demo_pool_ok o, of ?r4 ?r5 9 1 ?qs]])
      (simp_all add: sectors_bytes_def)
  then obtain h where h: "raid5_from_cfg list_file demo_pool demo_open None ?r5 = Some (Inr h)"
    "serve h ?qs = Some (flat_serve ?W ?qs)" by (auto simp del: serve_on.simps flat_serve.simps)
  have "length ?W = 1024" by (simp add: parity_volume_def sp_data_def)
  then have "flat_serve ?W ?qs = [(0, 0, []), (0, 0, replicate 8 7)]"
    by (simp add: subspan_copy_at_same)
  with h show ?thesis by auto
qed

end
