(* ===== verification/Served_Devices.thy ===== *)
theory Served_Devices
  imports Master Parity_Stack
begin

text \<open>
  What \<open>Master::create\<close> (\<open>ublk/master.cpp\<close>) promises of a configuration of any kind: the bytes the
  device stands for, as a function of the configuration and the contents of the files it names, and
  that the device it builds serves them.
\<close>

subsection \<open>What a configuration stands for\<close>

text \<open>\<open>F\<close> is the content of the files.  A null target stores nothing and is not a working device.\<close>

fun cfg_paths :: "target_cfg \<Rightarrow> string list" where
  "cfg_paths NullCfg = []"
| "cfg_paths InmemCfg = []"
| "cfg_paths (DefaultCfg p) = [p]"
| "cfg_paths (Raid0Cfg r) = r0c_paths r"
| "cfg_paths (Raid1Cfg r) = r1c_paths r"
| "cfg_paths (Raid4Cfg r) = raid4_paths r"
| "cfg_paths (Raid5Cfg r) = r5c_paths r"
| "cfg_paths (Raid10Cfg n rs) = concat (map r1c_paths rs)"
| "cfg_paths (Raid40Cfg n rs) = concat (map raid4_paths rs)"
| "cfg_paths (Raid50Cfg n rs) = concat (map r5c_paths rs)"

fun cfg_ok :: "(string \<Rightarrow> byte list) \<Rightarrow> target_cfg \<Rightarrow> bool" where
  "cfg_ok F NullCfg \<longleftrightarrow> False"
| "cfg_ok F InmemCfg \<longleftrightarrow> True"
| "cfg_ok F (DefaultCfg p) \<longleftrightarrow> True"
| "cfg_ok F (Raid0Cfg r) \<longleftrightarrow> parts_ok (r0c_strip_len_sectors r) (map F (r0c_paths r))"
| "cfg_ok F (Raid1Cfg r) \<longleftrightarrow> raid1_ok F r"
| "cfg_ok F (Raid4Cfg r) \<longleftrightarrow> raid4_ok F r"
| "cfg_ok F (Raid5Cfg r) \<longleftrightarrow> raid5_ok F r"
| "cfg_ok F (Raid10Cfg n rs) \<longleftrightarrow> (\<forall>r \<in> set rs. raid1_ok F r) \<and> parts_ok n (map (raid1_volume F) rs)"
| "cfg_ok F (Raid40Cfg n rs) \<longleftrightarrow> (\<forall>r \<in> set rs. raid4_ok F r) \<and> parts_ok n (map (raid4_volume F) rs)"
| "cfg_ok F (Raid50Cfg n rs) \<longleftrightarrow> (\<forall>r \<in> set rs. raid5_ok F r) \<and> parts_ok n (map (raid5_volume F) rs)"

fun cfg_volume :: "(string \<Rightarrow> byte list) \<Rightarrow> nat \<Rightarrow> target_cfg \<Rightarrow> byte list" where
  "cfg_volume F cap NullCfg = []"
| "cfg_volume F cap InmemCfg = replicate (sectors_bytes cap) 0"
| "cfg_volume F cap (DefaultCfg p) = F p"
| "cfg_volume F cap (Raid0Cfg r) = stripe_volume (r0c_strip_len_sectors r) (map F (r0c_paths r))"
| "cfg_volume F cap (Raid1Cfg r) = raid1_volume F r"
| "cfg_volume F cap (Raid4Cfg r) = raid4_volume F r"
| "cfg_volume F cap (Raid5Cfg r) = raid5_volume F r"
| "cfg_volume F cap (Raid10Cfg n rs) = stripe_volume n (map (raid1_volume F) rs)"
| "cfg_volume F cap (Raid40Cfg n rs) = stripe_volume n (map (raid4_volume F) rs)"
| "cfg_volume F cap (Raid50Cfg n rs) = stripe_volume n (map (raid5_volume F) rs)"

text \<open>Parity is computed over words, so the arrays with parity take requests in multiples of eight bytes.\<close>

fun cfg_align :: "target_cfg \<Rightarrow> nat" where
  "cfg_align (Raid4Cfg r) = 8"
| "cfg_align (Raid5Cfg r) = 8"
| "cfg_align (Raid40Cfg n rs) = 8"
| "cfg_align (Raid50Cfg n rs) = 8"
| "cfg_align cfg = 1"

definition dev_ops :: "'f any_dev rw_handler" where
  "dev_ops = \<lparr>submit_rd = dev_read, submit_wr = dev_write\<rparr>"

subsection \<open>Every configuration gives a working device\<close>

text \<open>A device keeps its contract under the constructor that tags it.\<close>

lemma tagged_dev:
  assumes "\<And>s t. K s = K t \<Longrightarrow> s = t" "flush_dev al ops good content fl" "good s"
    and "\<And>s off buf. dev_read off buf (K s) = lift_rd K (submit_rd ops off buf s)"
    and "\<And>s off buf. dev_write off buf (K s) = lift_wr K (submit_wr ops off buf s)"
    and "\<And>s. dev_flush (K s) = lift_wr K (fl s)"
  shows "\<exists>G C. flush_dev al dev_ops G C dev_flush \<and> G (K s) \<and> C (K s) = content s"
proof (intro exI conjI)
  have i: "inv K (K t) = t" for t by (rule inv_f_f) (use assms(1) in \<open>auto intro: injI\<close>)
  show "flush_dev al dev_ops (\<lambda>d. \<exists>t. d = K t \<and> good t) (\<lambda>d. content (inv K d)) dev_flush"
  proof
    fix d and buf :: "byte list" and off
    assume d: "\<exists>t. d = K t \<and> good t" "buf \<noteq> []" "off + length buf \<le> length (content (inv K d))" "al dvd off" "al dvd length buf"
    then obtain t where t: "d = K t" "good t" by blast
    have le: "off + length buf \<le> length (content t)" using d(3) by (simp add: t(1) i)
    from aligned_dev.aligned_read_law [OF flush_dev.axioms(1) [OF assms(2)] t(2) d(2) le d(4,5)]
    show "\<exists>d'. submit_rd dev_ops off buf d = Some (0, 0, subspan (content (inv K d)) off (length buf), d') \<and>
        (\<exists>t. d' = K t \<and> good t) \<and> content (inv K d') = content (inv K d)"
      by (auto simp: dev_ops_def assms(4) lift_rd_def t(1) i)
    from aligned_dev.aligned_write_law [OF flush_dev.axioms(1) [OF assms(2)] t(2) d(2) le d(4,5)]
    show "\<exists>d'. submit_wr dev_ops off buf d = Some (0, 0, d') \<and> (\<exists>t. d' = K t \<and> good t) \<and>
        content (inv K d') = copy_at (content (inv K d)) off buf"
      by (auto simp: dev_ops_def assms(5) lift_wr_def t(1) i)
  next
    show "flush_keeps dev_flush (\<lambda>d. \<exists>t. d = K t \<and> good t) (\<lambda>d. content (inv K d))"
      unfolding flush_keeps_def
    proof (intro allI impI)
      fix d assume "\<exists>t. d = K t \<and> good t"
      then obtain t where t: "d = K t" "good t" by blast
      obtain r t' where "fl t = Some (r, 0, t')" "good t'" "content t' = content t"
        using flush_dev.flush_law [OF assms(2)] t(2) unfolding flush_keeps_def by blast
      then show "\<exists>r d'. dev_flush d = Some (r, 0, d') \<and> (\<exists>t. d' = K t \<and> good t) \<and> content (inv K d') = content (inv K d)"
        by (auto simp: t(1) assms(6) lift_wr_def i)
    qed
  qed
  show "\<exists>t. K s = K t \<and> good t" using assms(3) by blast
  show "content (inv K (K s)) = content s" by (simp add: i)
qed

lemma tagged_hops:
  assumes "\<And>s t. K s = K t \<Longrightarrow> s = t"
    and "\<And>s off buf. dev_read off buf (K s) = lift_rd K (rwh_submit_rd off buf s)"
    and "\<And>s off buf. dev_write off buf (K s) = lift_wr K (rwh_submit_wr off buf s)"
    and "\<And>s. dev_flush (K s) = lift_wr K (ho_flush s)"
    and "made = Some (Inr h)" "hops_good al content h" "hops_content content h = V"
  shows "\<exists>d G C. cmap K made = Some (Inr d) \<and> flush_dev al dev_ops G C dev_flush \<and> G d \<and> C d = V"
  using tagged_dev [of K, OF assms(1) hops_flush_dev assms(6)] assms(2-5,7) by (auto simp: rwhandler_def cmap_def)

lemma make_device_good:
  assumes "file_laws (wd_fo w) good bytes" "pool_ok (wd_pool w)" "opens (wd_open w) good bytes F (cfg_paths cfg)" "cfg_ok F cfg"
    and "cfg = InmemCfg \<longrightarrow> wd_alloc w (sectors_bytes cap)"
    and "cfg \<noteq> InmemCfg \<longrightarrow> cache_fits cache (length (cfg_volume F cap cfg))"
  shows "\<exists>d G C. make_device w cap cache cfg = Some (Inr d) \<and> flush_dev (cfg_align cfg) dev_ops G C dev_flush \<and> G d \<and>
    C d = cfg_volume F cap cfg"
proof (cases cfg)
  case NullCfg
  then show ?thesis using assms(4) by simp
next
  case InmemCfg
  let ?t = "\<lparr>mem = replicate (sectors_bytes cap) 0, mem_sz = sectors_bytes cap\<rparr>"
  have "sectors_bytes cap < u64_limit" by (simp add: sectors_bytes_def)
  then have g: "inmem_good ?t" by (simp add: inmem_good_def)
  have "flush_dev 1 inmem_ops inmem_good mem null_flush"
    using inmem.aligned.aligned_dev_axioms by (simp add: flush_dev_def flush_dev_axioms_def flush_keeps_def null_flush_def)
  from tagged_dev [of InmemDev, OF _ this g]
  have "\<exists>G C. flush_dev 1 dev_ops G C dev_flush \<and> G (InmemDev ?t) \<and> C (InmemDev ?t) = mem ?t"
    by (simp add: inmem_ops_def inmem_rdq_submit_def inmem_wrq_submit_def null_flush_def lift_wr_def)
  then show ?thesis using InmemCfg assms(5) by (simp add: inmem_create_def expects_def Let_def)
next
  case (DefaultCfg p)
  then obtain f where f: "wd_open w p = Inr f" "good f" "bytes f = F p" using assms(3) by (auto simp: opens_def)
  obtain h where h: "make_default_ops (wd_fo w) (wd_pool w) cache f = Some (Inr h)"
    "hops_good 1 (mc_content bytes) h" "hops_content (mc_content bytes) h = bytes f"
    using default_device [OF assms(1,2) f(2), of cache] assms(6) DefaultCfg f(3) by auto
  from tagged_hops [of FileDev, OF _ _ _ _ h(1,2)] show ?thesis using DefaultCfg f(1,3) h(3) by simp
next
  case (Raid0Cfg r)
  then have r: "opens (wd_open w) good bytes F (r0c_paths r)" "parts_ok (r0c_strip_len_sectors r) (map F (r0c_paths r))"
    "cache_fits cache (length (stripe_volume (r0c_strip_len_sectors r) (map F (r0c_paths r))))"
    using assms(3,4,6) by simp_all
  from raid0_cfg_device [OF assms(1,2) r] obtain h C where
    h: "raid0_from_cfg (wd_fo w) (wd_pool w) (wd_open w) cache r = Some (Inr h)" "hops_good 1 C h"
      "hops_content C h = stripe_volume (r0c_strip_len_sectors r) (map F (r0c_paths r))" by blast
  from tagged_hops [of Raid0Dev, OF _ _ _ _ h] show ?thesis using Raid0Cfg by simp
next
  case (Raid1Cfg r)
  then have r: "opens (wd_open w) good bytes (\<lambda>_. raid1_volume F r) (r1c_paths r)" "2 \<le> length (r1c_paths r)"
    "r1c_read_strip_len_sectors r \<le> max_sectors" "cache_fits cache (length (raid1_volume F r))"
    using assms(3,4,6) mirror_opens [of "wd_open w" good bytes F r] by (simp_all add: raid1_ok_def)
  from raid1_cfg_device [OF assms(1,2) r] obtain h C where
    h: "raid1_from_cfg (wd_fo w) (wd_pool w) (wd_open w) cache r = Some (Inr h)" "hops_good 1 C h"
      "hops_content C h = raid1_volume F r" by blast
  from tagged_hops [of Raid1Dev, OF _ _ _ _ h] show ?thesis using Raid1Cfg by simp
next
  case (Raid4Cfg r)
  then have r: "opens (wd_open w) good bytes F (raid4_paths r)" "raid4_ok F r" "cache_fits cache (length (raid4_volume F r))"
    using assms(3,4,6) by simp_all
  from raid4_cfg_device [OF assms(1,2) r] obtain h C where
    h: "raid4_from_cfg (wd_fo w) (wd_pool w) (wd_open w) cache r = Some (Inr h)" "hops_good 8 C h"
      "hops_content C h = raid4_volume F r" by blast
  from tagged_hops [of ParityDev, OF _ _ _ _ h] show ?thesis using Raid4Cfg by simp
next
  case (Raid5Cfg r)
  then have r: "opens (wd_open w) good bytes F (r5c_paths r)" "raid5_ok F r" "cache_fits cache (length (raid5_volume F r))"
    using assms(3,4,6) by simp_all
  from raid5_cfg_device [OF assms(1,2) r] obtain h C where
    h: "raid5_from_cfg (wd_fo w) (wd_pool w) (wd_open w) cache r = Some (Inr h)" "hops_good 8 C h"
      "hops_content C h = raid5_volume F r" by blast
  from tagged_hops [of ParityDev, OF _ _ _ _ h] show ?thesis using Raid5Cfg by simp
next
  case (Raid10Cfg n rs)
  then have r: "\<forall>r \<in> set rs. opens (wd_open w) good bytes F (r1c_paths r) \<and> raid1_ok F r" "parts_ok n (map (raid1_volume F) rs)"
    "cache_fits cache (length (stripe_volume n (map (raid1_volume F) rs)))"
    using assms(3,4,6) by (auto simp: opens_def)
  from mirrors_device [OF assms(1,2) r] obtain h C where
    h: "raid10_from_cfg (wd_fo w) (wd_pool w) (wd_open w) cache n rs = Some (Inr h)" "hops_good 1 C h"
      "hops_content C h = stripe_volume n (map (raid1_volume F) rs)" by blast
  from tagged_hops [of Raid10Dev, OF _ _ _ _ h] show ?thesis using Raid10Cfg by simp
next
  case (Raid40Cfg n rs)
  then have r: "\<forall>r \<in> set rs. opens (wd_open w) good bytes F (raid4_paths r) \<and> raid4_ok F r" "parts_ok n (map (raid4_volume F) rs)"
    "cache_fits cache (length (stripe_volume n (map (raid4_volume F) rs)))"
    using assms(3,4,6) by (auto simp: opens_def)
  from raid40_device [OF assms(1,2) r] obtain h C where
    h: "raid40_from_cfg (wd_fo w) (wd_pool w) (wd_open w) cache n rs = Some (Inr h)" "hops_good 8 C h"
      "hops_content C h = stripe_volume n (map (raid4_volume F) rs)" by blast
  from tagged_hops [of Raid40Dev, OF _ _ _ _ h] show ?thesis using Raid40Cfg by simp
next
  case (Raid50Cfg n rs)
  then have r: "\<forall>r \<in> set rs. opens (wd_open w) good bytes F (r5c_paths r) \<and> raid5_ok F r" "parts_ok n (map (raid5_volume F) rs)"
    "cache_fits cache (length (stripe_volume n (map (raid5_volume F) rs)))"
    using assms(3,4,6) by (auto simp: opens_def)
  from raid50_device [OF assms(1,2) r] obtain h C where
    h: "raid50_from_cfg (wd_fo w) (wd_pool w) (wd_open w) cache n rs = Some (Inr h)" "hops_good 8 C h"
      "hops_content C h = stripe_volume n (map (raid5_volume F) rs)" by blast
  from tagged_hops [of Raid40Dev, OF _ _ _ _ h] show ?thesis using Raid50Cfg by simp
qed

text \<open>
  C2. For a configuration of any kind but the null target, with or without a cache, \<open>Master::create\<close> builds a device, and
  every sequence of reads and writes inside it is served without an error exactly as by one flat array of bytes: zeroes for
  memory, the file, the interleaving of the files or of the mirrors, the data strips of a parity array, or the interleaving
  of the data of several such arrays, whatever their shapes.  Arrays with parity take requests in multiples of eight bytes.
\<close>

theorem every_target_serves:
  assumes "file_laws (wd_fo w) good bytes" "pool_ok (wd_pool w)" "opens (wd_open w) good bytes F (cfg_paths cfg)" "cfg_ok F cfg"
    and "cfg = InmemCfg \<longrightarrow> wd_alloc w (sectors_bytes cap)"
    and "cfg \<noteq> InmemCfg \<longrightarrow> cache_fits cache (length (cfg_volume F cap cfg))"
  shows "\<exists>d. make_device w cap cache cfg = Some (Inr d) \<and>
    (\<forall>qs. (\<forall>q \<in> set qs. fits (cfg_align cfg) (length (cfg_volume F cap cfg)) q) \<longrightarrow>
      serve_on dev_ops d qs = Some (flat_serve (cfg_volume F cap cfg) qs))"
proof -
  obtain d G C where d: "make_device w cap cache cfg = Some (Inr d)" "flush_dev (cfg_align cfg) dev_ops G C dev_flush" "G d"
    "C d = cfg_volume F cap cfg"
    using make_device_good [OF assms] by blast
  then show ?thesis using aligned_dev.aligned_serve [OF flush_dev.axioms(1) [OF d(2)] d(3)] by auto
qed

text \<open>Two arrays of three files each, of one strip per file, striped, with a cache of one sector.\<close>

definition demo_raid50 :: target_cfg where
  "demo_raid50 = Raid50Cfg 1 [\<lparr>r5c_strip_len_sectors = 1, r5c_paths = [''a'', ''b'', ''c'']\<rparr>,
     \<lparr>r5c_strip_len_sectors = 1, r5c_paths = [''d'', ''e'', ''f'']\<rparr>]"

definition demo_cache :: "cache_cfg option" where
  "demo_cache = Some \<lparr>len_sectors = 1, write_through_enable = True\<rparr>"

definition demo_files :: "string \<Rightarrow> byte list" where
  "demo_files p = replicate 512 (if p \<in> {''a'', ''b''} then 1 else 2)"

lemma demo_cache_fits: "512 dvd n \<Longrightarrow> cache_fits demo_cache n"
  by (simp add: cache_fits_def demo_cache_def make_cache_def make_cache_loop.simps lru_create_def strips_round_up_def)

lemma demo_raid50_ok:
  "opens (wd_open demo_world) (\<lambda>_. True) (\<lambda>f. f) demo_files (cfg_paths demo_raid50)" "cfg_ok demo_files demo_raid50"
  "length (cfg_volume demo_files cap demo_raid50) = 2048"
proof -
  have s: "strip_ok 1" unfolding strip_ok_def by (rule bexI [of _ 9]) (simp_all add: sectors_bytes_def)
  show "opens (wd_open demo_world) (\<lambda>_. True) (\<lambda>f. f) demo_files (cfg_paths demo_raid50)"
    by (simp add: demo_raid50_def opens_def demo_open_def demo_files_def demo_world_def)
  have v: "length (raid5_volume demo_files r) = 1024"
    if "r5c_strip_len_sectors r = 1" "length (r5c_paths r) = 3" for r
    using that by (simp add: raid5_volume_def length_array_volume sectors_bytes_def demo_files_def)
  show "cfg_ok demo_files demo_raid50" using s v
    by (simp add: demo_raid50_def raid5_ok_def strips_ok_def parts_ok_def sectors_bytes_def demo_files_def)
  show "length (cfg_volume demo_files cap demo_raid50) = 2048" using v
    by (simp add: demo_raid50_def length_stripe_volume sectors_bytes_def)
qed

lemma every_target_serves_witness:
  "\<exists>d. make_device demo_world 0 demo_cache demo_raid50 = Some (Inr d) \<and>
    serve_on dev_ops d [Wr 1016 (replicate 16 7), Rd 1024 (replicate 8 0)] = Some [(0, 0, []), (0, 0, replicate 8 7)]"
proof -
  let ?qs = "[Wr 1016 (replicate 16 7), Rd 1024 (replicate 8 0)] :: request list" and ?V = "cfg_volume demo_files 0 demo_raid50"
  have laws: "file_laws (wd_fo demo_world) (\<lambda>_. True) (\<lambda>f. f)" "pool_ok (wd_pool demo_world)"
    using list_file_laws demo_pool_ok by (simp_all add: demo_world_def)
  have c: "demo_raid50 = InmemCfg \<longrightarrow> wd_alloc demo_world (sectors_bytes 0)"
    "demo_raid50 \<noteq> InmemCfg \<longrightarrow> cache_fits demo_cache (length ?V)"
    unfolding demo_raid50_ok(3) by (simp_all add: demo_cache_fits demo_raid50_def)
  have "\<forall>q \<in> set ?qs. fits (cfg_align demo_raid50) (length ?V) q"
    unfolding demo_raid50_ok(3) by (simp add: demo_raid50_def)
  with every_target_serves [OF laws demo_raid50_ok(1,2) c] obtain d where
    d: "make_device demo_world 0 demo_cache demo_raid50 = Some (Inr d)" "serve_on dev_ops d ?qs = Some (flat_serve ?V ?qs)" by blast
  have "subspan (copy_at ?V 1016 (replicate 16 7)) 1024 8 = replicate 8 7"
    using demo_raid50_ok(3) [of 0] by (intro nth_equalityI) (simp_all add: nth_subspan nth_copy_at)
  with d show ?thesis by auto
qed

end
