(* ===== verification/Sessions.thy ===== *)
theory Sessions
  imports Event_Loop Command_Io Device_Stack
begin

text \<open>
  A slave's loop (\<open>ublk/handler.cpp\<close>, theory Event_Loop) over the command handler (\<open>cmd_handler.cpp\<close>,
  theory Commands) of a working device: whatever the driver does, the cells it shares with the slave
  and the acknowledgements it gets are those of one flat array of bytes.

  The chains of cells (\<open>cellds\<close>) are laid out before the session; the driver writes the cells
  themselves at any time between two tasks.
\<close>

subsection \<open>The flat array\<close>

text \<open>A state is the array and the cells.\<close>

definition flat_command :: "cmd_ops \<Rightarrow> celld list \<Rightarrow> cmd \<Rightarrow> byte list \<times> byte list \<Rightarrow> byte list \<times> byte list" where
  "flat_command os cellds cmd = (\<lambda>(V, mm). let ch = cell_chain cellds (cmd_fcdn cmd) (cmd_cds_nr cmd) in
     if cmd_op cmd = op_read os then (V, scatter mm ch (subspan V (cmd_offset cmd) (chain_sz ch)))
     else if cmd_op cmd = op_write os then (copy_at V (cmd_offset cmd) (chain_bytes mm ch), mm)
     else (V, mm))"

fun flat_event :: "cmd_ops \<Rightarrow> celld list \<Rightarrow> event \<Rightarrow> byte list \<times> byte list \<Rightarrow> byte list \<times> byte list" where
  "flat_event os cellds (Filled mm) VM = (fst VM, mm)"
| "flat_event os cellds (Served cmd) VM = flat_command os cellds cmd VM"

definition flat_ack :: "cmd_ops \<Rightarrow> cmd \<Rightarrow> cmd_ack" where
  "flat_ack os cmd = (cmd_id cmd,
     if cmd_op cmd \<in> {op_read os, op_write os, op_discard os, op_flush os} then 0 else word_of_int ENOTSUP)"

text \<open>The reads and writes the driver may send to a device of \<open>n\<close> bytes with \<open>m\<close> bytes of cells.\<close>

definition cmd_fits :: "cmd_ops \<Rightarrow> celld list \<Rightarrow> nat \<Rightarrow> nat \<Rightarrow> nat \<Rightarrow> cmd \<Rightarrow> bool" where
  "cmd_fits os cellds al n m cmd \<longleftrightarrow> (cmd_op cmd \<in> {op_read os, op_write os} \<longrightarrow>
     (let ch = cell_chain cellds (cmd_fcdn cmd) (cmd_cds_nr cmd) in
        ch \<noteq> [] \<and> cells_in m ch \<and> cells_aligned al ch \<and> al dvd cmd_offset cmd \<and> cmd_offset cmd + chain_sz ch \<le> n))"

lemma flat_command_lengths:
  assumes "cmd_fits os cellds al (length V) (length mm) cmd"
  shows "length (fst (flat_command os cellds cmd (V, mm))) = length V" "length (snd (flat_command os cellds cmd (V, mm))) = length mm"
  using assms by (auto simp: flat_command_def cmd_fits_def Let_def)

subsection \<open>The state of a session\<close>

text \<open>The content, the cells and the acknowledgements are those of the flat array after the events so far.\<close>

definition session_flat ::
    "('c \<Rightarrow> bool) \<Rightarrow> ('c \<Rightarrow> byte list) \<Rightarrow> cmd_ops \<Rightarrow> celld list \<Rightarrow> 'c device \<Rightarrow> 'c session \<Rightarrow> bool" where
  "session_flat good content os cellds dv s \<longleftrightarrow> good (dv_target (hc_dev (ss_ctx s))) \<and>
     length (content (dv_target (hc_dev (ss_ctx s)))) = length (content (dv_target dv)) \<and>
     length (dv_cells (hc_dev (ss_ctx s))) = length (dv_cells dv) \<and>
     fold (flat_event os cellds) (ss_log s) (content (dv_target dv), dv_cells dv) =
       (content (dv_target (hc_dev (ss_ctx s))), dv_cells (hc_dev (ss_ctx s))) \<and>
     dv_acks (hc_dev (ss_ctx s)) = dv_acks dv @ map (flat_ack os) (ss_handled s)"

lemma session_flatD:
  assumes "session_flat good content os cellds dv s"
  shows "good (dv_target (hc_dev (ss_ctx s)))"
    "length (content (dv_target (hc_dev (ss_ctx s)))) = length (content (dv_target dv))"
    "length (dv_cells (hc_dev (ss_ctx s))) = length (dv_cells dv)"
    "fold (flat_event os cellds) (ss_log s) (content (dv_target dv), dv_cells dv) =
      (content (dv_target (hc_dev (ss_ctx s))), dv_cells (hc_dev (ss_ctx s)))"
    "dv_acks (hc_dev (ss_ctx s)) = dv_acks dv @ map (flat_ack os) (ss_handled s)"
  using assms unfolding session_flat_def by blast+

lemma session_flatI:
  assumes "good (dv_target (hc_dev (ss_ctx s)))"
    "length (content (dv_target (hc_dev (ss_ctx s)))) = length (content (dv_target dv))"
    "length (dv_cells (hc_dev (ss_ctx s))) = length (dv_cells dv)"
    "fold (flat_event os cellds) (ss_log s) (content (dv_target dv), dv_cells dv) =
      (content (dv_target (hc_dev (ss_ctx s))), dv_cells (hc_dev (ss_ctx s)))"
    "dv_acks (hc_dev (ss_ctx s)) = dv_acks dv @ map (flat_ack os) (ss_handled s)"
  shows "session_flat good content os cellds dv s"
  using assms unfolding session_flat_def by blast

text \<open>The commands of the events are the handled ones.\<close>

fun served :: "event list \<Rightarrow> cmd list" where
  "served [] = []"
| "served (Filled mm # es) = served es"
| "served (Served cmd # es) = cmd # served es"

lemma served_append [simp]: "served (es @ es') = served es @ served es'"
  by (induction es rule: served.induct) simp_all

lemma served_log:
  assumes "loop_reach os hs sub cellds (session_start q dv) s"
  shows "served (ss_log s) = ss_handled s"
  using assms
proof induction
  case (lr_step s s')
  from lr_step(2,3) show ?case by (induction rule: loop_step.induct) simp_all
qed (simp add: session_start_def)

subsection \<open>Commands and sessions\<close>

text \<open>The submitters of a device that has none of its own for discards.\<close>

definition subs_of :: "'c rw_handler \<Rightarrow> 'c flush_fn \<Rightarrow> 'c submitters" where
  "subs_of ops fl = \<lparr>reader = submit_rd ops, writer = submit_wr ops, flusher = fl, discarder = null_discard\<rparr>"

context flush_dev
begin

lemma command_flat:
  assumes "cmd_ops_ok os" "sub = subs_of ops flush" "good (dv_target dv)" "length (content (dv_target dv)) < u64_limit"
    and "cmd_fits os cellds al (length (content (dv_target dv))) (length (dv_cells dv)) cmd"
  shows "\<exists>d. cmd_handle os (master_hs os) sub cellds cmd dv =
      Some (0, \<lparr>dv_cells = snd (flat_command os cellds cmd (content (dv_target dv), dv_cells dv)), dv_target = d,
        dv_acks = dv_acks dv @ [flat_ack os cmd]\<rparr>) \<and>
    good d \<and> content d = fst (flat_command os cellds cmd (content (dv_target dv), dv_cells dv))"
proof -
  let ?ch = "cell_chain cellds (cmd_fcdn cmd) (cmd_cds_nr cmd)"
  have ops: "distinct [op_read os, op_write os, op_discard os, op_flush os]" using assms(1) by (simp add: cmd_ops_ok_def)
  consider (rd) "cmd_op cmd = op_read os" | (wr) "cmd_op cmd = op_write os" | (ds) "cmd_op cmd = op_discard os"
    | (fl) "cmd_op cmd = op_flush os" | (other) "cmd_op cmd \<notin> {op_read os, op_write os, op_discard os, op_flush os}" by auto
  then show ?thesis
  proof cases
    case rd
    then have f: "?ch \<noteq> []" "cells_in (length (dv_cells dv)) ?ch" "cells_aligned al ?ch" "al dvd cmd_offset cmd"
      "cmd_offset cmd + chain_sz ?ch \<le> length (content (dv_target dv))"
      using assms(5) by (simp_all add: cmd_fits_def Let_def)
    have r: "reader sub = submit_rd ops" using assms(2) by (simp add: subs_of_def)
    from read_command_eq [OF assms(1) rd r assms(3,4) refl f(1,2,5,4,3)] show ?thesis
      using rd by (auto simp: flat_command_def flat_ack_def Let_def)
  next
    case wr
    then have f: "?ch \<noteq> []" "cells_in (length (dv_cells dv)) ?ch" "cells_aligned al ?ch" "al dvd cmd_offset cmd"
      "cmd_offset cmd + chain_sz ?ch \<le> length (content (dv_target dv))"
      using assms(5) by (simp_all add: cmd_fits_def Let_def)
    have w: "writer sub = submit_wr ops" using assms(2) by (simp add: subs_of_def)
    from write_command_eq [OF assms(1) wr w assms(3,4) refl f(1,2,5,4,3)] show ?thesis
      using wr ops by (cases dv) (auto simp: flat_command_def flat_ack_def Let_def)
  next
    case ds
    then have "cmd_handle os (master_hs os) sub cellds cmd dv =
        Some (0, \<lparr>dv_cells = dv_cells dv, dv_target = dv_target dv, dv_acks = dv_acks dv @ [(cmd_id cmd, 0)]\<rparr>)"
      using ops assms(2)
      by (simp add: cmd_handle_eq [OF assms(1)] make_req_eq handler_of_def cmd_discard_handle_def subs_of_def null_discard_def merge_err_def)
    then show ?thesis using ds ops assms(3) by (auto simp: flat_command_def flat_ack_def Let_def)
  next
    case fl
    obtain r d where d: "flush (dv_target dv) = Some (r, 0, d)" "good d" "content d = content (dv_target dv)"
      using flush_law assms(3) unfolding flush_keeps_def by blast
    then have "cmd_handle os (master_hs os) sub cellds cmd dv =
        Some (0, \<lparr>dv_cells = dv_cells dv, dv_target = d, dv_acks = dv_acks dv @ [(cmd_id cmd, 0)]\<rparr>)"
      using fl ops assms(2)
      by (simp add: cmd_handle_eq [OF assms(1)] make_req_eq handler_of_def cmd_flush_handle_def subs_of_def merge_err_def)
    then show ?thesis using fl ops d(2,3) by (auto simp: flat_command_def flat_ack_def Let_def)
  next
    case other
    then have "cmd_handle os (master_hs os) sub cellds cmd dv =
        Some (0, dv\<lparr>dv_acks := dv_acks dv @ [(cmd_id cmd, word_of_int ENOTSUP)]\<rparr>)"
      by (simp add: cmd_handle_eq [OF assms(1)] make_req_eq handler_of_def)
    then show ?thesis using other assms(3) by (cases dv) (auto simp: flat_command_def flat_ack_def Let_def)
  qed
qed

lemma task_flat:
  assumes "cmd_ops_ok os" "length (content (dv_target dv)) < u64_limit" "session_flat good content os cellds dv s" "hc_posted (ss_ctx s) = cmd # rest"
    and "cmd_fits os cellds al (length (content (dv_target dv))) (length (dv_cells dv)) cmd"
  shows "\<exists>ctx. run_posted os (master_hs os) (subs_of ops flush) cellds (ss_ctx s) = Some ctx \<and>
    session_flat good content os cellds dv (s\<lparr>ss_ctx := ctx, ss_handled := ss_handled s @ [cmd], ss_log := ss_log s @ [Served cmd]\<rparr>)"
proof -
  let ?now = "hc_dev (ss_ctx s)" and ?V = "content (dv_target (hc_dev (ss_ctx s)))" and ?mm = "dv_cells (hc_dev (ss_ctx s))"
  note i = session_flatD [OF assms(3)]
  have f: "cmd_fits os cellds al (length ?V) (length ?mm) cmd" using assms(5) i(2,3) by simp
  obtain d where d: "cmd_handle os (master_hs os) (subs_of ops flush) cellds cmd ?now =
      Some (0, \<lparr>dv_cells = snd (flat_command os cellds cmd (?V, ?mm)), dv_target = d, dv_acks = dv_acks ?now @ [flat_ack os cmd]\<rparr>)"
    "good d" "content d = fst (flat_command os cellds cmd (?V, ?mm))"
    using command_flat [OF assms(1) refl i(1) _ f] assms(2) i(2) by auto
  let ?ctx = "(ss_ctx s)\<lparr>hc_posted := rest, hc_dev := \<lparr>dv_cells = snd (flat_command os cellds cmd (?V, ?mm)), dv_target = d,
    dv_acks = dv_acks ?now @ [flat_ack os cmd]\<rparr>\<rparr>"
  have "run_posted os (master_hs os) (subs_of ops flush) cellds (ss_ctx s) = Some ?ctx"
    using assms(4) d(1) by (simp add: run_posted_def expects_def)
  moreover have "session_flat good content os cellds dv
      (s\<lparr>ss_ctx := ?ctx, ss_handled := ss_handled s @ [cmd], ss_log := ss_log s @ [Served cmd]\<rparr>)"
    by (rule session_flatI) (use d(2,3) i flat_command_lengths [OF f] in simp_all)
  ultimately show ?thesis by blast
qed

lemma step_sent: "loop_step os hs sub cellds s s' \<Longrightarrow> set (ss_sent s) \<subseteq> set (ss_sent s')"
  by (induction rule: loop_step.induct) auto

lemma session_flat_step:
  assumes "loop_step os (master_hs os) (subs_of ops flush) cellds s s'" "loop_inv dv s" "session_flat good content os cellds dv s"
    and "cmd_ops_ok os" "length (content (dv_target dv)) < u64_limit"
    and "\<forall>cmd \<in> set (ss_sent s'). cmd_fits os cellds al (length (content (dv_target dv))) (length (dv_cells dv)) cmd"
  shows "session_flat good content os cellds dv s'"
  using assms
proof (induction rule: loop_step.induct)
  case (l_task s cmd rest ctx)
  have "cmd \<in> set (ss_sent s)" using loop_invD(3) [OF l_task(4)] l_task(2) by simp
  then have "cmd_fits os cellds al (length (content (dv_target dv))) (length (dv_cells dv)) cmd" using l_task(8) by simp
  from task_flat [OF l_task(6,7,5,2) this] l_task(3) show ?case by auto
next
  case (l_pop s ctx)
  then have "hc_dev ctx = hc_dev (ss_ctx s)"
    by (auto simp: pop_round_def bind_eq_Some_conv split: if_splits option.splits)
  then show ?case using l_pop(4) by (simp add: session_flat_def)
qed (auto simp: on_counter_def read_failed_def dest: session_flatD intro!: session_flatI)

lemma session_flat_reach:
  assumes "loop_reach os (master_hs os) (subs_of ops flush) cellds (session_start q dv) s"
    and "cfq_ok q" "cfq_list q = []" "capacity q < 2 ^ 32" "good (dv_target dv)"
    and "cmd_ops_ok os" "length (content (dv_target dv)) < u64_limit"
    and "\<forall>cmd \<in> set (ss_sent s). cmd_fits os cellds al (length (content (dv_target dv))) (length (dv_cells dv)) cmd"
  shows "session_flat good content os cellds dv s"
  using assms(1,8)
proof induction
  case lr_start
  then show ?case using assms(5) by (simp add: session_flat_def session_start_def)
next
  case (lr_step s s')
  from session_flat_step [OF lr_step(2) loop_reach_inv [OF lr_step(1) assms(2-4)] _ assms(6,7) lr_step(4)]
  show ?case using lr_step(3,4) step_sent [OF lr_step(2)] by blast
qed

text \<open>A posted task never aborts the process.\<close>

lemma session_never_aborts:
  assumes "loop_reach os (master_hs os) (subs_of ops flush) cellds (session_start q dv) s"
    and "cfq_ok q" "cfq_list q = []" "capacity q < 2 ^ 32" "good (dv_target dv)"
    and "cmd_ops_ok os" "length (content (dv_target dv)) < u64_limit"
    and "\<forall>cmd \<in> set (ss_sent s). cmd_fits os cellds al (length (content (dv_target dv))) (length (dv_cells dv)) cmd"
  shows "run_posted os (master_hs os) (subs_of ops flush) cellds (ss_ctx s) \<noteq> None"
proof (cases "hc_posted (ss_ctx s)")
  case (Cons cmd rest)
  then have "cmd \<in> set (ss_sent s)" using loop_invD(3) [OF loop_reach_inv [OF assms(1-4)]] by simp
  then show ?thesis using task_flat [OF assms(6,7) session_flat_reach [OF assms] Cons] assms(8) by auto
qed (simp add: run_posted_def)

end

text \<open>A command that is sent to an idle slave is taken from the ring and its task is posted.\<close>

lemma command_is_posted:
  assumes "cfq_ok q" "cfq_list q = []" "0 < capacity q"
  shows "\<exists>s. loop_reach os hs sub cellds (session_start q dv) s \<and> hc_pc (ss_ctx s) = Waiting \<and> hc_posted (ss_ctx s) = [cmd] \<and>
    ss_sent s = [cmd] \<and> ss_handled s = [] \<and> ss_log s = [] \<and> hc_dev (ss_ctx s) = dv"
proof -
  let ?R = "loop_reach os hs sub cellds (session_start q dv)"
  obtain q1 where q1: "cfq_push q cmd = Some (True, q1)" "cfq_ok q1" "cfq_list q1 = [cmd]"
    using cfq.push_law [OF assms(1), of cmd] assms(2,3) by auto
  obtain q2 where q2: "cfq_pop q1 = Some (Some cmd, q2)" using cfq.pop_law [OF q1(2)] q1(3) by auto
  let ?s0 = "session_start q dv"
  let ?s1 = "?s0\<lparr>ss_ctx := (ss_ctx ?s0)\<lparr>hc_qcmd := q1\<rparr>, ss_sent := [cmd]\<rparr>"
  let ?s2 = "?s1\<lparr>ss_ctx := on_counter (of_nat 1) (ss_ctx ?s1), ss_counted := 1\<rparr>"
  let ?c3 = "(ss_ctx ?s2)\<lparr>hc_qcmd := q2, hc_posted := [cmd], hc_cmds := 0, hc_processed := 1\<rparr>"
  let ?s3 = "?s2\<lparr>ss_ctx := ?c3\<rparr>"
  let ?c4 = "?c3\<lparr>hc_reported := [1], hc_pc := Waiting\<rparr>"
  let ?s4 = "?s3\<lparr>ss_ctx := ?c4\<rparr>"
  have r: "?R ?s0" by (rule lr_start)
  have "loop_step os hs sub cellds ?s0 ?s1"
    using l_push [of ?s0 cmd q1 os hs sub cellds] q1(1) by (simp add: session_start_def)
  with r have r: "?R ?s1" by (rule lr_step)
  have "loop_step os hs sub cellds ?s1 ?s2" by (rule l_count) (simp_all add: session_start_def)
  with r have r: "?R ?s2" by (rule lr_step)
  have "pop_round (ss_ctx ?s2) = Some ?c3" using q2 by (simp add: pop_round_def on_counter_def session_start_def)
  then have "loop_step os hs sub cellds ?s2 ?s3" by (intro l_pop) (simp_all add: on_counter_def)
  with r have r: "?R ?s3" by (rule lr_step)
  have "pop_round (ss_ctx ?s3) = Some ?c4" by (simp add: pop_round_def on_counter_def session_start_def)
  then have "loop_step os hs sub cellds ?s3 ?s4" by (intro l_pop) (simp_all add: on_counter_def)
  with r have r: "?R ?s4" by (rule lr_step)
  have "hc_pc (ss_ctx ?s4) = Waiting \<and> hc_posted (ss_ctx ?s4) = [cmd] \<and> ss_sent ?s4 = [cmd] \<and> ss_handled ?s4 = [] \<and>
      ss_log ?s4 = [] \<and> hc_dev (ss_ctx ?s4) = dv"
    by (simp add: session_start_def on_counter_def)
  with r show ?thesis by blast
qed

end
