(* ===== verification/Fan_Out.thy ===== *)
theory Fan_Out
  imports Raid0 Raid1 Queries "HOL-Library.Multiset"
begin

text \<open>
  Requests that complete later.  An array cuts a query into parts, or hands the query itself to every
  disk, and each part holds a reference to the query (\<open>std::shared_ptr\<close>).  Disks finish the parts in
  any order, also while the loop that submits them still runs; a finished part hands its error to the
  query and drops its reference, the loop drops its own when it returns, and whoever drops the last
  one destroys the query, which runs its completer (\<open>ublk/query.hpp\<close>, \<open>read_query.hpp\<close>,
  \<open>write_query.hpp\<close>).  Elsewhere in the library queries complete within \<open>submit\<close>; the theorems here
  say that for striping and mirroring this makes no difference.
\<close>

subsection \<open>Parts and their references\<close>

record part =
  pt_disk :: nat
  pt_off :: nat
  pt_at :: nat
  pt_sz :: nat

text \<open>What a disk does with a part: the error, the buffer and the disk after it.\<close>

type_synonym 'c act = "part \<Rightarrow> byte list \<Rightarrow> 'c \<Rightarrow> (int \<times> byte list \<times> 'c) option"

definition wr_act :: "'c rw_handler \<Rightarrow> 'c act" where
  "wr_act ops p buf h = do {
     sq \<leftarrow> subquery buf (pt_at p) (pt_sz p);
     (r, e, h') \<leftarrow> submit_wr ops (pt_off p) sq h;
     expects (r = 0);
     Some (e, buf, h') }"

definition rd_act :: "'c rw_handler \<Rightarrow> 'c act" where
  "rd_act ops p buf h = do {
     sq \<leftarrow> subquery buf (pt_at p) (pt_sz p);
     (r, e, sq', h') \<leftarrow> submit_rd ops (pt_off p) sq h;
     expects (r = 0);
     Some (e, copy_at buf (pt_at p) sq', h') }"

text \<open>
  \<open>fn_refs\<close> counts the references, \<open>fn_res\<close> is what the loop returned, \<open>fn_done\<close> the runs of the completer
  with the error of the query; \<open>fn_log\<close> lists the finished parts with their errors.
\<close>

record 'c fan =
  fn_hs :: "'c list"
  fn_buf :: "byte list"
  fn_todo :: "part list"
  fn_flight :: "part list"
  fn_refs :: nat
  fn_err :: int
  fn_res :: "int option"
  fn_done :: "int list"
  fn_log :: "(part \<times> int) list"

definition fan_start :: "'c list \<Rightarrow> byte list \<Rightarrow> part list \<Rightarrow> 'c fan" where
  "fan_start hs buf parts = \<lparr>fn_hs = hs, fn_buf = buf, fn_todo = parts, fn_flight = [], fn_refs = 1, fn_err = 0,
     fn_res = None, fn_done = [], fn_log = []\<rparr>"

definition drop_ref :: "'c fan \<Rightarrow> 'c fan" where
  "drop_ref s = (if fn_refs s = 1 then s\<lparr>fn_refs := 0, fn_done := fn_done s @ [fn_err s]\<rparr> else s\<lparr>fn_refs := fn_refs s - 1\<rparr>)"

text \<open>A disk that refuses a part ends the loop; it may still hold the part, whose own parts are in flight.\<close>

inductive fan_step :: "'c act \<Rightarrow> 'c fan \<Rightarrow> 'c fan \<Rightarrow> bool" for act where
  f_submit: "fn_res s = None \<Longrightarrow> fn_todo s = p # ps \<Longrightarrow>
    fan_step act s (s\<lparr>fn_todo := ps, fn_flight := fn_flight s @ [p], fn_refs := Suc (fn_refs s)\<rparr>)"
| f_refuse: "fn_res s = None \<Longrightarrow> fn_todo s = p # ps \<Longrightarrow> r \<noteq> 0 \<Longrightarrow>
    fan_step act s (drop_ref (s\<lparr>fn_res := Some r\<rparr>))"
| f_refuse_later: "fn_res s = None \<Longrightarrow> fn_todo s = p # ps \<Longrightarrow> r \<noteq> 0 \<Longrightarrow>
    fan_step act s (drop_ref (s\<lparr>fn_res := Some r, fn_todo := ps, fn_flight := fn_flight s @ [p], fn_refs := Suc (fn_refs s)\<rparr>))"
| f_return: "fn_res s = None \<Longrightarrow> fn_todo s = [] \<Longrightarrow> fan_step act s (drop_ref (s\<lparr>fn_res := Some 0\<rparr>))"
| f_finish: "fn_flight s = xs @ p # ys \<Longrightarrow> act p (fn_buf s) (fn_hs s ! pt_disk p) = Some (e, b, h) \<Longrightarrow>
    fan_step act s (drop_ref (s\<lparr>fn_hs := (fn_hs s)[pt_disk p := h], fn_buf := b, fn_err := merge_err (fn_err s) e,
      fn_flight := xs @ ys, fn_log := fn_log s @ [(p, e)]\<rparr>))"

inductive fan_reach :: "'c act \<Rightarrow> 'c fan \<Rightarrow> 'c fan \<Rightarrow> bool" for act s0 where
  fr_start: "fan_reach act s0 s0"
| fr_step: "fan_reach act s0 s \<Longrightarrow> fan_step act s s' \<Longrightarrow> fan_reach act s0 s'"

inductive_cases fan_stepE: "fan_step act s s'"

text \<open>
  A request that completes: from every state that can be reached it goes on until its completer has run, at most
  \<open>fan_left\<close> steps later; it runs once and is the last step; and when no disk has refused a part its error is 0 and \<open>Q\<close> holds.
\<close>

definition fan_left :: "'c fan \<Rightarrow> nat" where
  "fan_left s = 2 * length (fn_todo s) + length (fn_flight s) + (if fn_res s = None then 1 else 0)"

definition completes :: "'c act \<Rightarrow> 'c fan \<Rightarrow> ('c fan \<Rightarrow> bool) \<Rightarrow> bool" where
  "completes act s0 Q \<longleftrightarrow> (\<forall>s. fan_reach act s0 s \<longrightarrow>
     (fn_done s = [] \<longrightarrow> (\<exists>s'. fan_step act s s')) \<and> (\<forall>s'. fan_step act s s' \<longrightarrow> fn_done s = [] \<and> fan_left s' < fan_left s) \<and>
     (fn_done s \<noteq> [] \<and> fn_res s = Some 0 \<longrightarrow> fn_done s = [0] \<and> Q s))"

lemma drop_ref_simps [simp]:
  "fn_hs (drop_ref s) = fn_hs s" "fn_buf (drop_ref s) = fn_buf s" "fn_todo (drop_ref s) = fn_todo s"
  "fn_flight (drop_ref s) = fn_flight s" "fn_err (drop_ref s) = fn_err s" "fn_res (drop_ref s) = fn_res s"
  "fn_log (drop_ref s) = fn_log s" "fn_refs (drop_ref s) = fn_refs s - 1"
  "fn_done (drop_ref s) = (if fn_refs s = 1 then fn_done s @ [fn_err s] else fn_done s)"
  by (simp_all add: drop_ref_def)

text \<open>The completer runs once, when the loop has returned and nothing is in flight, with the merged errors.\<close>

definition fan_inv :: "part list \<Rightarrow> 'c fan \<Rightarrow> bool" where
  "fan_inv parts s \<longleftrightarrow>
     fn_refs s = (if fn_res s = None then 1 else 0) + length (fn_flight s) \<and>
     fn_done s = (if fn_refs s = 0 then [fn_err s] else []) \<and>
     fn_err s = foldl merge_err 0 (map snd (fn_log s)) \<and>
     mset (map fst (fn_log s)) + mset (fn_flight s) + mset (fn_todo s) = mset parts \<and>
     (fn_res s = Some 0 \<longrightarrow> fn_todo s = [])"

lemma fan_invD:
  assumes "fan_inv parts s"
  shows "fn_refs s = (if fn_res s = None then 1 else 0) + length (fn_flight s)"
    "fn_done s = (if fn_refs s = 0 then [fn_err s] else [])" "fn_err s = foldl merge_err 0 (map snd (fn_log s))"
    "mset (map fst (fn_log s)) + mset (fn_flight s) + mset (fn_todo s) = mset parts"
    "fn_res s = Some 0 \<Longrightarrow> fn_todo s = []"
  using assms unfolding fan_inv_def by blast+

lemma fan_inv_step:
  assumes "fan_step act s s'" "fan_inv parts s"
  shows "fan_inv parts s'"
  using assms(1)
proof cases
  case (f_finish xs p ys e b h)
  note i = fan_invD [OF assms(2)]
  have r: "0 < fn_refs s" using i(1) f_finish(2) by simp
  then have "fn_done s = []" using i(2) by simp
  then show ?thesis using i f_finish(2) r unfolding f_finish(1) fan_inv_def
    by (auto simp del: mset_map simp: ac_simps split: if_splits)
qed (use assms(2) in \<open>auto simp: fan_inv_def simp del: mset_map split: if_splits\<close>)

lemma fan_reach_inv: "fan_reach act (fan_start hs buf parts) s \<Longrightarrow> fan_inv parts s"
proof (induction rule: fan_reach.induct)
  case fr_start
  show ?case by (simp add: fan_inv_def fan_start_def)
qed (rule fan_inv_step)

lemma foldl_merge_zero: "foldl merge_err e es = 0 \<longleftrightarrow> e = 0 \<and> (\<forall>x \<in> set es. x = 0)"
  by (induction es arbitrary: e) auto

text \<open>Every step brings the end of the request nearer.\<close>

lemma fan_step_left: "fan_step act s s' \<Longrightarrow> fan_left s' < fan_left s"
  by (induction rule: fan_step.induct) (auto simp: fan_left_def)

lemma fan_progress:
  assumes "fan_inv parts s" "\<forall>p \<in> set (fn_flight s). act p (fn_buf s) (fn_hs s ! pt_disk p) \<noteq> None"
  shows "fn_done s \<noteq> [] \<or> (\<exists>s'. fan_step act s s')"
proof (cases "fn_res s")
  case None
  then show ?thesis using f_submit [of s _ _ act] f_return [of s act] by (cases "fn_todo s") blast+
next
  case (Some r)
  show ?thesis
  proof (cases "fn_flight s")
    case Nil
    then show ?thesis using fan_invD(1,2) [OF assms(1)] Some by simp
  next
    case (Cons p ps)
    then obtain e b h where "act p (fn_buf s) (fn_hs s ! pt_disk p) = Some (e, b, h)" using assms(2) by fastforce
    then show ?thesis using f_finish [of s "[]" p ps act e b h] Cons by auto
  qed
qed

text \<open>The parts that have been finished when the completer has run without a refusal are all parts.\<close>

lemma fan_done_all:
  assumes "fan_inv parts s" "fn_done s \<noteq> []" "fn_res s = Some 0"
  shows "set (map fst (fn_log s)) = set parts" "fn_done s = [fn_err s]"
proof -
  note i = fan_invD [OF assms(1)]
  have "fn_refs s = 0" using assms(2) i(2) by (auto split: if_splits)
  then have "fn_flight s = []" "fn_done s = [fn_err s]" using i(1,2) assms(3) by simp_all
  then have "mset (map fst (fn_log s)) = mset parts" using i(4,5) assms(3) by simp
  then show "set (map fst (fn_log s)) = set parts" by (metis set_mset_mset)
  show "fn_done s = [fn_err s]" by fact
qed

lemma fan_done_stops:
  assumes "fan_inv parts s" "fan_step act s s'"
  shows "fn_done s = []"
proof -
  note i = fan_invD(1,2) [OF assms(1)]
  from assms(2) have "fn_res s = None \<or> fn_flight s \<noteq> []" by cases simp_all
  then show ?thesis using i by auto
qed

lemma completesI:
  assumes "\<And>s p. fan_reach act (fan_start hs buf parts) s \<Longrightarrow> p \<in> set parts \<Longrightarrow> act p (fn_buf s) (fn_hs s ! pt_disk p) \<noteq> None"
    and "\<And>s. fan_reach act (fan_start hs buf parts) s \<Longrightarrow> set (map fst (fn_log s)) = set parts \<Longrightarrow> fn_err s = 0 \<and> Q s"
  shows "completes act (fan_start hs buf parts) Q"
  unfolding completes_def
proof (intro allI impI conjI)
  fix s assume r: "fan_reach act (fan_start hs buf parts) s"
  note inv = fan_reach_inv [OF r]
  have "p \<in> set parts" if "p \<in> set (fn_flight s)" for p
    using that fan_invD(4) [OF inv] by (metis set_mset_mset union_iff)
  then have "\<forall>p \<in> set (fn_flight s). act p (fn_buf s) (fn_hs s ! pt_disk p) \<noteq> None" using assms(1) [OF r] by blast
  then show "\<exists>s'. fan_step act s s'" if "fn_done s = []" using fan_progress [OF inv] that by blast
  show "fn_done s = []" if "fan_step act s s'" for s' by (rule fan_done_stops [OF inv that])
  show "fan_left s' < fan_left s" if "fan_step act s s'" for s' by (rule fan_step_left [OF that])
  assume d: "fn_done s \<noteq> [] \<and> fn_res s = Some 0"
  then have "set (map fst (fn_log s)) = set parts" "fn_done s = [fn_err s]" using fan_done_all [OF inv] by blast+
  then show "fn_done s = [0]" "Q s" using assms(2) [OF r] by simp_all
qed

text \<open>A step keeps what every part keeps.\<close>

lemma fan_reach_keeps:
  assumes "fan_reach act (fan_start hs buf parts) s" "P hs buf []"
    and "\<And>p e h b hs buf log. p \<in> set parts \<Longrightarrow> P hs buf log \<Longrightarrow> act p buf (hs ! pt_disk p) = Some (e, b, h) \<Longrightarrow>
      P (hs[pt_disk p := h]) b (log @ [(p, e)])"
  shows "P (fn_hs s) (fn_buf s) (fn_log s)"
  using assms(1)
proof (induction rule: fan_reach.induct)
  case fr_start
  show ?case using assms(2) by (simp add: fan_start_def)
next
  case (fr_step s s')
  from fr_step.hyps(2) show ?case
  proof cases
    case (f_finish xs p ys e b h)
    have "p \<in># mset (fn_flight s)" using f_finish(2) by simp
    then have "p \<in> set parts" using fan_invD(4) [OF fan_reach_inv [OF fr_step.hyps(1)]]
      by (metis set_mset_mset union_iff)
    from assms(3) [OF this fr_step.IH f_finish(3)] show ?thesis unfolding f_finish(1) by simp
  qed (use fr_step.IH in simp_all)
qed

subsection \<open>Striping\<close>

text \<open>
  The subqueries of \<open>do_op\<close> (\<open>ublk/raid0/backend.cpp\<close>); the offset in the strip is that of a mask, so
  the second guard never holds.
\<close>

function raid0_parts :: "nat \<Rightarrow> nat \<Rightarrow> nat \<Rightarrow> nat \<Rightarrow> nat \<Rightarrow> nat \<Rightarrow> nat \<Rightarrow> part list" where
  "raid0_parts S sh disks n strip_id strip_off dn =
     (if \<not> dn < n \<or> \<not> strip_off < S then []
      else let sz = min (S - strip_off) (n - dn)
        in \<lparr>pt_disk = strip_id mod disks, pt_off = strip_off + push_bit sh (strip_id div disks), pt_at = dn, pt_sz = sz\<rparr>
             # raid0_parts S sh disks n (Suc strip_id) 0 (dn + sz))"
  by pat_completeness auto

termination
  by (relation "measure (\<lambda>(S, sh, disks, n, strip_id, strip_off, dn). n - dn)") auto

declare raid0_parts.simps [simp del]

text \<open>Submitting the parts one after the other to disks that finish them at once is the loop of theory Raid0.\<close>

fun submit_writes :: "'c rw_handler \<Rightarrow> byte list \<Rightarrow> part list \<Rightarrow> int \<Rightarrow> 'c list \<Rightarrow> (int \<times> int \<times> 'c list) option" where
  "submit_writes ops buf [] err hs = Some (0, err, hs)"
| "submit_writes ops buf (p # ps) err hs = do {
     sq \<leftarrow> subquery buf (pt_at p) (pt_sz p);
     (res, e, h) \<leftarrow> submit_wr ops (pt_off p) sq (hs ! pt_disk p);
     if res \<noteq> 0 then Some (res, merge_err err e, hs[pt_disk p := h])
     else submit_writes ops buf ps (merge_err err e) (hs[pt_disk p := h]) }"

fun submit_reads :: "'c rw_handler \<Rightarrow> part list \<Rightarrow> int \<Rightarrow> byte list \<Rightarrow> 'c list \<Rightarrow> (int \<times> int \<times> byte list \<times> 'c list) option" where
  "submit_reads ops [] err buf hs = Some (0, err, buf, hs)"
| "submit_reads ops (p # ps) err buf hs = do {
     sq \<leftarrow> subquery buf (pt_at p) (pt_sz p);
     (res, e, sq', h) \<leftarrow> submit_rd ops (pt_off p) sq (hs ! pt_disk p);
     if res \<noteq> 0 then Some (res, merge_err err e, copy_at buf (pt_at p) sq', hs[pt_disk p := h])
     else submit_reads ops ps (merge_err err e) (copy_at buf (pt_at p) sq') (hs[pt_disk p := h]) }"

lemma raid0_write_parts:
  assumes "strip_off < S"
  shows "raid0_write_loop ops S sh n strip_id strip_off dn err buf hs =
    submit_writes ops buf (raid0_parts S sh (length hs) n strip_id strip_off dn) err hs"
  using assms
proof (induction S sh "length hs" n strip_id strip_off dn arbitrary: err buf hs rule: raid0_parts.induct)
  case (1 S sh n strip_id strip_off dn)
  show ?case
  proof (cases "dn < n")
    case True
    with 1 show ?thesis
      by (subst raid0_write_loop.simps, subst raid0_parts.simps) (auto simp: Let_def intro!: bind_option_cong)
  qed (subst raid0_write_loop.simps, subst raid0_parts.simps, simp)
qed

lemma raid0_read_parts:
  assumes "strip_off < S"
  shows "raid0_read_loop ops S sh n strip_id strip_off dn err buf hs =
    submit_reads ops (raid0_parts S sh (length hs) n strip_id strip_off dn) err buf hs"
  using assms
proof (induction S sh "length hs" n strip_id strip_off dn arbitrary: err buf hs rule: raid0_parts.induct)
  case (1 S sh n strip_id strip_off dn)
  show ?case
  proof (cases "dn < n")
    case True
    with 1 show ?thesis
      by (subst raid0_read_loop.simps, subst raid0_parts.simps) (auto simp: Let_def intro!: bind_option_cong)
  qed (subst raid0_read_loop.simps, subst raid0_parts.simps, simp)
qed

definition raid0_request :: "nat \<Rightarrow> byte list \<Rightarrow> 'c raid0 \<Rightarrow> part list" where
  "raid0_request off buf be = raid0_parts (r0_strip_sz be) (r0_strip_shift be) (length (r0_hs be)) (length buf)
     (drop_bit (r0_strip_shift be) off) (and off (r0_strip_sz be - 1)) 0"

text \<open>Each part lies within a strip of the volume, and together they are the request.\<close>

lemma raid0_parts_in:
  assumes "p \<in> set (raid0_parts S sh disks n k so dn)" "so < S" "dn \<le> n" "k * S + so + (n - dn) \<le> N * S" "al dvd S" "al dvd so" "al dvd n - dn"
  obtains l j where "pt_disk p = l mod disks" "pt_off p = j + push_bit sh (l div disks)" "l < N" "j + pt_sz p \<le> S" "0 < pt_sz p"
    "dn \<le> pt_at p" "pt_at p + pt_sz p \<le> n" "l * S + j = k * S + so + (pt_at p - dn)" "al dvd j" "al dvd pt_sz p"
  using assms
proof (induction S sh disks n k so dn arbitrary: thesis rule: raid0_parts.induct)
  case (1 S sh disks n k so dn)
  let ?sz = "min (S - so) (n - dn)"
  have lt: "dn < n" using "1.prems"(2) by (subst (asm) raid0_parts.simps) (auto split: if_splits)
  have k: "k < N"
  proof (rule ccontr)
    assume "\<not> k < N"
    then have "N * S \<le> k * S" by simp
    then show False using "1.prems"(5) lt by linarith
  qed
  have al: "al dvd ?sz" "al dvd n - (dn + ?sz)"
    using "1.prems"(6-8) aligned_rest [of al S so n dn] by (auto simp: min_def)
  consider "p = \<lparr>pt_disk = k mod disks, pt_off = so + push_bit sh (k div disks), pt_at = dn, pt_sz = ?sz\<rparr>"
    | "p \<in> set (raid0_parts S sh disks n (Suc k) 0 (dn + ?sz))"
    using "1.prems"(2) by (subst (asm) raid0_parts.simps) (auto simp: Let_def split: if_splits)
  then show ?case
  proof cases
    case 1
    then show ?thesis using "1.prems"(1) [of k so] "1.prems"(3-8) lt k al(1) by simp
  next
    case 2
    have nx: "n - (dn + ?sz) = 0 \<or> Suc k * S = k * S + so + ?sz"
      using raid0_next_strip [OF "1.prems"(3) refl, of "n - (dn + ?sz)" "n - dn" k] by simp
    have "dn + ?sz < n" using 2 by (subst (asm) raid0_parts.simps) (auto split: if_splits)
    then have "0 < n - (dn + ?sz)" by (simp only: zero_less_diff)
    then have e: "Suc k * S = k * S + so + ?sz" using nx by (metis less_irrefl)
    have le: "Suc k * S + 0 + (n - (dn + ?sz)) \<le> N * S" unfolding e using "1.prems"(5) lt by simp
    have guards: "\<not> (\<not> dn < n \<or> \<not> so < S)" "0 < S" "dn + ?sz \<le> n" "al dvd 0" using lt "1.prems"(3) by auto
    show ?thesis
    proof (rule "1.IH" [OF guards(1) refl _ 2 guards(2,3) le "1.prems"(6) guards(4) al(2)])
      fix l j
      assume l: "pt_disk p = l mod disks" "pt_off p = j + push_bit sh (l div disks)" "l < N" "j + pt_sz p \<le> S" "0 < pt_sz p"
        "dn + ?sz \<le> pt_at p" "pt_at p + pt_sz p \<le> n" "l * S + j = Suc k * S + 0 + (pt_at p - (dn + ?sz))" "al dvd j" "al dvd pt_sz p"
      have "l * S + j = k * S + so + (pt_at p - dn)" using l(6,8) unfolding e by linarith
      then show ?thesis using "1.prems"(1) l by simp
    qed
  qed
qed

lemma raid0_parts_end: "p \<in> set (raid0_parts S sh disks n k so dn) \<Longrightarrow> pt_at p + pt_sz p \<le> n"
proof (induction S sh disks n k so dn rule: raid0_parts.induct)
  case (1 S sh disks n k so dn)
  note IH = "1.IH" [OF _ refl]
  from "1.prems" show ?case by (subst (asm) raid0_parts.simps) (use IH in \<open>auto simp: Let_def split: if_splits\<close>)
qed

lemma raid0_parts_cover:
  "so < S \<Longrightarrow> dn \<le> i \<Longrightarrow> i < n \<Longrightarrow> \<exists>p \<in> set (raid0_parts S sh disks n k so dn). pt_at p \<le> i \<and> i < pt_at p + pt_sz p"
proof (induction S sh disks n k so dn rule: raid0_parts.induct)
  case (1 S sh disks n k so dn)
  let ?sz = "min (S - so) (n - dn)"
  have S: "0 < S" "dn < n" using "1.prems" by simp_all
  show ?case
  proof (cases "i < dn + ?sz")
    case True
    then show ?thesis using "1.prems" S by (subst raid0_parts.simps) (simp add: Let_def)
  next
    case False
    then show ?thesis using "1.IH" [OF _ refl] "1.prems" S by (subst raid0_parts.simps) (auto simp: Let_def)
  qed
qed

subsection \<open>Any order on working disks\<close>

text \<open>The bytes of the request that the finished parts \<open>ps\<close> have covered.\<close>

definition covered :: "part set \<Rightarrow> nat \<Rightarrow> bool" where
  "covered ps i \<longleftrightarrow> (\<exists>p \<in> ps. pt_at p \<le> i \<and> i < pt_at p + pt_sz p)"

lemma covered_insert: "covered (insert p ps) i \<longleftrightarrow> pt_at p \<le> i \<and> i < pt_at p + pt_sz p \<or> covered ps i"
  by (auto simp: covered_def)

context aligned_dev
begin

lemma part_bounds:
  assumes "p \<in> set (raid0_parts (2 ^ sh) sh (length hs) (length buf) (off div 2 ^ sh) (off mod 2 ^ sh) 0)"
    and "off + length buf \<le> m * length hs * 2 ^ sh" "al dvd 2 ^ sh" "al dvd off" "al dvd length buf"
  obtains k j where "pt_disk p = k mod length hs" "pt_off p = j + k div length hs * 2 ^ sh" "k < m * length hs"
    "j + pt_sz p \<le> 2 ^ sh" "0 < pt_sz p" "pt_at p + pt_sz p \<le> length buf" "k * 2 ^ sh + j = off + pt_at p"
    "al dvd j" "al dvd pt_sz p"
proof -
  have a: "off div 2 ^ sh * 2 ^ sh + off mod 2 ^ sh = off" "off mod 2 ^ sh < 2 ^ sh"
    by (rule div_mult_mod_eq) simp
  have b: "off div 2 ^ sh * 2 ^ sh + off mod 2 ^ sh + (length buf - 0) \<le> m * length hs * 2 ^ sh"
    unfolding a(1) using assms(2) by simp
  have al: "al dvd off mod 2 ^ sh" "al dvd length buf - 0" using assms(3-5) by (simp_all add: dvd_mod)
  from raid0_parts_in [OF assms(1) a(2) le0 b assms(3) al] obtain k j where
    "pt_disk p = k mod length hs" "pt_off p = j + push_bit sh (k div length hs)" "k < m * length hs"
    "j + pt_sz p \<le> 2 ^ sh" "0 < pt_sz p" "0 \<le> pt_at p" "pt_at p + pt_sz p \<le> length buf"
    "k * 2 ^ sh + j = off div 2 ^ sh * 2 ^ sh + off mod 2 ^ sh + (pt_at p - 0)" "al dvd j" "al dvd pt_sz p" by metis
  then show ?thesis using that [of k j] unfolding a(1) raid0_shift(3) by simp
qed

lemma raid0_part_write:
  assumes ok: "disks_ok good content m (2 ^ sh) hs" and len: "length hs = n"
    and p: "p \<in> set (raid0_parts (2 ^ sh) sh n (length buf) (off div 2 ^ sh) (off mod 2 ^ sh) 0)"
    and le: "off + length buf \<le> m * n * 2 ^ sh" and al: "al dvd 2 ^ sh" "al dvd off" "al dvd length buf"
  shows "\<exists>h. wr_act ops p buf (hs ! pt_disk p) = Some (0, buf, h) \<and> disks_ok good content m (2 ^ sh) (hs[pt_disk p := h]) \<and>
    raid0_volume content m (2 ^ sh) (hs[pt_disk p := h]) =
      copy_at (raid0_volume content m (2 ^ sh) hs) (off + pt_at p) (subspan buf (pt_at p) (pt_sz p)) \<and>
    pt_at p + pt_sz p \<le> length buf"
proof -
  from part_bounds [OF p [folded len] le [folded len] al] obtain k j where
    b: "pt_disk p = k mod length hs" "pt_off p = j + k div length hs * 2 ^ sh" "k < m * length hs"
    "j + pt_sz p \<le> 2 ^ sh" "0 < pt_sz p" "pt_at p + pt_sz p \<le> length buf" "k * 2 ^ sh + j = off + pt_at p"
    "al dvd j" "al dvd pt_sz p" by metis
  let ?sq = "subspan buf (pt_at p) (pt_sz p)"
  have sq: "subquery buf (pt_at p) (pt_sz p) = Some ?sq" "length ?sq = pt_sz p" "?sq \<noteq> []"
    using b(5,6) by (auto simp: subquery_eq subspan_def)
  have al': "al dvd length ?sq" "j + length ?sq \<le> 2 ^ sh" unfolding sq(2) by fact+
  from raid0_write_strip [OF ok b(3) al'(2) sq(3) al(1) b(8) al'(1)] show ?thesis
    using sq(1) b(1,2,6,7) by (auto simp: wr_act_def)
qed

lemma raid0_part_read:
  assumes ok: "disks_ok good content m (2 ^ sh) hs" and len: "length hs = n"
    and p: "p \<in> set (raid0_parts (2 ^ sh) sh n (length buf) (off div 2 ^ sh) (off mod 2 ^ sh) 0)"
    and le: "off + length buf \<le> m * n * 2 ^ sh" and al: "al dvd 2 ^ sh" "al dvd off" "al dvd length buf"
  shows "\<exists>h. rd_act ops p buf (hs ! pt_disk p) =
      Some (0, copy_at buf (pt_at p) (subspan (raid0_volume content m (2 ^ sh) hs) (off + pt_at p) (pt_sz p)), h) \<and>
    disks_ok good content m (2 ^ sh) (hs[pt_disk p := h]) \<and>
    raid0_volume content m (2 ^ sh) (hs[pt_disk p := h]) = raid0_volume content m (2 ^ sh) hs \<and>
    pt_at p + pt_sz p \<le> length buf"
proof -
  from part_bounds [OF p [folded len] le [folded len] al] obtain k j where
    b: "pt_disk p = k mod length hs" "pt_off p = j + k div length hs * 2 ^ sh" "k < m * length hs"
    "j + pt_sz p \<le> 2 ^ sh" "0 < pt_sz p" "pt_at p + pt_sz p \<le> length buf" "k * 2 ^ sh + j = off + pt_at p"
    "al dvd j" "al dvd pt_sz p" by metis
  let ?sq = "subspan buf (pt_at p) (pt_sz p)"
  have sq: "subquery buf (pt_at p) (pt_sz p) = Some ?sq" "length ?sq = pt_sz p" "?sq \<noteq> []"
    using b(5,6) by (auto simp: subquery_eq subspan_def)
  have al': "al dvd length ?sq" "j + length ?sq \<le> 2 ^ sh" unfolding sq(2) by fact+
  from raid0_read_strip [OF ok b(3) al'(2) sq(3) al(1) b(8) al'(1)] show ?thesis
    using sq(1,2) b(1,2,6,7) by (auto simp: rd_act_def)
qed

text \<open>What holds of the disks, the buffer and the finished parts throughout a write and a read.\<close>

definition writing :: "nat \<Rightarrow> nat \<Rightarrow> nat \<Rightarrow> nat \<Rightarrow> byte list \<Rightarrow> byte list \<Rightarrow> 'c list \<Rightarrow> byte list \<Rightarrow> (part \<times> int) list \<Rightarrow> bool" where
  "writing m sh n off V buf hs b log \<longleftrightarrow> b = buf \<and> disks_ok good content m (2 ^ sh) hs \<and> length hs = n \<and>
     (\<forall>e \<in> set (map snd log). e = 0) \<and>
     (\<forall>i < m * n * 2 ^ sh. raid0_volume content m (2 ^ sh) hs ! i =
        (if off \<le> i \<and> covered (set (map fst log)) (i - off) then buf ! (i - off) else V ! i))"

definition reading :: "nat \<Rightarrow> nat \<Rightarrow> nat \<Rightarrow> nat \<Rightarrow> byte list \<Rightarrow> byte list \<Rightarrow> 'c list \<Rightarrow> byte list \<Rightarrow> (part \<times> int) list \<Rightarrow> bool" where
  "reading m sh n off V buf hs b log \<longleftrightarrow> disks_ok good content m (2 ^ sh) hs \<and> length hs = n \<and>
     raid0_volume content m (2 ^ sh) hs = V \<and> length b = length buf \<and> (\<forall>e \<in> set (map snd log). e = 0) \<and>
     (\<forall>i < length buf. b ! i = (if covered (set (map fst log)) i then V ! (off + i) else buf ! i))"

lemma writing_part:
  assumes w: "writing m sh n off V buf hs b log"
    and p: "p \<in> set (raid0_parts (2 ^ sh) sh n (length buf) (off div 2 ^ sh) (off mod 2 ^ sh) 0)"
    and le: "off + length buf \<le> m * n * 2 ^ sh" and al: "al dvd 2 ^ sh" "al dvd off" "al dvd length buf"
  shows "\<exists>h. wr_act ops p b (hs ! pt_disk p) = Some (0, b, h) \<and> writing m sh n off V buf (hs[pt_disk p := h]) b (log @ [(p, 0)])"
proof -
  have d: "disks_ok good content m (2 ^ sh) hs" "length hs = n" "b = buf" using w by (simp_all add: writing_def)
  from raid0_part_write [OF d(1,2) p le al] obtain h where
    h: "wr_act ops p buf (hs ! pt_disk p) = Some (0, buf, h)" "disks_ok good content m (2 ^ sh) (hs[pt_disk p := h])"
    "raid0_volume content m (2 ^ sh) (hs[pt_disk p := h]) =
      copy_at (raid0_volume content m (2 ^ sh) hs) (off + pt_at p) (subspan buf (pt_at p) (pt_sz p))"
    "pt_at p + pt_sz p \<le> length buf" by blast
  let ?V = "raid0_volume content m (2 ^ sh) hs" and ?sq = "subspan buf (pt_at p) (pt_sz p)"
  have lV: "length ?V = m * n * 2 ^ sh" using d(2) by (simp add: raid0_volume_def)
  have ls: "length ?sq = pt_sz p" using h(4) by simp
  have in': "off + pt_at p + length ?sq \<le> length ?V" unfolding ls lV using h(4) le by linarith
  have "copy_at ?V (off + pt_at p) ?sq ! i =
      (if off \<le> i \<and> covered (insert p (set (map fst log))) (i - off) then buf ! (i - off) else V ! i)" if i: "i < m * n * 2 ^ sh" for i
  proof (cases "off + pt_at p \<le> i \<and> i < off + pt_at p + pt_sz p")
    case True
    then have j: "off \<le> i" "pt_at p \<le> i - off" "i - off < pt_at p + pt_sz p" by auto
    have "i - (off + pt_at p) < pt_sz p" "pt_at p + (i - (off + pt_at p)) < length buf" using True h(4) by linarith+
    then have "?sq ! (i - (off + pt_at p)) = buf ! (pt_at p + (i - (off + pt_at p)))" by (rule nth_subspan)
    then have "copy_at ?V (off + pt_at p) ?sq ! i = buf ! (pt_at p + (i - (off + pt_at p)))"
      using True i in' lV ls by (simp add: nth_copy_at)
    also have "pt_at p + (i - (off + pt_at p)) = i - off" using j by linarith
    finally show ?thesis using j by (simp add: covered_insert)
  next
    case False
    then have "copy_at ?V (off + pt_at p) ?sq ! i = ?V ! i" using i in' lV ls by (auto simp: nth_copy_at)
    moreover have "\<not> (off \<le> i \<and> pt_at p \<le> i - off \<and> i - off < pt_at p + pt_sz p)" using False by auto
    ultimately show ?thesis using w i by (auto simp: writing_def covered_insert)
  qed
  then show ?thesis using h(1-3) w d(2,3) by (simp add: writing_def)
qed

lemma reading_part:
  assumes r: "reading m sh n off V buf hs b log"
    and p: "p \<in> set (raid0_parts (2 ^ sh) sh n (length buf) (off div 2 ^ sh) (off mod 2 ^ sh) 0)"
    and le: "off + length buf \<le> m * n * 2 ^ sh" and al: "al dvd 2 ^ sh" "al dvd off" "al dvd length buf"
  shows "\<exists>b' h. rd_act ops p b (hs ! pt_disk p) = Some (0, b', h) \<and> reading m sh n off V buf (hs[pt_disk p := h]) b' (log @ [(p, 0)])"
proof -
  have d: "disks_ok good content m (2 ^ sh) hs" "length hs = n" "length b = length buf" "raid0_volume content m (2 ^ sh) hs = V"
    using r by (simp_all add: reading_def)
  from raid0_part_read [OF d(1,2) p [folded d(3)] le [folded d(3)] al(1,2) al(3) [folded d(3)]] obtain h where
    h: "rd_act ops p b (hs ! pt_disk p) = Some (0, copy_at b (pt_at p) (subspan V (off + pt_at p) (pt_sz p)), h)"
    "disks_ok good content m (2 ^ sh) (hs[pt_disk p := h])" "raid0_volume content m (2 ^ sh) (hs[pt_disk p := h]) = V"
    "pt_at p + pt_sz p \<le> length buf"
    unfolding d(4) d(3) by blast
  let ?sq = "subspan V (off + pt_at p) (pt_sz p)"
  have lV: "length V = m * n * 2 ^ sh" using d(2,4) by (auto simp: raid0_volume_def)
  have ls: "length ?sq = pt_sz p" using h(4) le lV by simp
  have in': "pt_at p + length ?sq \<le> length b" unfolding ls d(3) by (rule h(4))
  have "copy_at b (pt_at p) ?sq ! i = (if covered (insert p (set (map fst log))) i then V ! (off + i) else buf ! i)"
    if i: "i < length buf" for i
  proof (cases "pt_at p \<le> i \<and> i < pt_at p + pt_sz p")
    case True
    then have "i - pt_at p < pt_sz p" "off + pt_at p + (i - pt_at p) < length V" using h(4) le lV by linarith+
    then have "?sq ! (i - pt_at p) = V ! (off + pt_at p + (i - pt_at p))" by (rule nth_subspan)
    then have "copy_at b (pt_at p) ?sq ! i = V ! (off + pt_at p + (i - pt_at p))"
      using True i in' ls d(3) by (simp add: nth_copy_at)
    then show ?thesis using True by (simp add: covered_insert)
  next
    case False
    then show ?thesis using r i in' ls by (auto simp: nth_copy_at reading_def covered_insert)
  qed
  then show ?thesis using h r in' d(2,3) by (auto simp: reading_def)
qed

lemma covered_request:
  fixes off :: nat
  shows "i < n \<Longrightarrow> covered (set (raid0_parts (2 ^ sh) sh disks n (off div 2 ^ sh) (off mod 2 ^ sh) 0)) i"
  unfolding covered_def by (rule raid0_parts_cover) simp_all

lemma covered_request_lt: "covered (set (raid0_parts S sh disks n k so dn)) i \<Longrightarrow> i < n"
  using raid0_parts_end by (fastforce simp: covered_def)

lemma striped_write_completes:
  assumes be: "disks_ok good content m (2 ^ sh) hs" "length hs = n"
    and le: "off + length buf \<le> m * n * 2 ^ sh" and al: "al dvd 2 ^ sh" "al dvd off" "al dvd length buf"
  shows "completes (wr_act ops) (fan_start hs buf (raid0_parts (2 ^ sh) sh n (length buf) (off div 2 ^ sh) (off mod 2 ^ sh) 0))
    (\<lambda>s. disks_ok good content m (2 ^ sh) (fn_hs s) \<and> length (fn_hs s) = n \<and>
      raid0_volume content m (2 ^ sh) (fn_hs s) = copy_at (raid0_volume content m (2 ^ sh) hs) off buf)"
proof (rule completesI)
  let ?parts = "raid0_parts (2 ^ sh) sh n (length buf) (off div 2 ^ sh) (off mod 2 ^ sh) 0" and ?V = "raid0_volume content m (2 ^ sh) hs"
  fix s assume r: "fan_reach (wr_act ops) (fan_start hs buf ?parts) s"
  have w: "writing m sh n off ?V buf (fn_hs s) (fn_buf s) (fn_log s)"
  proof (rule fan_reach_keeps [OF r])
    show "writing m sh n off ?V buf hs buf []" using be by (simp add: writing_def covered_def)
    fix p e h b gs c log
    assume p: "p \<in> set ?parts" "writing m sh n off ?V buf gs c log" "wr_act ops p c (gs ! pt_disk p) = Some (e, b, h)"
    from writing_part [OF p(2,1) le al] p(3) show "writing m sh n off ?V buf (gs[pt_disk p := h]) b (log @ [(p, e)])" by auto
  qed
  show "wr_act ops p (fn_buf s) (fn_hs s ! pt_disk p) \<noteq> None" if "p \<in> set ?parts" for p
    using writing_part [OF w that le al] by auto
  assume all: "set (map fst (fn_log s)) = set ?parts"
  have lV: "length (raid0_volume content m (2 ^ sh) (fn_hs s)) = m * n * 2 ^ sh" "length ?V = m * n * 2 ^ sh"
    using w be(2) by (simp_all add: writing_def raid0_volume_def)
  have "raid0_volume content m (2 ^ sh) (fn_hs s) = copy_at ?V off buf"
  proof (rule nth_equalityI)
    show "length (raid0_volume content m (2 ^ sh) (fn_hs s)) = length (copy_at ?V off buf)" using lV le by simp
    fix i assume "i < length (raid0_volume content m (2 ^ sh) (fn_hs s))"
    then have i: "i < m * n * 2 ^ sh" using lV(1) by simp
    have "covered (set ?parts) (i - off) \<longleftrightarrow> i - off < length buf"
      using covered_request covered_request_lt by blast
    moreover have "raid0_volume content m (2 ^ sh) (fn_hs s) ! i =
        (if off \<le> i \<and> covered (set ?parts) (i - off) then buf ! (i - off) else ?V ! i)"
      using w i unfolding writing_def all by blast
    ultimately show "raid0_volume content m (2 ^ sh) (fn_hs s) ! i = copy_at ?V off buf ! i"
      using i le lV(2) by (auto simp: nth_copy_at)
  qed
  moreover have "fn_err s = 0" using fan_invD(3) [OF fan_reach_inv [OF r]] w by (simp add: foldl_merge_zero writing_def)
  ultimately show "fn_err s = 0 \<and> disks_ok good content m (2 ^ sh) (fn_hs s) \<and> length (fn_hs s) = n \<and>
      raid0_volume content m (2 ^ sh) (fn_hs s) = copy_at ?V off buf"
    using w by (simp add: writing_def)
qed

lemma striped_read_completes:
  assumes be: "disks_ok good content m (2 ^ sh) hs" "length hs = n"
    and le: "off + length buf \<le> m * n * 2 ^ sh" and al: "al dvd 2 ^ sh" "al dvd off" "al dvd length buf"
  shows "completes (rd_act ops) (fan_start hs buf (raid0_parts (2 ^ sh) sh n (length buf) (off div 2 ^ sh) (off mod 2 ^ sh) 0))
    (\<lambda>s. disks_ok good content m (2 ^ sh) (fn_hs s) \<and> length (fn_hs s) = n \<and>
      raid0_volume content m (2 ^ sh) (fn_hs s) = raid0_volume content m (2 ^ sh) hs \<and>
      fn_buf s = subspan (raid0_volume content m (2 ^ sh) hs) off (length buf))"
proof (rule completesI)
  let ?parts = "raid0_parts (2 ^ sh) sh n (length buf) (off div 2 ^ sh) (off mod 2 ^ sh) 0" and ?V = "raid0_volume content m (2 ^ sh) hs"
  fix s assume r: "fan_reach (rd_act ops) (fan_start hs buf ?parts) s"
  have w: "reading m sh n off ?V buf (fn_hs s) (fn_buf s) (fn_log s)"
  proof (rule fan_reach_keeps [OF r])
    show "reading m sh n off ?V buf hs buf []" using be by (simp add: reading_def covered_def)
    fix p e h b gs c log
    assume p: "p \<in> set ?parts" "reading m sh n off ?V buf gs c log" "rd_act ops p c (gs ! pt_disk p) = Some (e, b, h)"
    from reading_part [OF p(2,1) le al] p(3) show "reading m sh n off ?V buf (gs[pt_disk p := h]) b (log @ [(p, e)])" by auto
  qed
  show "rd_act ops p (fn_buf s) (fn_hs s ! pt_disk p) \<noteq> None" if "p \<in> set ?parts" for p
    using reading_part [OF w that le al] by auto
  assume all: "set (map fst (fn_log s)) = set ?parts"
  have lV: "length ?V = m * n * 2 ^ sh" using be(2) by (simp add: raid0_volume_def)
  have "fn_buf s = subspan ?V off (length buf)"
  proof (rule nth_equalityI)
    show "length (fn_buf s) = length (subspan ?V off (length buf))" using w le lV by (simp add: reading_def)
    fix i assume "i < length (fn_buf s)"
    then have i: "i < length buf" using w by (simp add: reading_def)
    then have "fn_buf s ! i = ?V ! (off + i)" using w covered_request unfolding reading_def all by simp
    then show "fn_buf s ! i = subspan ?V off (length buf) ! i" using i le lV by (simp add: nth_subspan)
  qed
  moreover have "fn_err s = 0" using fan_invD(3) [OF fan_reach_inv [OF r]] w by (simp add: foldl_merge_zero reading_def)
  ultimately show "fn_err s = 0 \<and> disks_ok good content m (2 ^ sh) (fn_hs s) \<and> length (fn_hs s) = n \<and>
      raid0_volume content m (2 ^ sh) (fn_hs s) = ?V \<and> fn_buf s = subspan ?V off (length buf)"
    using w by (simp add: reading_def)
qed

end

subsection \<open>Mirroring\<close>

text \<open>A write of a mirror hands the query itself to every disk (\<open>ublk/raid1/backend.cpp\<close>).\<close>

definition raid1_request :: "nat \<Rightarrow> byte list \<Rightarrow> 'c raid1 \<Rightarrow> part list" where
  "raid1_request off buf be = map (\<lambda>i. \<lparr>pt_disk = i, pt_off = off, pt_at = 0, pt_sz = length buf\<rparr>) [0..<length (r1_hs be)]"

lemma raid1_write_parts:
  assumes "buf \<noteq> []"
  shows "submit_writes ops buf (map (\<lambda>i. \<lparr>pt_disk = i, pt_off = off, pt_at = 0, pt_sz = length buf\<rparr>) [length dn..<length dn + length hs])
      err (dn @ hs) = raid1_write_loop ops off buf err dn hs"
proof (induction hs arbitrary: err dn)
  case (Cons h hs)
  have sq: "subquery buf 0 (length buf) = Some buf" using assms by (simp add: subquery_eq)
  have u: "[length dn..<Suc (length dn + length hs)] = length dn # [Suc (length dn)..<Suc (length dn + length hs)]"
    by (rule upt_conv_Cons) simp
  have IH: "submit_writes ops buf (map (\<lambda>i. \<lparr>pt_disk = i, pt_off = off, pt_at = 0, pt_sz = length buf\<rparr>)
      [Suc (length dn)..<Suc (length dn + length hs)]) e (dn @ h' # hs) = raid1_write_loop ops off buf e (dn @ [h']) hs" for e h'
    using Cons.IH [of "dn @ [h']" e] by (simp del: upt_Suc)
  show ?case by (auto simp: sq u IH simp del: upt_Suc intro!: bind_option_cong)
qed simp

context block_dev
begin

lemma as_aligned: "aligned_dev 1 ops good content"
  by (rule aligned.aligned_dev_axioms)

definition mirroring :: "nat \<Rightarrow> nat \<Rightarrow> byte list \<Rightarrow> byte list \<Rightarrow> 'c list \<Rightarrow> byte list \<Rightarrow> (part \<times> int) list \<Rightarrow> bool" where
  "mirroring n off V buf hs b log \<longleftrightarrow> b = buf \<and> length hs = n \<and> (\<forall>e \<in> set (map snd log). e = 0) \<and>
     (\<forall>i < n. good (hs ! i) \<and> content (hs ! i) = (if i \<in> pt_disk ` set (map fst log) then copy_at V off buf else V))"

lemma mirrored_write_completes:
  assumes "mirrors good content V (r1_hs be)" "buf \<noteq> []" "off + length buf \<le> length V"
  shows "completes (wr_act ops) (fan_start (r1_hs be) buf (raid1_request off buf be))
    (\<lambda>s. length (fn_hs s) = length (r1_hs be) \<and> mirrors good content (copy_at V off buf) (fn_hs s))"
proof (rule completesI)
  let ?n = "length (r1_hs be)" and ?parts = "raid1_request off buf be" and ?W = "copy_at V off buf"
  have lW: "length ?W = length V" using assms(3) by simp
  have part: "\<exists>h. wr_act ops p c (gs ! pt_disk p) = Some (0, c, h) \<and> mirroring ?n off V buf (gs[pt_disk p := h]) c (log @ [(p, 0)])"
    if p: "p \<in> set ?parts" and m: "mirroring ?n off V buf gs c log" for p c gs log
  proof -
    let ?i = "pt_disk p"
    have i: "?i < ?n" "pt_off p = off" "pt_at p = 0" "pt_sz p = length buf" using p by (auto simp: raid1_request_def)
    have g: "good (gs ! ?i)" "content (gs ! ?i) = (if ?i \<in> pt_disk ` set (map fst log) then ?W else V)" "c = buf" "length gs = ?n"
      using m i(1) unfolding mirroring_def by blast+
    have "off + length buf \<le> length (content (gs ! ?i))" using g(2) assms(3) lW by simp
    then obtain h where h: "submit_wr ops off buf (gs ! ?i) = Some (0, 0, h)" "good h" "content h = copy_at (content (gs ! ?i)) off buf"
      using write_law [OF g(1) assms(2)] by blast
    have "content h = ?W" using h(3) g(2) assms(3) copy_at_copy_at_same [of off buf V buf] by simp
    moreover have "subquery buf 0 (length buf) = Some buf" using assms(2) by (simp add: subquery_eq)
    ultimately show ?thesis using h(1,2) g(3,4) i m
      by (auto simp: wr_act_def mirroring_def nth_list_update)
  qed
  fix s assume r: "fan_reach (wr_act ops) (fan_start (r1_hs be) buf ?parts) s"
  have w: "mirroring ?n off V buf (fn_hs s) (fn_buf s) (fn_log s)"
  proof (rule fan_reach_keeps [OF r])
    show "mirroring ?n off V buf (r1_hs be) buf []" using assms(1) by (simp add: mirroring_def mirrors_def)
    fix p e h b gs c log
    assume "p \<in> set ?parts" "mirroring ?n off V buf gs c log" "wr_act ops p c (gs ! pt_disk p) = Some (e, b, h)"
    with part [of p gs c log] show "mirroring ?n off V buf (gs[pt_disk p := h]) b (log @ [(p, e)])" by auto
  qed
  show "wr_act ops p (fn_buf s) (fn_hs s ! pt_disk p) \<noteq> None" if "p \<in> set ?parts" for p
    using part [OF that w] by auto
  assume all: "set (map fst (fn_log s)) = set ?parts"
  have "pt_disk ` set ?parts = {0..<?n}" by (force simp: raid1_request_def image_image)
  then have "\<forall>i < ?n. good (fn_hs s ! i) \<and> content (fn_hs s ! i) = ?W" using w unfolding mirroring_def all by simp
  moreover have "length (fn_hs s) = ?n" using w by (simp add: mirroring_def)
  ultimately have "mirrors good content ?W (fn_hs s)" by (auto simp: mirrors_def in_set_conv_nth)
  moreover have "fn_err s = 0" using fan_invD(3) [OF fan_reach_inv [OF r]] w by (simp add: foldl_merge_zero mirroring_def)
  ultimately show "fn_err s = 0 \<and> length (fn_hs s) = ?n \<and> mirrors good content ?W (fn_hs s)"
    using w by (simp add: mirroring_def)
qed

end

subsection \<open>The contracts\<close>

text \<open>
  C11. Whatever the disks do, in whichever order they finish the parts of a query and wherever the submitting loop stops: each
  part is finished at most once; the completer of the query runs exactly when the loop has returned and no part is in
  flight, once, and nothing happens after it; and the error it sees is 0 just when every finished part went without an error.
\<close>

theorem query_completes_once:
  assumes "fan_reach act (fan_start hs buf parts) s"
  shows "mset (map fst (fn_log s)) + mset (fn_flight s) + mset (fn_todo s) = mset parts \<and>
    fn_done s = (if fn_res s \<noteq> None \<and> fn_flight s = [] then [fn_err s] else []) \<and>
    (fn_done s \<noteq> [] \<longrightarrow> (\<forall>s'. \<not> fan_step act s s')) \<and> (fn_err s = 0 \<longleftrightarrow> (\<forall>e \<in> set (map snd (fn_log s)). e = 0))"
proof -
  note inv = fan_reach_inv [OF assms] and i = fan_invD [OF fan_reach_inv [OF assms]]
  have "fn_refs s = 0 \<longleftrightarrow> fn_res s \<noteq> None \<and> fn_flight s = []" using i(1) by auto
  then show ?thesis using i(2,4) fan_done_stops [OF inv] unfolding i(3) foldl_merge_zero by auto
qed

text \<open>Two parts, the first of which fails after the second is done.\<close>

definition demo_parts :: "part list" where
  "demo_parts = [\<lparr>pt_disk = 0, pt_off = 0, pt_at = 0, pt_sz = 1\<rparr>, \<lparr>pt_disk = 1, pt_off = 0, pt_at = 1, pt_sz = 1\<rparr>]"

definition demo_act :: "unit act" where
  "demo_act p buf h = Some (if pt_disk p = 0 then 5 else 0, buf, h)"

lemma query_completes_once_witness:
  "\<exists>s. fan_reach demo_act (fan_start [(), ()] [7, 8] demo_parts) s \<and> map fst (fn_log s) = rev demo_parts \<and> fn_done s = [5]"
proof -
  let ?s0 = "fan_start [(), ()] [7, 8] demo_parts"
  let ?p = "\<lparr>pt_disk = 0, pt_off = 0, pt_at = 0, pt_sz = 1\<rparr>" and ?q = "\<lparr>pt_disk = 1, pt_off = 0, pt_at = 1, pt_sz = 1\<rparr>"
  let ?R = "fan_reach demo_act ?s0"
  obtain s1 where s1: "?R s1" "fn_res s1 = None" "fn_todo s1 = [?q]" "fn_flight s1 = [?p]" "fn_log s1 = []"
    using fr_step [OF fr_start f_submit [of ?s0 ?p "[?q]" demo_act]] by (auto simp: fan_start_def demo_parts_def)
  obtain s2 where s2: "?R s2" "fn_res s2 = None" "fn_todo s2 = []" "fn_flight s2 = [?p, ?q]" "fn_log s2 = []"
    using fr_step [OF s1(1) f_submit [OF s1(2,3)]] s1 by auto
  have "demo_act ?q (fn_buf s2) (fn_hs s2 ! pt_disk ?q) = Some (0, fn_buf s2, fn_hs s2 ! 1)" by (simp add: demo_act_def)
  from fr_step [OF s2(1) f_finish [of s2 "[?p]" ?q "[]" demo_act 0 "fn_buf s2" "fn_hs s2 ! 1", OF _ this]] s2 obtain s3 where
    s3: "?R s3" "fn_res s3 = None" "fn_todo s3 = []" "fn_flight s3 = [?p]" "fn_log s3 = [(?q, 0)]" by auto
  from fr_step [OF s3(1) f_return [OF s3(2,3)]] s3 obtain s4 where
    s4: "?R s4" "fn_res s4 = Some 0" "fn_flight s4 = [?p]" "fn_log s4 = [(?q, 0)]" by auto
  have "demo_act ?p (fn_buf s4) (fn_hs s4 ! pt_disk ?p) = Some (5, fn_buf s4, fn_hs s4 ! 0)" by (simp add: demo_act_def)
  from fr_step [OF s4(1) f_finish [of s4 "[]" ?p "[]" demo_act 5 "fn_buf s4" "fn_hs s4 ! 0", OF _ this]] s4 obtain s5 where
    s5: "?R s5" "fn_res s5 = Some 0" "fn_flight s5 = []" "fn_log s5 = [(?q, 0), (?p, 5)]" by auto
  have "fn_done s5 = [fn_err s5]" using query_completes_once [OF s5(1)] s5(2,3) by simp
  moreover have "fn_err s5 = 5" using fan_invD(3) [OF fan_reach_inv [OF s5(1)]] s5(4) by (simp add: merge_err_def)
  ultimately show ?thesis using s5 by (auto simp: demo_parts_def)
qed

text \<open>A write of the striped array submits the parts of its request, and so does a read.\<close>

lemma raid0_request_submits:
  assumes "raid0_good good content m n be" "buf \<noteq> []"
  shows "raid0_write ops off buf be = map_option (\<lambda>(r, e, hs). (r, e, be\<lparr>r0_hs := hs\<rparr>)) (submit_writes ops buf (raid0_request off buf be) 0 (r0_hs be))"
    and "raid0_read ops off buf be = map_option (\<lambda>(r, e, b, hs). (r, e, b, be\<lparr>r0_hs := hs\<rparr>)) (submit_reads ops (raid0_request off buf be) 0 buf (r0_hs be))"
proof -
  have S: "and off (r0_strip_sz be - 1) < r0_strip_sz be"
    using assms(1) raid0_shift(2) [of off "r0_strip_shift be"] by (simp add: raid0_good_def)
  show "raid0_write ops off buf be = map_option (\<lambda>(r, e, hs). (r, e, be\<lparr>r0_hs := hs\<rparr>)) (submit_writes ops buf (raid0_request off buf be) 0 (r0_hs be))"
    using assms(2) unfolding raid0_write_def Let_def raid0_write_parts [OF S] raid0_request_def
    by (cases "submit_writes ops buf (raid0_parts (r0_strip_sz be) (r0_strip_shift be) (length (r0_hs be)) (length buf)
      (drop_bit (r0_strip_shift be) off) (and off (r0_strip_sz be - 1)) 0) 0 (r0_hs be)") auto
  show "raid0_read ops off buf be = map_option (\<lambda>(r, e, b, hs). (r, e, b, be\<lparr>r0_hs := hs\<rparr>)) (submit_reads ops (raid0_request off buf be) 0 buf (r0_hs be))"
    using assms(2) unfolding raid0_read_def Let_def raid0_read_parts [OF S] raid0_request_def
    by (cases "submit_reads ops (raid0_parts (r0_strip_sz be) (r0_strip_shift be) (length (r0_hs be)) (length buf)
      (drop_bit (r0_strip_shift be) off) (and off (r0_strip_sz be - 1)) 0) 0 buf (r0_hs be)") auto
qed



end
