(* ===== verification/Spec2Isabelle.thy ===== *)
theory Spec2Isabelle
  imports Utility Cfq Raid0 Raid1 Raid45 Write_Serializer Command_Io Cache_Handlers Default_Target
    Lru_Tests Target_Tests Array_Tests Partial_Tests Queries Memory Slave Master Served_Devices Sessions Fan_Out
begin

text \<open>
  A verification library of \<open>ublk\<close>, the user-space block device daemon: a master process that creates
  targets (memory, files, RAID arrays, with or without a cache), and slave processes that serve a
  target to a driver in the kernel through shared memory.

  \<^bold>\<open>Parts and how they interact.\<close>
  A slave finds its shared memory (theory Slave, \<open>ublk/slave.cpp\<close>) and runs a loop (Event_Loop,
  \<open>handler.cpp\<close>, \<open>cmd_acknowledger.cpp\<close>) that takes commands from a ring (Cfq, \<open>ublk/cfq/\<close>) and
  hands them to the command handler (Commands, Command_Io, \<open>cmd_handler.cpp\<close>, \<open>for_each_celld.hpp\<close>,
  the requests, adaptors and per-operation handlers).  A command becomes queries (Queries, the
  \<open>_query.hpp\<close> files) that go down a stack of handlers: an optional cache (Cache_Handlers over
  Flat_Lru and the interface Cache_Store, \<open>ublk/cache/\<close>), a target behind its state machine
  (Target_Fsm, \<open>fsm.hpp\<close> and \<open>target.cpp\<close> of the arrays), an array (Raid0 over Layout, Raid1,
  and Raid45 over Acceptor, Raidsp_Backend, Strip_Parity and Bitset_Locker, \<open>ublk/raid*/\<close>), and
  below it memory or a file (Block_Dev, Default_Target, \<open>ublk/inmem/\<close>, \<open>ublk/def/\<close>).
  Device_Stack builds these stacks from a configuration as the functions of \<open>master.cpp\<close> do,
  Parity_Stack those with parity arrays and the arrays of arrays, and Master is \<open>class Master\<close>: create,
  destroy, map, unmap, list and the children.  Served_Devices says what every configuration stands for,
  Sessions what a driver sees of a device through the event loop.  Memory models the allocators of
  \<open>mm/\<close>, Utility and Spans the arithmetic and the word-wise copies of \<open>utils/\<close>.  Lru_Tests,
  Target_Tests, Array_Tests, Parity_Tests and Partial_Tests run the repository's unit tests of the cache
  and of the targets (\<open>ut/\<close>) on the model: their mocks are handlers, their random choices arguments.

  \<^bold>\<open>How state and operations correspond.\<close>
  A class with state is a record with a field per member; an operation takes the state and returns
  the new one.  A handler is a pair of functions \<open>submit_rd\<close> and \<open>submit_wr\<close> (\<open>rw_handler\<close>) over
  the state of the device below; a query is its offset and its buffer, and the result of \<open>submit\<close> is
  \<open>Some (return value, error of the query, bytes read, new state)\<close>, or \<open>None\<close> when a contract
  (\<open>Expects\<close>, \<open>Ensures\<close>) is violated, an access is out of range or a terminating exception escapes.
  Queries complete before \<open>submit\<close> returns; what changes when they do not is modelled where it
  matters: Fan_Out lets disks finish the parts of a striped or mirrored request in any order, with the
  references that decide when its completer runs; Write_Serializer has the locking and waiting of overlapping writes of \<open>acceptor.cpp\<close> and
  \<open>rwt_handler.cpp\<close> over any process function and any completion order, and Cache_Handlers has the
  completion of a read as a step of its own.  Sums of \<open>uint64_t\<close> that the code does not guard are
  taken modulo \<open>2 ^ 64\<close> (\<open>u64_add\<close>), sequence numbers and counters are words.

  \<^bold>\<open>What the lemmas show.\<close>
  The contract of a device is the locale \<open>aligned_dev\<close> of Block_Dev, with \<open>block_dev\<close> its instance for
  every alignment: reads return the content and writes change it, without an error.  The memory and
  the file target satisfy it, and each layer satisfies it again whenever the layer below does
  (RAID0 and RAID1 for any request, RAID4 and RAID5 for requests in multiples of eight bytes, both
  cache handlers), and \<open>flush_dev\<close> adds that a flush keeps the content.  So every kind of configuration
  but null gives a device that serves one flat array of bytes, arrays of parity arrays and caches included
  (Served_Devices), a session of its child is that array with the driver's events applied in order
  (\<open>target_end_to_end\<close> below, by Sessions), and what is written is read back (\<open>target_round_trip\<close>).
  The cache is the locale \<open>lossy_cache\<close>, a map that may forget but
  never lies; the command queue is a locale of Cfq.  The state machines (ring, write serialiser, event
  loop, master, allocator) are inductive step relations with invariants by rule induction.  The error
  theorems state what the code does where it does not do what it means to.

  \<^bold>\<open>Bounds and fuel.\<close>
  Loops are functions with a measure.  Two loops may not end and are \<open>partial_function (option)\<close>:
  reading at the end of a file (\<open>def_async_read\<close>) and the completer of the write serialiser
  (\<open>drain\<close>); the first is proved to return under the laws of files (\<open>def_read_extends\<close>), the second
  for every behaviour of the process function (\<open>drain_terminates\<close>).

  \<^bold>\<open>Assumptions.\<close>
  \<open>file_laws\<close> is what the code relies on of asynchronous file operations (\<open>fsync\<close> keeps the bytes), \<open>os_law\<close> what it relies on
  of the allocation of memory, \<open>cmd_ops_ok\<close> that the driver's operation codes are distinct and in
  range.  Paths that are opened twice are separate files.  In a session the
  chains of cells are laid out before it starts, and the driver writes cells between the tasks of the child.  The content of a recycled chunk is a parameter
  (\<open>pool\<close>).  What the system answers a slave (\<open>slave_world\<close>) is arbitrary; \<open>world_ok\<close> says that
  everything opens and maps.  A device with a cache has a size that is a multiple of the size of the cache's items.

  \<^bold>\<open>Not modelled.\<close>
  The wrappers of system calls and netlink (\<open>sys/\<close>), the Python bindings (\<open>ublksh/\<close>), the benchmarks,
  logging and formatting, the SIMD variants of the copies, which come from a third-party library, type
  constraints and random devices.  Requests that complete later are modelled for striping, for mirrored
  writes and for the locking of stripes and chunks, not for the whole stack at once; mirrored reads,
  parity updates and the fills of the cache run to their end where they are submitted (the fills also as
  a step of their own).  The acknowledger's retry on a full
  ring is left to its caller.
\<close>

section \<open>From the configuration to the commands\<close>

context aligned_dev
begin

lemma write_then_read_command:
  assumes "cmd_ops_ok os" "writer sub = submit_wr ops" "reader sub = submit_rd ops" "good (dv_target dv)"
    and len: "length (content (dv_target dv)) < u64_limit"
    and w: "cmd_op cw = op_write os" "chw = cell_chain cellds (cmd_fcdn cw) (cmd_cds_nr cw)" "chw \<noteq> []"
      "cells_in (length (dv_cells dv)) chw" "cmd_offset cw + chain_sz chw \<le> length (content (dv_target dv))"
    and r: "cmd_op cr = op_read os" "chr = cell_chain cellds (cmd_fcdn cr) (cmd_cds_nr cr)" "chr \<noteq> []"
      "cells_in (length (dv_cells dv)) chr" "cells_apart chr"
    and al: "al dvd cmd_offset cw" "cells_aligned al chw" "cells_aligned al chr"
    and same: "cmd_offset cr = cmd_offset cw" "chain_sz chr = chain_sz chw"
  shows "\<exists>dv1 dv2. cmd_handle os (master_hs os) sub cellds cw dv = Some (0, dv1) \<and>
    cmd_handle os (master_hs os) sub cellds cr dv1 = Some (0, dv2) \<and>
    dv_acks dv2 = dv_acks dv @ [(cmd_id cw, 0), (cmd_id cr, 0)] \<and> chain_bytes (dv_cells dv2) chr = chain_bytes (dv_cells dv) chw"
proof -
  have l: "length (chain_bytes (dv_cells dv) chw) = chain_sz chw" using w(4) by (rule length_chain_bytes)
  obtain d where d: "cmd_handle os (master_hs os) sub cellds cw dv =
      Some (0, dv\<lparr>dv_target := d, dv_acks := dv_acks dv @ [(cmd_id cw, 0)]\<rparr>)" "good d"
    "content d = copy_at (content (dv_target dv)) (cmd_offset cw) (chain_bytes (dv_cells dv) chw)"
    using write_command_eq [OF assms(1) w(1) assms(2,4) len w(2-5) al(1,2)] by blast
  let ?dv1 = "dv\<lparr>dv_target := d, dv_acks := dv_acks dv @ [(cmd_id cw, 0)]\<rparr>"
  have lc: "length (content d) = length (content (dv_target dv))" using d(3) l w(5) by simp
  have p: "good (dv_target ?dv1)" "length (content (dv_target ?dv1)) < u64_limit" "cells_in (length (dv_cells ?dv1)) chr"
    "cmd_offset cr + chain_sz chr \<le> length (content (dv_target ?dv1))"
    using d(2) len r(4) w(5) same lc by simp_all
  obtain d' where "cmd_handle os (master_hs os) sub cellds cr ?dv1 =
      Some (0, \<lparr>dv_cells = scatter (dv_cells ?dv1) chr (subspan (content (dv_target ?dv1)) (cmd_offset cr) (chain_sz chr)),
        dv_target = d', dv_acks = dv_acks ?dv1 @ [(cmd_id cr, 0)]\<rparr>)"
    using read_command_eq [OF assms(1) r(1) assms(3) p(1,2) r(2,3) p(3,4) al(1) [folded same(1)] al(3)] by blast
  moreover have "subspan (content d) (cmd_offset cr) (chain_sz chr) = chain_bytes (dv_cells dv) chw"
    unfolding d(3) using l w(5) same by simp
  moreover have "chain_bytes (scatter (dv_cells dv) chr (chain_bytes (dv_cells dv) chw)) chr = chain_bytes (dv_cells dv) chw"
    using l same(2) by (intro chain_bytes_scatter [OF r(4) _ r(5)]) simp
  ultimately show ?thesis using d(1) by auto
qed

end

lemma dev_submitters_subs: "dev_submitters = subs_of dev_ops dev_flush"
  by (simp add: dev_submitters_def subs_of_def dev_ops_def)

lemma factory_master_hs:
  "cmd_ops_ok os \<Longrightarrow> factory_create_unique os (master_handlers os) = Some (master_hs os)"
  using cmd_handler_create_eq [of os] by (auto simp: factory_create_unique_def master_hs_def)

text \<open>A created target that is mapped is the device of the new child.\<close>

lemma created_and_mapped:
  assumes "map_of (ms_targets st) (tc_name p) = None" "bm_target bm = tc_name p"
    and "make_device w (tc_capacity_sectors p) (tc_cache p) (tc_target p) = Some (Inr d)"
  shows "\<exists>st1 st2. master_create w p st = Some (Inr (), st1) \<and> master_map None (Some pid) bm st1 = (Inr (), st2) \<and>
    (pid, d) \<in> set (ms_slaves st2)"
proof -
  let ?t = "\<lparr>to_id = ms_next st, to_dev = d, to_capacity = tc_capacity_sectors p\<rparr>"
  let ?st1 = "st\<lparr>ms_targets := (tc_name p, ?t) # ms_targets st, ms_next := Suc (ms_next st)\<rparr>"
  have create: "master_create w p st = Some (Inr (), ?st1)" using assms(1,3) by (simp add: master_create_def)
  have "map_of (ms_targets ?st1) (bm_target bm) = Some ?t" using assms(2) by simp
  then show ?thesis using create mapping_starts_fresh [of ?st1 bm ?t pid] by auto
qed


text \<open>A target over a file, and a driver that fills nothing and reads eight bytes.\<close>

definition one_cell :: "celld list" where
  "one_cell = [\<lparr>cd_offset = 0, cd_data_sz = 8, cd_ncelld = 0\<rparr>]"

definition demo_read :: cmd where
  "demo_read = \<lparr>cmd_id = 6, cmd_op = op_read demo_ops, cmd_offset = 16, cmd_fcdn = 0, cmd_cds_nr = 1, cmd_sz = 0\<rparr>"


section \<open>Round trips\<close>

text \<open>The two commands on the child of a target that has been created and mapped.\<close>

lemma created_round_trip:
  assumes d: "make_device w (tc_capacity_sectors p) (tc_cache p) (tc_target p) = Some (Inr d)" "flush_dev al dev_ops G C dev_flush"
      "G d" "length (C d) < u64_limit"
    and "map_of (ms_targets st) (tc_name p) = None" "bm_target bm = tc_name p"
    and "cmd_ops_ok os" "cmd_op cw = op_write os" "cmd_fits os cellds al (length (C d)) (length shm) cw"
    and "cmd_op cr = op_read os" "cmd_fits os cellds al (length (C d)) (length shm) cr"
    and "chw = cell_chain cellds (cmd_fcdn cw) (cmd_cds_nr cw)" "chr = cell_chain cellds (cmd_fcdn cr) (cmd_cds_nr cr)"
    and "cells_apart chr" "cmd_offset cr = cmd_offset cw" "chain_sz chr = chain_sz chw"
  shows "\<exists>st1 st2 hs d dv1 dv2.
    master_create w p st = Some (Inr (), st1) \<and> master_map None (Some pid) bm st1 = (Inr (), st2) \<and>
    (pid, d) \<in> set (ms_slaves st2) \<and> factory_create_unique os (master_handlers os) = Some hs \<and>
    cmd_handle os hs dev_submitters cellds cw \<lparr>dv_cells = shm, dv_target = d, dv_acks = []\<rparr> = Some (0, dv1) \<and>
    cmd_handle os hs dev_submitters cellds cr dv1 = Some (0, dv2) \<and>
    dv_acks dv2 = [(cmd_id cw, 0), (cmd_id cr, 0)] \<and> chain_bytes (dv_cells dv2) chr = chain_bytes shm chw"
proof -
  obtain st1 st2 where m: "master_create w p st = Some (Inr (), st1)" "master_map None (Some pid) bm st1 = (Inr (), st2)"
    "(pid, d) \<in> set (ms_slaves st2)"
    using created_and_mapped [OF assms(5,6) d(1)] by blast
  let ?dv = "\<lparr>dv_cells = shm, dv_target = d, dv_acks = []\<rparr>"
  have f: "chw \<noteq> []" "cells_in (length shm) chw" "cells_aligned al chw" "al dvd cmd_offset cw"
      "cmd_offset cw + chain_sz chw \<le> length (C d)" "chr \<noteq> []" "cells_in (length shm) chr" "cells_aligned al chr"
    using assms(8-13) by (simp_all add: cmd_fits_def Let_def)
  have "\<exists>dv1 dv2. cmd_handle os (master_hs os) dev_submitters cellds cw ?dv = Some (0, dv1) \<and>
      cmd_handle os (master_hs os) dev_submitters cellds cr dv1 = Some (0, dv2) \<and>
      dv_acks dv2 = dv_acks ?dv @ [(cmd_id cw, 0), (cmd_id cr, 0)] \<and> chain_bytes (dv_cells dv2) chr = chain_bytes (dv_cells ?dv) chw"
    by (rule aligned_dev.write_then_read_command [OF flush_dev.axioms(1) [OF d(2)], of os])
      (use f d(3,4) assms(7,8,10,12-16) in \<open>simp_all add: dev_submitters_def dev_ops_def\<close>)
  then show ?thesis using m factory_master_hs [OF assms(7)] by auto
qed

text \<open>
  C3. Round trip, for every kind of target.  A target is created from a configuration of any kind but null, with or without a
  cache, and mapped; the child then handles a write command and a read command of the same range, whose chains of cells may
  be cut differently.  Both are acknowledged without an error, and the cells of the read hold the bytes of the cells of the write.
\<close>

theorem target_round_trip:
  assumes "file_laws (wd_fo w) good bytes" "pool_ok (wd_pool w)" "opens (wd_open w) good bytes F (cfg_paths (tc_target p))"
    and "cfg_ok F (tc_target p)" "tc_target p = InmemCfg \<longrightarrow> wd_alloc w (sectors_bytes (tc_capacity_sectors p))"
    and "n = length (cfg_volume F (tc_capacity_sectors p) (tc_target p))" "tc_target p \<noteq> InmemCfg \<longrightarrow> cache_fits (tc_cache p) n"
    and "n < u64_limit" "map_of (ms_targets st) (tc_name p) = None" "bm_target bm = tc_name p" "cmd_ops_ok os"
    and "cmd_op cw = op_write os" "cmd_fits os cellds (cfg_align (tc_target p)) n (length shm) cw"
    and "cmd_op cr = op_read os" "cmd_fits os cellds (cfg_align (tc_target p)) n (length shm) cr"
    and "chw = cell_chain cellds (cmd_fcdn cw) (cmd_cds_nr cw)" "chr = cell_chain cellds (cmd_fcdn cr) (cmd_cds_nr cr)"
    and "cells_apart chr" "cmd_offset cr = cmd_offset cw" "chain_sz chr = chain_sz chw"
  shows "\<exists>st1 st2 hs d dv1 dv2.
    master_create w p st = Some (Inr (), st1) \<and> master_map None (Some pid) bm st1 = (Inr (), st2) \<and>
    (pid, d) \<in> set (ms_slaves st2) \<and> factory_create_unique os (master_handlers os) = Some hs \<and>
    cmd_handle os hs dev_submitters cellds cw \<lparr>dv_cells = shm, dv_target = d, dv_acks = []\<rparr> = Some (0, dv1) \<and>
    cmd_handle os hs dev_submitters cellds cr dv1 = Some (0, dv2) \<and>
    dv_acks dv2 = [(cmd_id cw, 0), (cmd_id cr, 0)] \<and> chain_bytes (dv_cells dv2) chr = chain_bytes shm chw"
proof -
  obtain d G C where d: "make_device w (tc_capacity_sectors p) (tc_cache p) (tc_target p) = Some (Inr d)"
    "flush_dev (cfg_align (tc_target p)) dev_ops G C dev_flush" "G d" "length (C d) = n"
    using make_device_good [OF assms(1-5), of "tc_cache p"] assms(6,7) by metis
  show ?thesis
    by (rule created_round_trip [OF d(1-3)]) (use assms(8-20) d(4) in simp_all)
qed

text \<open>
  The same for a RAID10 target whose mirrors hold equal files, whose strips may be of any power of two.
\<close>

theorem raid10_end_to_end:
  assumes "file_laws (wd_fo w) good bytes" "pool_ok (wd_pool w)" "raid1s \<noteq> []"
    and "\<forall>r \<in> set raid1s. opens (wd_open w) good bytes (\<lambda>_. V r) (r1c_paths r) \<and> 2 \<le> length (r1c_paths r) \<and>
      r1c_read_strip_len_sectors r \<le> max_sectors \<and> length (V r) = m * 2 ^ k"
    and "sectors_bytes n = 2 ^ k" "cache_fits (tc_cache p) (m * length raid1s * 2 ^ k)" "m * length raid1s * 2 ^ k < u64_limit"
    and "map_of (ms_targets st) (tc_name p) = None" "tc_target p = Raid10Cfg n raid1s" "bm_target bm = tc_name p"
    and "cmd_ops_ok os" "cmd_op cw = op_write os" "chw = cell_chain cellds (cmd_fcdn cw) (cmd_cds_nr cw)" "chw \<noteq> []"
    and "cells_in (length shm) chw" "cmd_offset cw + chain_sz chw \<le> m * length raid1s * 2 ^ k"
    and "cmd_op cr = op_read os" "chr = cell_chain cellds (cmd_fcdn cr) (cmd_cds_nr cr)" "chr \<noteq> []"
    and "cells_in (length shm) chr" "cells_apart chr" "cmd_offset cr = cmd_offset cw" "chain_sz chr = chain_sz chw"
  shows "\<exists>st1 st2 hs d dv1 dv2.
    master_create w p st = Some (Inr (), st1) \<and> master_map None (Some pid) bm st1 = (Inr (), st2) \<and>
    (pid, d) \<in> set (ms_slaves st2) \<and> factory_create_unique os (master_handlers os) = Some hs \<and>
    cmd_handle os hs dev_submitters cellds cw \<lparr>dv_cells = shm, dv_target = d, dv_acks = []\<rparr> = Some (0, dv1) \<and>
    cmd_handle os hs dev_submitters cellds cr dv1 = Some (0, dv2) \<and>
    dv_acks dv2 = [(cmd_id cw, 0), (cmd_id cr, 0)] \<and> chain_bytes (dv_cells dv2) chr = chain_bytes shm chw"
proof -
  obtain h C where h: "raid10_from_cfg (wd_fo w) (wd_pool w) (wd_open w) (tc_cache p) n raid1s = Some (Inr h)"
    "hops_good 1 C h" "length (hops_content C h) = m * length raid1s * 2 ^ k"
    using raid10_device [OF assms(1-6)] by metis
  from tagged_hops [of Raid10Dev, OF _ _ _ _ h(1,2) refl] obtain d G C' where
    d: "make_device w (tc_capacity_sectors p) (tc_cache p) (tc_target p) = Some (Inr d)" "flush_dev 1 dev_ops G C' dev_flush"
      "G d" "length (C' d) = m * length raid1s * 2 ^ k"
    using assms(9) h(3) by auto
  show ?thesis
    by (rule created_round_trip [OF d(1-3)]) (use assms(7-23) d(4) in \<open>simp_all add: cmd_fits_def Let_def\<close>)
qed

definition two_chains :: "celld list" where
  "two_chains = demo_cellds @ [\<lparr>cd_offset = 5, cd_data_sz = 3, cd_ncelld = 0\<rparr>]"

definition read_back :: cmd where
  "read_back = \<lparr>cmd_id = 6, cmd_op = op_read demo_ops, cmd_offset = 1, cmd_fcdn = 2, cmd_cds_nr = 1, cmd_sz = 0\<rparr>"

lemma two_chains_cells:
  "cell_chain two_chains (cmd_fcdn (demo_cmd op)) (cmd_cds_nr (demo_cmd op)) =
    [\<lparr>cd_offset = 0, cd_data_sz = 1, cd_ncelld = 0\<rparr>, \<lparr>cd_offset = 2, cd_data_sz = 2, cd_ncelld = 9\<rparr>]"
  "cell_chain two_chains (cmd_fcdn read_back) (cmd_cds_nr read_back) = [\<lparr>cd_offset = 5, cd_data_sz = 3, cd_ncelld = 0\<rparr>]"
  by (simp_all add: two_chains_def demo_cellds_def demo_cmd_def read_back_def numeral_2_eq_2)

text \<open>A RAID10 device of four files, written from two cells and read into one.\<close>

lemma target_round_trip_witness:
  "\<exists>st1 st2 hs d dv1 dv2.
    master_create demo_world (demo_create ''t'' (Raid10Cfg 1 demo_mirrors)) master_init = Some (Inr (), st1) \<and>
    master_map None (Some 7) demo_map st1 = (Inr (), st2) \<and> (7, d) \<in> set (ms_slaves st2) \<and>
    factory_create_unique demo_ops (master_handlers demo_ops) = Some hs \<and>
    cmd_handle demo_ops hs dev_submitters two_chains (demo_cmd 1) \<lparr>dv_cells = [7, 0, 8, 9, 0, 0, 0, 0], dv_target = d, dv_acks = []\<rparr>
      = Some (0, dv1) \<and>
    cmd_handle demo_ops hs dev_submitters two_chains read_back dv1 = Some (0, dv2) \<and>
    dv_acks dv2 = [(5, 0), (6, 0)] \<and> chain_bytes (dv_cells dv2) [\<lparr>cd_offset = 5, cd_data_sz = 3, cd_ncelld = 0\<rparr>] = [7, 8, 9]"
proof -
  let ?p = "demo_create ''t'' (Raid10Cfg 1 demo_mirrors)" and ?shm = "[7, 0, 8, 9, 0, 0, 0, 0] :: byte list"
  let ?chw = "cell_chain two_chains (cmd_fcdn (demo_cmd 1)) (cmd_cds_nr (demo_cmd 1))"
    and ?chr = "cell_chain two_chains (cmd_fcdn read_back) (cmd_cds_nr read_back)"
  have laws: "file_laws (wd_fo demo_world) (\<lambda>_. True) (\<lambda>f. f)" "pool_ok (wd_pool demo_world)"
    using list_file_laws demo_pool_ok by (simp_all add: demo_world_def)
  have strip: "strip_ok 1" unfolding strip_ok_def by (rule bexI [of _ 9]) (simp_all add: sectors_bytes_def)
  have c: "opens (wd_open demo_world) (\<lambda>_. True) (\<lambda>f. f) demo_files (cfg_paths (tc_target ?p))" "cfg_ok demo_files (tc_target ?p)"
    "tc_target ?p = InmemCfg \<longrightarrow> wd_alloc demo_world (sectors_bytes (tc_capacity_sectors ?p))"
    "1024 = length (cfg_volume demo_files (tc_capacity_sectors ?p) (tc_target ?p))"
    "tc_target ?p \<noteq> InmemCfg \<longrightarrow> cache_fits (tc_cache ?p) 1024" "(1024 :: nat) < u64_limit"
    "map_of (ms_targets (master_init :: byte list mstate)) (tc_name ?p) = None" "bm_target demo_map = tc_name ?p"
    using strip
    by (simp_all add: demo_create_def demo_mirrors_def opens_def demo_world_def demo_open_def demo_files_def cache_fits_def
      master_init_def demo_map_def raid1_ok_def raid1_volume_def parts_ok_def length_stripe_volume sectors_bytes_def max_sectors_def)
  have w: "cmd_op (demo_cmd 1) = op_write demo_ops" "cmd_fits demo_ops two_chains (cfg_align (tc_target ?p)) 1024 (length ?shm) (demo_cmd 1)"
    "cmd_op read_back = op_read demo_ops" "cmd_fits demo_ops two_chains (cfg_align (tc_target ?p)) 1024 (length ?shm) read_back"
    "cells_apart ?chr" "cmd_offset read_back = cmd_offset (demo_cmd 1)" "chain_sz ?chr = chain_sz ?chw"
    unfolding cmd_fits_def two_chains_cells
    by (simp_all add: demo_cmd_def demo_ops_def read_back_def cells_apart_def demo_create_def)
  have b: "chain_bytes ?shm ?chw = [7, 8, 9]" "cmd_id (demo_cmd 1) = 5" "cmd_id read_back = 6"
    unfolding two_chains_cells by (simp_all add: cell_bytes_def subspan_def demo_cmd_def read_back_def)
  from target_round_trip [OF laws c demo_ops_ok w(1-4) refl refl w(5-7), of 7]
  show ?thesis unfolding b unfolding two_chains_cells .
qed

end
